(* ===== verification/Mv_Prelude.thy ===== *)
theory Mv_Prelude
  imports Complex_Main "HOL-Library.Word" "HOL-Library.Multiset" "HOL-Library.Sublist"
begin

text \<open>
  Shared material of the microvllm development: fixed-width integer casts written out on
  \<open>nat\<close> and \<open>int\<close>, the part of the C++ standard library that several components use
  (\<open>std::to_string\<close>, \<open>std::string::find\<close>, a vector used as a stack, a map searched by
  key), and the list and multiset lemmas that the component proofs rest on.
\<close>

named_theorems mv_simps \<open>rewrite rules that compute the fixed-width casts\<close>
named_theorems mv_inv \<open>introduction rules: an operation keeps a component invariant\<close>
named_theorems mv_frame \<open>rewrite rules: the fields an operation does not write\<close>

section \<open>Fixed-width integers\<close>

text \<open>
  \<open>std::uint32_t\<close> and \<open>std::uint64_t\<close> values are natural numbers; every place where the
  source adds, subtracts or casts to such a type goes through one of these functions.
\<close>

definition u32 :: "nat \<Rightarrow> nat" where
  "u32 n = n mod 4294967296"

definition u64 :: "nat \<Rightarrow> nat" where
  "u64 n = n mod 18446744073709551616"

definition u32_sub :: "nat \<Rightarrow> nat \<Rightarrow> nat" where
  "u32_sub a b = nat ((int a - int b) mod 4294967296)"

text \<open>A cast to \<open>std::int32_t\<close>, modular since C++20.\<close>

definition i32 :: "int \<Rightarrow> int" where
  "i32 x = (x + 2147483648) mod 4294967296 - 2147483648"

text \<open>Code equations on binary numerals, so that concrete runs evaluate.\<close>

lemma u32_code [code]: "u32 n = nat (int n mod 4294967296)"
  by (simp add: u32_def nat_mod_as_int)

lemma u64_code [code]: "u64 n = nat (int n mod 18446744073709551616)"
  by (simp add: u64_def nat_mod_as_int)

lemma u32_id [mv_simps]: "n < 4294967296 \<Longrightarrow> u32 n = n"
  by (simp add: u32_def)

lemma u64_id [mv_simps]: "n < 18446744073709551616 \<Longrightarrow> u64 n = n"
  by (simp add: u64_def)

lemma u32_less [simp]: "u32 n < 4294967296"
  by (simp add: u32_def)

lemma u32_le [simp]: "u32 n \<le> n"
  by (simp add: u32_def)

lemma u32_0 [simp]: "u32 0 = 0"
  by (simp add: u32_def)

lemma u64_Suc_u64: "u64 (u64 n + k) = u64 (n + k)"
  by (simp add: u64_def mod_add_left_eq)

lemma u32_sub_id [mv_simps]: "b \<le> a \<Longrightarrow> a < 4294967296 \<Longrightarrow> u32_sub a b = a - b"
  by (simp add: u32_sub_def)

lemma i32_id [mv_simps]: "- 2147483648 \<le> x \<Longrightarrow> x < 2147483648 \<Longrightarrow> i32 x = x"
  by (simp add: i32_def)

section \<open>Vectors used as stacks\<close>

text \<open>
  A vector is a list in index order: \<open>push_back\<close> appends, \<open>back\<close> is the last element,
  \<open>pop_back\<close> is \<open>butlast\<close>. The loop
  \<open>for (i = n; i > 0; --i) v.push_back(i - 1)\<close> occurs in three components.
\<close>

fun push_down :: "nat \<Rightarrow> nat list" where
  "push_down 0 = []"
| "push_down (Suc i) = i # push_down i"

lemma push_down_rev: "push_down n = rev [0..<n]"
  by (induction n) auto

lemma length_push_down [simp]: "length (push_down n) = n"
  by (simp add: push_down_rev)

lemma set_push_down [simp]: "set (push_down n) = {0..<n}"
  by (simp add: push_down_rev)

lemma distinct_push_down [simp]: "distinct (push_down n)"
  by (simp add: push_down_rev)

lemma last_in_set_butlast: "xs \<noteq> [] \<Longrightarrow> set xs = insert (last xs) (set (butlast xs))"
  by (induction xs rule: rev_induct) auto

lemma distinct_last_butlast: "distinct xs \<Longrightarrow> xs \<noteq> [] \<Longrightarrow> last xs \<notin> set (butlast xs)"
  by (induction xs rule: rev_induct) auto

lemma mset_butlast: "xs \<noteq> [] \<Longrightarrow> mset xs = add_mset (last xs) (mset (butlast xs))"
  by (induction xs rule: rev_induct) auto

section \<open>Decimal numerals: \<open>std::to_string\<close> on unsigned values\<close>

definition digit_char :: "nat \<Rightarrow> char" where
  "digit_char d = char_of (48 + d)"

fun nat_str :: "nat \<Rightarrow> string" where
  "nat_str n = (if n < 10 then [digit_char n] else nat_str (n div 10) @ [digit_char (n mod 10)])"

declare nat_str.simps [simp del]

definition int_str :: "int \<Rightarrow> string" where
  "int_str x = (if x < 0 then ''-'' @ nat_str (nat (- x)) else nat_str (nat x))"

section \<open>Substring search: \<open>std::string::find\<close>\<close>

text \<open>
  The least index at which \<open>s\<close> occurs in \<open>t\<close>; \<open>None\<close> stands for
  \<open>std::string::npos\<close>, the largest \<open>size_t\<close>, so \<open>std::min\<close> with it is \<open>npos_min\<close>.
\<close>

fun str_find :: "string \<Rightarrow> string \<Rightarrow> nat option" where
  "str_find s t =
     (if prefix s t then Some 0
      else (case t of [] \<Rightarrow> None | _ # t' \<Rightarrow> map_option Suc (str_find s t')))"

declare str_find.simps [simp del]

fun npos_min :: "nat option \<Rightarrow> nat option \<Rightarrow> nat option" where
  "npos_min None b = b"
| "npos_min (Some a) None = Some a"
| "npos_min (Some a) (Some b) = Some (min a b)"

definition occurs_at :: "string \<Rightarrow> string \<Rightarrow> nat \<Rightarrow> bool" where
  "occurs_at s t i \<longleftrightarrow> i \<le> length t \<and> prefix s (drop i t)"

lemma str_find_Nil: "str_find s [] = (if s = [] then Some 0 else None)"
  by (simp add: str_find.simps)

lemma str_find_Cons:
  "str_find s (c # t) = (if prefix s (c # t) then Some 0 else map_option Suc (str_find s t))"
  by (simp add: str_find.simps [of s "c # t"])

lemma str_find_SomeD:
  "str_find s t = Some i \<Longrightarrow> occurs_at s t i \<and> (\<forall>j<i. \<not> occurs_at s t j)"
proof (induction t arbitrary: i)
  case Nil
  then show ?case by (auto simp: str_find_Nil occurs_at_def split: if_splits)
next
  case (Cons c t)
  show ?case
  proof (cases "prefix s (c # t)")
    case True
    with Cons.prems show ?thesis by (simp add: str_find_Cons occurs_at_def)
  next
    case False
    with Cons.prems obtain k where k: "str_find s t = Some k" "i = Suc k"
      by (auto simp: str_find_Cons)
    from Cons.IH [OF k(1)] False k(2) show ?thesis
      by (auto simp: occurs_at_def less_Suc_eq_0_disj)
  qed
qed

lemma str_find_NoneD: "str_find s t = None \<Longrightarrow> \<not> occurs_at s t i"
proof (induction t arbitrary: i)
  case Nil
  then show ?case by (auto simp: str_find_Nil occurs_at_def split: if_splits)
next
  case (Cons c t)
  then show ?case
    by (cases i) (auto simp: str_find_Cons occurs_at_def split: if_splits)
qed

lemma occurs_at_length: "occurs_at s t i \<Longrightarrow> i + length s \<le> length t"
  by (auto simp: occurs_at_def dest: prefix_length_le)

lemma occurs_at_append: "occurs_at s t i \<Longrightarrow> occurs_at s (t @ u) i"
  by (auto simp: occurs_at_def)

lemma occurs_at_appendD:
  assumes "occurs_at s (t @ u) i" and "i + length s \<le> length t"
  shows "occurs_at s t i"
proof -
  from assms(1) obtain z where "drop i (t @ u) = s @ z"
    by (auto simp: occurs_at_def prefix_def)
  then have "take (length s) (drop i (t @ u)) = s" by simp
  moreover from assms(2) have "take (length s) (drop i (t @ u)) = take (length s) (drop i t)"
    by (simp add: take_drop)
  ultimately have "take (length s) (drop i t) = s" by simp
  then have "prefix s (drop i t)" by (metis take_is_prefix)
  with assms(2) show ?thesis by (simp add: occurs_at_def)
qed

lemma npos_min_None [simp]: "npos_min a b = None \<longleftrightarrow> a = None \<and> b = None"
  by (cases a; cases b) auto

lemma npos_min_None2 [simp]: "npos_min a None = a"
  by (cases a) auto

section \<open>Numbers as text\<close>

text \<open>The number that a string of digits stands for; printed numbers read back.\<close>

definition nat_val :: "string \<Rightarrow> nat" where
  "nat_val s = foldl (\<lambda>n c. 10 * n + (of_char c - 48)) 0 s"

lemma of_char_digit: "d < 10 \<Longrightarrow> (of_char (digit_char d) :: nat) = 48 + d"
  by (simp add: digit_char_def)

lemma nat_str_digits: "c \<in> set (nat_str n) \<Longrightarrow> \<exists>d<10. c = digit_char d"
proof (induction n rule: nat_str.induct)
  case (1 n)
  have "n mod 10 < 10" by simp
  with 1 show ?case by (cases "n < 10") (auto simp: nat_str.simps [of n] simp del: mod_less_divisor)
qed

lemma nat_str_val: "nat_val (nat_str n) = n"
proof (induction n rule: nat_str.induct)
  case (1 n)
  show ?case
  proof (cases "n < 10")
    case True
    then show ?thesis by (simp add: nat_str.simps [of n] nat_val_def of_char_digit)
  next
    case False
    from 1 [OF False] show ?thesis
      by (simp add: nat_str.simps [of n] False nat_val_def of_char_digit)
  qed
qed

section \<open>Sums over lists\<close>

lemma sum_list_map_update:
  fixes f :: "'a \<Rightarrow> nat"
  assumes "i < length xs"
  shows "sum_list (map f (xs[i := y])) + f (xs ! i) = sum_list (map f xs) + f y"
  using assms
proof (induction xs arbitrary: i)
  case Nil
  then show ?case by simp
next
  case (Cons x xs)
  then show ?case by (cases i) auto
qed

lemma distinct_length_filter_one:
  "distinct (map f xs) \<Longrightarrow> length (filter (\<lambda>x. f x = k) xs) \<le> 1"
proof (induction xs)
  case Nil
  then show ?case by simp
next
  case (Cons x xs)
  show ?case
  proof (cases "f x = k")
    case True
    with Cons.prems have "f y \<noteq> k" if "y \<in> set xs" for y using that by (metis distinct.simps(2) image_eqI list.set_map list.simps(9))
    then have "filter (\<lambda>x. f x = k) xs = []" by simp
    with True show ?thesis by simp
  next
    case False
    with Cons show ?thesis by simp
  qed
qed

lemma subseq_set: "subseq xs ys \<Longrightarrow> set xs \<subseteq> set ys"
  by (induction rule: list_emb.induct) auto

lemma subseq_distinct: "subseq xs ys \<Longrightarrow> distinct ys \<Longrightarrow> distinct xs"
  by (induction rule: list_emb.induct) (auto dest: subseq_set)

end
