(* ===== verification/Mv_Types.thy ===== *)
theory Mv_Types
  imports Mv_Prelude
begin

text \<open>
  The value types shared by every component: \<open>include/microvllm/types.hpp\<close>,
  \<open>src/core/types.cpp\<close> and the plain structs of \<open>include/microvllm/model_engine.hpp\<close>.
  \<open>Token\<close>, \<open>Pos\<close> and \<open>SeqId\<close> (\<open>std::int32_t\<close>) are \<open>int\<close>; \<open>BlockId\<close>
  (\<open>std::uint32_t\<close>) and \<open>RequestId\<close> (\<open>std::uint64_t\<close>) are \<open>nat\<close>. A \<open>std::string\<close> is a list
  of bytes. A \<open>float\<close> is the rational it denotes.
\<close>

type_synonym Token = int
type_synonym Pos = int
type_synonym SeqId = int
type_synonym RequestId = nat
type_synonym BlockId = nat

datatype FinishReason =
    kUnset
  | kEos
  | kMaxTokens
  | kStopString
  | kCancelled
  | kError
  | kContextOverflow

fun to_string :: "FinishReason \<Rightarrow> string" where
  "to_string kUnset = ''unset''"
| "to_string kEos = ''eos''"
| "to_string kMaxTokens = ''max_tokens''"
| "to_string kStopString = ''stop_string''"
| "to_string kCancelled = ''cancelled''"
| "to_string kError = ''error''"
| "to_string kContextOverflow = ''context_overflow''"

record SamplingParams =
  temperature :: rat
  top_p :: rat
  top_k :: int
  repeat_penalty :: rat
  seed :: nat

text \<open>The default member initialisers, as the binary32 values of the literals.\<close>

definition SamplingParams_default :: SamplingParams where
  "SamplingParams_default =
     \<lparr>temperature = 13421773 / 16777216, top_p = 15938355 / 16777216, top_k = 40,
      repeat_penalty = 9227469 / 8388608, seed = 0\<rparr>"

record RequestSpec =
  prompt :: string
  stop :: "string list"
  max_tokens :: nat
  sampling :: SamplingParams

definition RequestSpec_default :: RequestSpec where
  "RequestSpec_default =
     \<lparr>prompt = [], stop = [], max_tokens = 128, sampling = SamplingParams_default\<rparr>"

record Usage =
  prompt_tokens :: nat
  completion_tokens :: nat
  cached_prompt_tokens :: nat

definition Usage_default :: Usage where
  "Usage_default = \<lparr>prompt_tokens = 0, completion_tokens = 0, cached_prompt_tokens = 0\<rparr>"

definition total_tokens :: "Usage \<Rightarrow> nat" where
  "total_tokens u = u32 (prompt_tokens u + completion_tokens u)"

record EngineCaps =
  n_ctx :: nat
  n_batch :: nat
  n_seq_max :: nat
  eos :: Token
  n_ctx_seq :: nat

record BatchItem =
  it_seq :: SeqId
  it_tokens :: "Token list"
  it_pos0 :: Pos
  it_sample :: bool

record GenStep =
  gs_seq :: SeqId
  gs_token :: Token
  gs_is_eog :: bool

text \<open>
  The wire names of the finish reasons are pairwise
  different, so a client can tell every outcome apart.
\<close>

lemma to_string_inj: "to_string a = to_string b \<Longrightarrow> a = b"
  by (cases a; cases b) simp_all

end
