(* ===== verification/Mv_BlockAllocator.thy ===== *)
theory Mv_BlockAllocator
  imports Mv_Types
begin

text \<open>
  \<open>BlockAllocator\<close> of \<open>include/microvllm/block_allocator.hpp\<close> and
  \<open>src/core/block_allocator.cpp\<close>: a fixed pool of KV blocks with a free stack and a
  reference count per block. The well-formedness invariant is \<open>pool_wf\<close>; the abstract
  state of a pool is the multiset of references its clients hold, and the operations
  refine addition and subtraction on that multiset (the locale \<open>ref_pool\<close>).
\<close>

section \<open>State and operations\<close>

record BlockAllocator =
  ba_total :: nat
  ba_block_size :: nat
  ba_free_list :: "BlockId list"
  ba_refcounts :: "nat list"

definition BlockAllocator_new :: "nat \<Rightarrow> nat \<Rightarrow> BlockAllocator" where
  "BlockAllocator_new total_blocks block_size =
     \<lparr>ba_total = total_blocks,
      ba_block_size = (if block_size = 0 then 1 else block_size),
      ba_free_list = push_down total_blocks,
      ba_refcounts = replicate total_blocks 0\<rparr>"

definition free_blocks :: "BlockAllocator \<Rightarrow> nat" where
  "free_blocks a = u32 (length (ba_free_list a))"

definition used_blocks :: "BlockAllocator \<Rightarrow> nat" where
  "used_blocks a = u32_sub (ba_total a) (free_blocks a)"

definition utilization :: "BlockAllocator \<Rightarrow> rat" where
  "utilization a = (if ba_total a = 0 then 0 else of_nat (used_blocks a) / of_nat (ba_total a))"

definition blocks_for :: "BlockAllocator \<Rightarrow> nat \<Rightarrow> nat" where
  "blocks_for a n_tokens = u32 (n_tokens + ba_block_size a - 1) div ba_block_size a"

definition can_allocate :: "BlockAllocator \<Rightarrow> nat \<Rightarrow> bool" where
  "can_allocate a n \<longleftrightarrow> n \<le> free_blocks a"

text \<open>The loop of \<open>allocate\<close>: pop the back of the free stack, set its count to one.\<close>

fun allocate_loop :: "nat \<Rightarrow> BlockAllocator \<Rightarrow> BlockId list \<Rightarrow> BlockAllocator \<times> BlockId list" where
  "allocate_loop 0 a out = (a, out)"
| "allocate_loop (Suc n) a out =
     (let bid = last (ba_free_list a) in
      allocate_loop n
        (a\<lparr>ba_free_list := butlast (ba_free_list a), ba_refcounts := (ba_refcounts a)[bid := 1]\<rparr>)
        (out @ [bid]))"

definition allocate :: "BlockAllocator \<Rightarrow> nat \<Rightarrow> (BlockAllocator \<times> BlockId list) option" where
  "allocate a n = (if \<not> can_allocate a n then None else Some (allocate_loop n a []))"

definition free_one :: "BlockId \<Rightarrow> BlockAllocator \<Rightarrow> BlockAllocator" where
  "free_one bid a =
     (if bid \<ge> ba_total a \<or> ba_refcounts a ! bid = 0 then a
      else let a' = a\<lparr>ba_refcounts := (ba_refcounts a)[bid := ba_refcounts a ! bid - 1]\<rparr> in
        if ba_refcounts a' ! bid = 0 then a'\<lparr>ba_free_list := ba_free_list a' @ [bid]\<rparr> else a')"

definition free :: "BlockAllocator \<Rightarrow> BlockId list \<Rightarrow> BlockAllocator" where
  "free a blocks = fold free_one blocks a"

definition incref :: "BlockAllocator \<Rightarrow> BlockId \<Rightarrow> BlockAllocator" where
  "incref a block =
     (if block < ba_total a \<and> ba_refcounts a ! block > 0
      then a\<lparr>ba_refcounts := (ba_refcounts a)[block := u32 (ba_refcounts a ! block + 1)]\<rparr>
      else a)"

definition refcount :: "BlockAllocator \<Rightarrow> BlockId \<Rightarrow> nat" where
  "refcount a block = (if block < ba_total a then ba_refcounts a ! block else 0)"

section \<open>The pool invariant\<close>

text \<open>
  The free list holds exactly the blocks with no reference, each once. The bounds are
  the widths of the C++ fields.
\<close>

definition pool_wf :: "BlockAllocator \<Rightarrow> bool" where
  "pool_wf a \<longleftrightarrow>
     ba_total a < 4294967296 \<and> 0 < ba_block_size a \<and> ba_block_size a < 4294967296 \<and>
     length (ba_refcounts a) = ba_total a \<and>
     distinct (ba_free_list a) \<and>
     set (ba_free_list a) = {b. b < ba_total a \<and> ba_refcounts a ! b = 0}"

text \<open>
  The pool together with the multiset \<open>H\<close> of references that are out: every count is
  the number of references held.
\<close>

definition refs_of :: "BlockAllocator \<Rightarrow> BlockId multiset \<Rightarrow> bool" where
  "refs_of a H \<longleftrightarrow> pool_wf a \<and> (\<forall>b. refcount a b = count H b)"

lemma pool_wfE:
  assumes "pool_wf a"
  obtains "ba_total a < 4294967296" "0 < ba_block_size a" "ba_block_size a < 4294967296"
    "length (ba_refcounts a) = ba_total a" "distinct (ba_free_list a)"
    "\<And>b. b \<in> set (ba_free_list a) \<longleftrightarrow> b < ba_total a \<and> ba_refcounts a ! b = 0"
  using assms by (auto simp: pool_wf_def)

text \<open>The one way the operations write a pool: a new count and the free list that fits it.\<close>

lemma pool_wf_set:
  assumes wf: "pool_wf a" and "bid < ba_total a" and "distinct fl"
    and fl: "set fl = (if c = 0 then insert bid (set (ba_free_list a)) else set (ba_free_list a) - {bid})"
  shows "pool_wf (a\<lparr>ba_free_list := fl, ba_refcounts := (ba_refcounts a)[bid := c]\<rparr>)"
proof -
  from wf have len: "length (ba_refcounts a) = ba_total a"
    and mem: "set (ba_free_list a) = {b. b < ba_total a \<and> ba_refcounts a ! b = 0}"
    by (simp_all add: pool_wf_def)
  have "set fl = {b. b < ba_total a \<and> (ba_refcounts a)[bid := c] ! b = 0}"
    unfolding fl mem using assms(2) len by (auto simp: nth_list_update)
  with assms len show ?thesis by (simp add: pool_wf_def)
qed

lemma pool_wf_length_free: "pool_wf a \<Longrightarrow> length (ba_free_list a) \<le> ba_total a"
proof -
  assume wf: "pool_wf a"
  then have "set (ba_free_list a) \<subseteq> {0..<ba_total a}" by (auto elim: pool_wfE)
  then have "card (set (ba_free_list a)) \<le> ba_total a"
    using card_mono [of "{0..<ba_total a}"] by simp
  with wf show ?thesis by (auto simp: distinct_card elim: pool_wfE)
qed

lemma free_blocks_eq: "pool_wf a \<Longrightarrow> free_blocks a = length (ba_free_list a)"
  using pool_wf_length_free [of a] by (auto simp: free_blocks_def u32_id elim: pool_wfE)

lemma used_blocks_eq: "pool_wf a \<Longrightarrow> used_blocks a = ba_total a - length (ba_free_list a)"
  using pool_wf_length_free [of a]
  by (auto simp: used_blocks_def free_blocks_eq u32_sub_id elim: pool_wfE)

lemma utilization_range: "pool_wf a \<Longrightarrow> 0 \<le> utilization a \<and> utilization a \<le> 1"
  by (simp add: utilization_def used_blocks_eq divide_le_eq)

lemma utilization_full: "pool_wf a \<Longrightarrow> utilization a = 1 \<longleftrightarrow> 0 < ba_total a \<and> ba_free_list a = []"
  using pool_wf_length_free [of a] by (auto simp: utilization_def used_blocks_eq)

lemma pool_wf_free_card:
  "pool_wf a \<Longrightarrow> free_blocks a = card {b. b < ba_total a \<and> refcount a b = 0}"
proof -
  assume wf: "pool_wf a"
  then have "set (ba_free_list a) = {b. b < ba_total a \<and> refcount a b = 0}"
    by (auto simp: refcount_def elim: pool_wfE)
  with wf show ?thesis by (metis distinct_card free_blocks_eq pool_wfE)
qed

lemma refs_of_wf: "refs_of a H \<Longrightarrow> pool_wf a"
  by (simp add: refs_of_def)

lemma refs_count: "refs_of a H \<Longrightarrow> count H b = refcount a b"
  by (simp add: refs_of_def)

lemma pool_wf_new [mv_inv]:
  "tb < 4294967296 \<Longrightarrow> bs < 4294967296 \<Longrightarrow> pool_wf (BlockAllocator_new tb bs)"
  by (auto simp: pool_wf_def BlockAllocator_new_def)

lemma refs_of_new:
  "tb < 4294967296 \<Longrightarrow> bs < 4294967296 \<Longrightarrow> refs_of (BlockAllocator_new tb bs) {#}"
  using pool_wf_new [of tb bs] by (simp add: refs_of_def refcount_def BlockAllocator_new_def)

subsection \<open>Sizes are constant\<close>

lemma allocate_loop_frame [mv_frame]:
  "ba_total (fst (allocate_loop n a out)) = ba_total a"
  "ba_block_size (fst (allocate_loop n a out)) = ba_block_size a"
  by (induction n a out rule: allocate_loop.induct) (simp_all add: Let_def)

lemma allocate_frame:
  assumes "allocate a n = Some (a', out)"
  shows "ba_total a' = ba_total a" and "ba_block_size a' = ba_block_size a"
  using assms allocate_loop_frame [of n a "[]"]
  by (auto simp: allocate_def split: if_splits)

lemma free_one_frame [mv_frame]:
  "ba_total (free_one bid a) = ba_total a" "ba_block_size (free_one bid a) = ba_block_size a"
  by (simp_all add: free_one_def Let_def)

lemma free_frame [mv_frame]:
  "ba_total (free a bs) = ba_total a" "ba_block_size (free a bs) = ba_block_size a"
  unfolding free_def
  by (induction bs arbitrary: a) (simp_all add: free_one_frame)

lemma incref_frame [mv_frame]:
  "ba_total (incref a b) = ba_total a" "ba_block_size (incref a b) = ba_block_size a"
  by (simp_all add: incref_def)

lemma blocks_for_cong: "ba_block_size a' = ba_block_size a \<Longrightarrow> blocks_for a' n = blocks_for a n"
  by (simp add: blocks_for_def)

section \<open>Each operation refines a step on the multiset of references\<close>

text \<open>One turn of the allocation loop takes a block that nobody references.\<close>

lemma take_back_refs:
  assumes refs: "refs_of a H" and ne: "ba_free_list a \<noteq> []"
  defines "bid \<equiv> last (ba_free_list a)"
  defines "a' \<equiv> a\<lparr>ba_free_list := butlast (ba_free_list a), ba_refcounts := (ba_refcounts a)[bid := 1]\<rparr>"
  shows "refs_of a' (add_mset bid H)" and "refcount a bid = 0" and "bid < ba_total a"
proof -
  from refs have wf: "pool_wf a" by (rule refs_of_wf)
  then have len: "length (ba_refcounts a) = ba_total a" by (simp add: pool_wf_def)
  from ne have "bid \<in> set (ba_free_list a)" by (simp add: bid_def)
  with wf have bid: "bid < ba_total a" "ba_refcounts a ! bid = 0" by (auto elim: pool_wfE)
  from wf ne have "distinct (butlast (ba_free_list a))" "bid \<notin> set (butlast (ba_free_list a))"
    by (auto simp: bid_def distinct_butlast distinct_last_butlast elim: pool_wfE)
  moreover have "set (ba_free_list a) = insert bid (set (butlast (ba_free_list a)))"
    using ne by (simp add: bid_def last_in_set_butlast)
  ultimately have wf': "pool_wf a'"
    using pool_wf_set [OF wf bid(1), of "butlast (ba_free_list a)" 1] by (simp add: a'_def)
  from bid refs show "refcount a bid = 0" "bid < ba_total a" by (simp_all add: refcount_def)
  have "refcount a' b = count (add_mset bid H) b" for b
    using refs_count [OF refs, of b] bid len by (cases "b = bid") (simp_all add: a'_def refcount_def)
  with wf' show "refs_of a' (add_mset bid H)" by (simp add: refs_of_def)
qed

lemma allocate_loop_refs:
  assumes "refs_of a H" and "n \<le> length (ba_free_list a)"
  shows "\<exists>a' bs. allocate_loop n a out = (a', out @ bs) \<and> refs_of a' (H + mset bs) \<and>
    length bs = n \<and> distinct bs \<and> (\<forall>b\<in>set bs. b \<notin># H \<and> b < ba_total a) \<and>
    length (ba_free_list a') = length (ba_free_list a) - n"
  using assms
proof (induction n arbitrary: a H out)
  case 0
  then show ?case by simp
next
  case (Suc n)
  let ?bid = "last (ba_free_list a)"
  let ?a = "a\<lparr>ba_free_list := butlast (ba_free_list a), ba_refcounts := (ba_refcounts a)[?bid := 1]\<rparr>"
  from Suc.prems(2) have ne: "ba_free_list a \<noteq> []" by auto
  note step = take_back_refs [OF Suc.prems(1) ne]
  from Suc.prems(2) have "n \<le> length (ba_free_list ?a)" by simp
  with Suc.IH [OF step(1), of "out @ [?bid]"] obtain a' bs where
    *: "allocate_loop n ?a (out @ [?bid]) = (a', (out @ [?bid]) @ bs)"
      "refs_of a' (add_mset ?bid H + mset bs)" "length bs = n" "distinct bs"
      "\<forall>b\<in>set bs. b \<notin># add_mset ?bid H \<and> b < ba_total a"
      "length (ba_free_list a') = length (ba_free_list ?a) - n"
    by auto
  have "?bid \<notin># H" using step(2) Suc.prems(1) by (simp add: refs_of_def not_in_iff)
  with * step(3) show ?case
    by (intro exI [of _ a'] exI [of _ "?bid # bs"]) (auto simp: Let_def)
qed

lemma allocate_Some_iff: "pool_wf a \<Longrightarrow> allocate a n \<noteq> None \<longleftrightarrow> n \<le> length (ba_free_list a)"
  by (simp add: allocate_def can_allocate_def free_blocks_eq)

lemma allocate_refs:
  assumes "refs_of a H" and "allocate a n = Some (a', bs)"
  shows "refs_of a' (H + mset bs)" and "length bs = n" and "distinct bs"
    and "\<And>b. b \<in> set bs \<Longrightarrow> b \<notin># H" and "\<And>b. b \<in> set bs \<Longrightarrow> b < ba_total a"
    and "length (ba_free_list a') = length (ba_free_list a) - n" and "n \<le> length (ba_free_list a)"
proof -
  from assms have n: "n \<le> length (ba_free_list a)" and eq: "allocate_loop n a [] = (a', bs)"
    by (auto simp: allocate_def can_allocate_def free_blocks_eq [OF refs_of_wf] split: if_splits)
  from allocate_loop_refs [OF assms(1) n, of "[]"] eq
  show "refs_of a' (H + mset bs)" "length bs = n" "distinct bs"
    "\<And>b. b \<in> set bs \<Longrightarrow> b \<notin># H" "\<And>b. b \<in> set bs \<Longrightarrow> b < ba_total a"
    "length (ba_free_list a') = length (ba_free_list a) - n" "n \<le> length (ba_free_list a)"
    using n by auto
qed

lemma free_one_eq:
  assumes "pool_wf a" and "bid < ba_total a" and "ba_refcounts a ! bid = Suc c"
  shows "free_one bid a =
    a\<lparr>ba_free_list := (if c = 0 then ba_free_list a @ [bid] else ba_free_list a),
      ba_refcounts := (ba_refcounts a)[bid := c]\<rparr>"
  using assms by (simp add: free_one_def Let_def pool_wf_def)

lemma free_one_wf [mv_inv]:
  assumes wf: "pool_wf a"
  shows "pool_wf (free_one bid a)"
proof (cases "bid < ba_total a \<and> ba_refcounts a ! bid \<noteq> 0")
  case True
  then obtain c where bid: "bid < ba_total a" and c: "ba_refcounts a ! bid = Suc c"
    by (metis not0_implies_Suc)
  with wf have "bid \<notin> set (ba_free_list a)" "distinct (ba_free_list a)"
    by (auto elim: pool_wfE)
  then show ?thesis
    unfolding free_one_eq [OF wf bid c] by (intro pool_wf_set [OF wf bid]) auto
next
  case False
  with wf show ?thesis by (auto simp: free_one_def)
qed

lemma free_one_refs:
  assumes refs: "refs_of a H"
  shows "refs_of (free_one bid a) (H - {#bid#})"
proof (cases "bid < ba_total a \<and> ba_refcounts a ! bid \<noteq> 0")
  case True
  from refs have wf: "pool_wf a" by (rule refs_of_wf)
  then have len: "length (ba_refcounts a) = ba_total a" by (simp add: pool_wf_def)
  from True obtain c where bid: "bid < ba_total a" and c: "ba_refcounts a ! bid = Suc c"
    by (metis not0_implies_Suc)
  have "refcount (free_one bid a) b = count (H - {#bid#}) b" for b
    using refs_count [OF refs, of b] bid c len
    by (cases "b = bid") (simp_all add: refcount_def free_one_eq [OF wf bid c])
  with free_one_wf [OF wf] show ?thesis by (simp add: refs_of_def)
next
  case False
  with refs_count [OF refs, of bid] have "bid \<notin># H" by (simp add: refcount_def not_in_iff)
  with False refs show ?thesis by (auto simp: free_one_def)
qed

lemma free_refs: "refs_of a H \<Longrightarrow> refs_of (free a bs) (H - mset bs)"
  unfolding free_def
proof (induction bs arbitrary: a H)
  case Nil
  then show ?case by simp
next
  case (Cons b bs)
  from Cons.IH [OF free_one_refs [OF Cons.prems]] show ?case by simp
qed

lemma incref_refs:
  assumes refs: "refs_of a H" and "b \<in># H" and bound: "count H b < 4294967295"
  shows "refs_of (incref a b) (add_mset b H)"
proof -
  note cnt = refs_count [OF refs]
  from refs have wf: "pool_wf a" by (rule refs_of_wf)
  from assms(2) have "refcount a b \<noteq> 0" by (metis cnt not_in_iff)
  then have b: "b < ba_total a" "ba_refcounts a ! b \<noteq> 0"
    by (simp_all add: refcount_def split: if_splits)
  with bound have "u32 (ba_refcounts a ! b + 1) = ba_refcounts a ! b + 1"
    by (simp add: cnt refcount_def u32_id)
  with b have eq: "incref a b = a\<lparr>ba_refcounts := (ba_refcounts a)[b := ba_refcounts a ! b + 1]\<rparr>"
    by (simp add: incref_def)
  from wf b have "b \<notin> set (ba_free_list a)" "distinct (ba_free_list a)"
    by (auto elim: pool_wfE)
  then have "pool_wf (incref a b)"
    unfolding eq using pool_wf_set [OF wf b(1), of "ba_free_list a" "ba_refcounts a ! b + 1"] by simp
  moreover have "refcount (incref a b) c = count (add_mset b H) c" for c
    using cnt [of c] b wf by (cases "c = b") (simp_all add: eq refcount_def pool_wf_def)
  ultimately show ?thesis by (simp add: refs_of_def)
qed

lemma incref_none: "refs_of a H \<Longrightarrow> b \<notin># H \<Longrightarrow> incref a b = a"
  by (metis count_eq_zero_iff incref_def neq0_conv refcount_def refs_of_def)

lemma free_blocks_refs:
  "refs_of a H \<Longrightarrow> free_blocks a = card {b. b < ba_total a \<and> b \<notin># H}"
  using pool_wf_free_card [of a] by (simp add: refs_of_def not_in_iff)

lemma refs_of_bound: "refs_of a H \<Longrightarrow> b \<in># H \<Longrightarrow> b < ba_total a"
  by (metis count_greater_zero_iff less_numeral_extra(3) refcount_def refs_of_def)

section \<open>The contract a client of the pool relies on\<close>

text \<open>
  \<open>refs p H\<close>: the pool is sound and its clients together hold exactly the references
  \<open>H\<close>. Allocation adds fresh references all-or-nothing, release drops one reference
  per listed block, sharing adds one to a block that is already held. \<open>cap\<close> bounds a
  single count, since counts are 32 bits wide.
\<close>

locale ref_pool =
  fixes alloc :: "'p \<Rightarrow> nat \<Rightarrow> ('p \<times> BlockId list) option"
    and release :: "'p \<Rightarrow> BlockId list \<Rightarrow> 'p"
    and share :: "'p \<Rightarrow> BlockId \<Rightarrow> 'p"
    and avail :: "'p \<Rightarrow> nat"
    and cap :: nat
    and refs :: "'p \<Rightarrow> BlockId multiset \<Rightarrow> bool"
  assumes alloc_refs: "refs p H \<Longrightarrow> alloc p n = Some (p', bs) \<Longrightarrow> refs p' (H + mset bs)"
    and alloc_fresh: "refs p H \<Longrightarrow> alloc p n = Some (p', bs) \<Longrightarrow> b \<in> set bs \<Longrightarrow> b \<notin># H"
    and alloc_distinct: "refs p H \<Longrightarrow> alloc p n = Some (p', bs) \<Longrightarrow> distinct bs"
    and alloc_length: "refs p H \<Longrightarrow> alloc p n = Some (p', bs) \<Longrightarrow> length bs = n"
    and alloc_iff: "refs p H \<Longrightarrow> alloc p n \<noteq> None \<longleftrightarrow> n \<le> avail p"
    and alloc_avail: "refs p H \<Longrightarrow> alloc p n = Some (p', bs) \<Longrightarrow> avail p' = avail p - n"
    and release_refs: "refs p H \<Longrightarrow> refs (release p bs) (H - mset bs)"
    and share_refs: "refs p H \<Longrightarrow> b \<in># H \<Longrightarrow> count H b < cap \<Longrightarrow> refs (share p b) (add_mset b H)"
    and release_avail: "refs p H \<Longrightarrow> avail p \<le> avail (release p bs)"
begin

text \<open>What was just allocated can be given back, and then the pool is as it was.\<close>

lemma alloc_release:
  "refs p H \<Longrightarrow> alloc p n = Some (p', bs) \<Longrightarrow> refs (release p' bs) H"
  using release_refs [OF alloc_refs, of p H n p' bs bs] by simp

text \<open>Sharing a whole list of held blocks, each once.\<close>

lemma share_list_refs:
  assumes "refs p H" and "distinct bs" and "set bs \<subseteq> set_mset H" and "\<And>b. b \<in> set bs \<Longrightarrow> count H b < cap"
  shows "refs (fold (\<lambda>b p. share p b) bs p) (H + mset bs)"
  using assms
proof (induction bs arbitrary: p H)
  case Nil
  then show ?case by simp
next
  case (Cons b bs)
  from Cons.prems have "refs (share p b) (add_mset b H)" by (simp add: share_refs)
  moreover have "count (add_mset b H) c < cap" if "c \<in> set bs" for c
    using Cons.prems that by auto
  ultimately have "refs (fold (\<lambda>b p. share p b) bs (share p b)) (add_mset b H + mset bs)"
    using Cons.prems by (intro Cons.IH) auto
  then show ?case by simp
qed

text \<open>A holder can return all it holds without touching what others hold.\<close>

lemma release_holder: "refs p (H + mset bs) \<Longrightarrow> refs (release p bs) H"
  using release_refs [of p "H + mset bs" bs] by simp

end

lemma free_blocks_free_mono: "refs_of a H \<Longrightarrow> free_blocks a \<le> free_blocks (free a bs)"
proof -
  assume refs: "refs_of a H"
  have "{b. b < ba_total a \<and> b \<notin># H} \<subseteq> {b. b < ba_total a \<and> b \<notin># H - mset bs}"
    by (auto dest: in_diffD)
  then show ?thesis
    using refs free_refs [OF refs, of bs] by (simp add: free_blocks_refs free_frame card_mono)
qed

interpretation pool: ref_pool allocate free incref free_blocks 4294967295 refs_of
proof
  fix p H n p' bs b
  assume refs: "refs_of p H"
  show "refs_of (free p bs) (H - mset bs)" using refs by (rule free_refs)
  show "free_blocks p \<le> free_blocks (free p bs)" using refs by (rule free_blocks_free_mono)
  show "allocate p n \<noteq> None \<longleftrightarrow> n \<le> free_blocks p"
    using refs allocate_Some_iff [of p n] by (simp add: free_blocks_eq refs_of_wf)
  show "refs_of (incref p b) (add_mset b H)" if "b \<in># H" "count H b < 4294967295"
    using refs that by (rule incref_refs)
  assume al: "allocate p n = Some (p', bs)"
  note facts = allocate_refs [OF refs al]
  show "refs_of p' (H + mset bs)" "distinct bs" "length bs = n" by (fact facts)+
  show "b \<notin># H" if "b \<in> set bs" using that by (rule facts)
  show "free_blocks p' = free_blocks p - n"
    using facts(6) refs facts(1) by (simp add: free_blocks_eq refs_of_wf)
qed

text \<open>Past the 32-bit range the sum wraps.\<close>

lemma blocks_for_wrap:
  assumes "pool_wf a" and "n < 4294967296" and "4294967296 < n + ba_block_size a"
  shows "blocks_for a n = 0"
proof -
  have bs: "0 < ba_block_size a" "ba_block_size a < 4294967296" using assms(1) by (auto elim: pool_wfE)
  have "u32 (n + ba_block_size a - 1) = n + ba_block_size a - 1 - 4294967296"
    using assms(2,3) bs by (simp add: u32_def le_mod_geq)
  also have "\<dots> < ba_block_size a" using assms(2) bs by linarith
  finally show ?thesis by (simp add: blocks_for_def)
qed

end
