(* ===== verification/Mv_BlockTable.thy ===== *)
theory Mv_BlockTable
  imports Mv_BlockAllocator
begin

text \<open>
  \<open>BlockTable\<close> of \<open>include/microvllm/block_allocator.hpp\<close> and
  \<open>src/core/block_allocator.cpp\<close>: one sequence's page table. The pointer to the shared
  allocator is an explicit argument and result. The lemmas use the pool only through the
  facts of the interpretation \<open>pool\<close>.
\<close>

section \<open>State and operations\<close>

record BlockTable =
  bt_blocks :: "BlockId list"
  bt_n_tokens :: nat
  bt_shared_prefix_blocks :: nat
  bt_shared_prefix_tokens :: nat

definition BlockTable_new :: BlockTable where
  "BlockTable_new =
     \<lparr>bt_blocks = [], bt_n_tokens = 0, bt_shared_prefix_blocks = 0, bt_shared_prefix_tokens = 0\<rparr>"

definition n_blocks :: "BlockTable \<Rightarrow> nat" where
  "n_blocks t = u32 (length (bt_blocks t))"

definition ensure_capacity ::
  "BlockAllocator \<Rightarrow> BlockTable \<Rightarrow> nat \<Rightarrow> bool \<times> BlockAllocator \<times> BlockTable" where
  "ensure_capacity a t n_tokens =
     (let needed = blocks_for a n_tokens in
      if needed > n_blocks t then
        (case allocate a (u32_sub needed (n_blocks t)) of
           None \<Rightarrow> (False, a, t)
         | Some (a', extra) \<Rightarrow>
             (True, a', t\<lparr>bt_blocks := bt_blocks t @ extra, bt_n_tokens := n_tokens\<rparr>))
      else (True, a, t\<lparr>bt_n_tokens := n_tokens\<rparr>))"

definition adopt_one :: "BlockId \<Rightarrow> BlockAllocator \<times> BlockTable \<Rightarrow> BlockAllocator \<times> BlockTable" where
  "adopt_one bid s = (incref (fst s) bid, (snd s)\<lparr>bt_blocks := bt_blocks (snd s) @ [bid]\<rparr>)"

definition adopt_shared_prefix ::
  "BlockAllocator \<Rightarrow> BlockTable \<Rightarrow> BlockId list \<Rightarrow> nat \<Rightarrow> BlockAllocator \<times> BlockTable" where
  "adopt_shared_prefix a t blocks n_tokens =
     (let (a', t') = fold adopt_one blocks (a, t) in
      (a', t'\<lparr>bt_shared_prefix_blocks := u32 (length blocks),
              bt_shared_prefix_tokens := n_tokens,
              bt_n_tokens := max (bt_n_tokens t') n_tokens\<rparr>))"

definition release :: "BlockAllocator \<Rightarrow> BlockTable \<Rightarrow> BlockAllocator \<times> BlockTable" where
  "release a t =
     (free a (bt_blocks t),
      t\<lparr>bt_blocks := [], bt_n_tokens := 0, bt_shared_prefix_blocks := 0,
        bt_shared_prefix_tokens := 0\<rparr>)"

section \<open>Paging arithmetic\<close>

text \<open>Without wrap-around \<open>blocks_for\<close> is the ceiling of the division.\<close>

lemma blocks_for_ceil:
  assumes "pool_wf a" and "n + ba_block_size a \<le> 4294967296"
  shows "blocks_for a n = (n + ba_block_size a - 1) div ba_block_size a"
  using assms by (simp add: blocks_for_def u32_id pool_wf_def)

lemma blocks_for_bounds:
  assumes "pool_wf a" and "n + ba_block_size a \<le> 4294967296"
  shows "n \<le> blocks_for a n * ba_block_size a"
    and "blocks_for a n * ba_block_size a < n + ba_block_size a"
proof -
  let ?s = "ba_block_size a" and ?q = "(n + ba_block_size a - 1) div ba_block_size a"
  from assms(1) have s: "0 < ?s" by (simp add: pool_wf_def)
  have "?q * ?s + (n + ?s - 1) mod ?s = n + ?s - 1" by simp
  moreover have "(n + ?s - 1) mod ?s < ?s" using s by simp
  ultimately have "n \<le> ?q * ?s" "?q * ?s < n + ?s" using s by linarith+
  then show "n \<le> blocks_for a n * ?s" "blocks_for a n * ?s < n + ?s"
    by (simp_all add: blocks_for_ceil [OF assms])
qed

lemma blocks_for_less: "blocks_for a n < 4294967296"
  by (simp add: blocks_for_def) (meson div_le_dividend le_less_trans u32_less)

section \<open>The page table against the pool\<close>

text \<open>
  A table is sound in a pool whose outstanding references are \<open>H\<close> when each of its
  blocks is one of those references and it lists no block twice.
\<close>

definition table_ok :: "BlockId multiset \<Rightarrow> BlockTable \<Rightarrow> bool" where
  "table_ok H t \<longleftrightarrow> mset (bt_blocks t) \<subseteq># H \<and> distinct (bt_blocks t)"

lemma table_ok_new [simp]: "table_ok H BlockTable_new"
  by (simp add: table_ok_def BlockTable_new_def)

lemma table_ok_subset: "table_ok H t \<Longrightarrow> set (bt_blocks t) \<subseteq> set_mset H"
  using set_mset_mono [of "mset (bt_blocks t)" H] by (simp add: table_ok_def)

lemma table_ok_length:
  assumes "refs_of a H" and "table_ok H t"
  shows "length (bt_blocks t) \<le> ba_total a"
proof -
  have "set (bt_blocks t) \<subseteq> {0..<ba_total a}"
    using table_ok_subset [OF assms(2)] refs_of_bound [OF assms(1)] by auto
  then have "card (set (bt_blocks t)) \<le> ba_total a"
    using card_mono [of "{0..<ba_total a}"] by simp
  with assms(2) show ?thesis by (simp add: table_ok_def distinct_card)
qed

lemma n_blocks_eq:
  assumes "refs_of a H" and "table_ok H t"
  shows "n_blocks t = length (bt_blocks t)"
  using table_ok_length [OF assms] refs_of_wf [OF assms(1)]
  by (simp add: n_blocks_def u32_id pool_wf_def)

lemma ensure_capacity_cases:
  assumes refs: "refs_of a H" and ok: "table_ok H t"
    and run: "ensure_capacity a t n = (r, a', t')"
  obtains (grow) bs where "r" "blocks_for a n > length (bt_blocks t)"
      "allocate a (blocks_for a n - length (bt_blocks t)) = Some (a', bs)"
      "t' = t\<lparr>bt_blocks := bt_blocks t @ bs, bt_n_tokens := n\<rparr>"
  | (stay) "r" "blocks_for a n \<le> length (bt_blocks t)" "a' = a" "t' = t\<lparr>bt_n_tokens := n\<rparr>"
  | (short) "\<not> r" "blocks_for a n > length (bt_blocks t)" "a' = a" "t' = t"
      "blocks_for a n - length (bt_blocks t) > free_blocks a"
proof -
  note nb = n_blocks_eq [OF refs ok]
  show thesis
  proof (cases "blocks_for a n > length (bt_blocks t)")
    case True
    then have sub: "u32_sub (blocks_for a n) (length (bt_blocks t)) = blocks_for a n - length (bt_blocks t)"
      by (simp add: u32_sub_id blocks_for_less)
    show thesis
    proof (cases "allocate a (blocks_for a n - length (bt_blocks t))")
      case None
      with True sub have "ensure_capacity a t n = (False, a, t)"
        by (simp add: ensure_capacity_def nb)
      with run have "\<not> r" "a' = a" "t' = t" by simp_all
      moreover from None pool.alloc_iff [OF refs, of "blocks_for a n - length (bt_blocks t)"]
      have "blocks_for a n - length (bt_blocks t) > free_blocks a" by simp
      ultimately show thesis using True by (intro short)
    next
      case (Some p)
      then obtain a1 bs where p: "p = (a1, bs)" by (cases p)
      with Some True sub have "ensure_capacity a t n =
          (True, a1, t\<lparr>bt_blocks := bt_blocks t @ bs, bt_n_tokens := n\<rparr>)"
        by (simp add: ensure_capacity_def nb)
      with run Some p True show thesis by (intro grow [of bs]) simp_all
    qed
  next
    case False
    then have "ensure_capacity a t n = (True, a, t\<lparr>bt_n_tokens := n\<rparr>)"
      by (simp add: ensure_capacity_def nb)
    with run False show thesis by (intro stay) simp_all
  qed
qed

text \<open>
  Growing a table adds the references of the new blocks and nothing else; a refusal
  changes nothing.
\<close>

lemma ensure_capacity_refs:
  assumes refs: "refs_of a H" and ok: "table_ok H t"
    and run: "ensure_capacity a t n = (r, a', t')"
  obtains bs where "bt_blocks t' = bt_blocks t @ bs" "refs_of a' (H + mset bs)"
    "table_ok (H + mset bs) t'" "distinct bs" "set bs \<inter> set_mset H = {}"
    "r \<Longrightarrow> length (bt_blocks t') = max (length (bt_blocks t)) (blocks_for a n)"
    "r \<Longrightarrow> bt_n_tokens t' = n"
    "\<not> r \<Longrightarrow> bs = [] \<and> a' = a \<and> t' = t"
  using refs ok run
proof (cases rule: ensure_capacity_cases)
  case (grow bs)
  note al = allocate_refs [OF refs grow(3)]
  have "mset (bt_blocks t) + mset bs \<subseteq># H + mset bs"
    using ok by (simp add: table_ok_def)
  moreover have "set (bt_blocks t) \<inter> set bs = {}"
    using table_ok_subset [OF ok] al(4) by auto
  ultimately have "table_ok (H + mset bs) t'"
    using ok al(3) grow(4) by (simp add: table_ok_def)
  with grow al that [of bs] show thesis by auto
next
  case stay
  with refs ok that [of "[]"] show thesis by (simp add: table_ok_def)
next
  case short
  with refs ok that [of "[]"] show thesis by simp
qed

lemma ensure_capacity_frame:
  assumes "ensure_capacity a t n = (r, a', t')"
  shows "ba_total a' = ba_total a" "ba_block_size a' = ba_block_size a"
  using assms allocate_frame [of a]
  by (auto simp: ensure_capacity_def Let_def split: if_splits option.splits)

lemma ensure_capacity_iff:
  assumes "refs_of a H" and "table_ok H t"
  shows "fst (ensure_capacity a t n) \<longleftrightarrow>
    blocks_for a n \<le> length (bt_blocks t) + free_blocks a"
proof -
  obtain r a' t' where run: "ensure_capacity a t n = (r, a', t')" by (cases "ensure_capacity a t n")
  from assms run show ?thesis
  proof (cases rule: ensure_capacity_cases)
    case (grow bs)
    with pool.alloc_iff [OF assms(1), of "blocks_for a n - length (bt_blocks t)"] run
    show ?thesis by simp
  qed (use run in simp_all)
qed

lemma fold_adopt_one:
  "fold adopt_one bs (a, t) =
     (fold (\<lambda>b p. incref p b) bs a, t\<lparr>bt_blocks := bt_blocks t @ bs\<rparr>)"
  by (induction bs arbitrary: a t) (simp_all add: adopt_one_def)

lemma adopt_shared_prefix_eq:
  "adopt_shared_prefix a t bs n =
     (fold (\<lambda>b p. incref p b) bs a,
      t\<lparr>bt_blocks := bt_blocks t @ bs, bt_n_tokens := max (bt_n_tokens t) n,
        bt_shared_prefix_blocks := u32 (length bs), bt_shared_prefix_tokens := n\<rparr>)"
  by (simp add: adopt_shared_prefix_def fold_adopt_one)

lemma fold_incref_frame [mv_frame]:
  "ba_total (fold (\<lambda>b p. incref p b) bs a) = ba_total a"
  "ba_block_size (fold (\<lambda>b p. incref p b) bs a) = ba_block_size a"
  by (induction bs arbitrary: a) (simp_all add: incref_frame)

lemma adopt_shared_prefix_refs:
  assumes "refs_of a H" and "distinct bs" and "set bs \<subseteq> set_mset H"
    and "\<And>b. b \<in> set bs \<Longrightarrow> count H b < 4294967295"
    and "adopt_shared_prefix a t bs n = (a', t')"
  shows "refs_of a' (H + mset bs)" and "bt_blocks t' = bt_blocks t @ bs"
  using pool.share_list_refs [OF assms(1-4)] assms(5)
  by (auto simp: adopt_shared_prefix_eq)

text \<open>Release drops this table's references and only those; a second release is void.\<close>

lemma release_refs:
  "refs_of a (H + mset (bt_blocks t)) \<Longrightarrow> refs_of (fst (release a t)) H"
  by (simp add: release_def pool.release_holder)

lemma release_idem: "release (fst (release a t)) (snd (release a t)) = release a t"
  by (simp add: release_def free_def)

lemma release_frame [mv_frame]:
  "ba_total (fst (release a t)) = ba_total a" "ba_block_size (fst (release a t)) = ba_block_size a"
  "bt_blocks (snd (release a t)) = []"
  by (simp_all add: release_def free_frame)

end
