(* ===== verification/Mv_PrefixCache.thy ===== *)
theory Mv_PrefixCache
  imports Mv_Types "HOL-Library.AList"
begin

text \<open>
  \<open>PrefixCache\<close> of \<open>include/microvllm/block_allocator.hpp\<close> and
  \<open>src/core/block_allocator.cpp\<close>. The unordered map is an association list with
  distinct keys; the order in which it lists them stands for the (unspecified) iteration
  order of the C++ container. \<open>retained_entries\<close> are the donors.
\<close>

unbundle bit_operations_syntax

section \<open>State and operations\<close>

record Entry =
  en_seq :: SeqId
  en_n_tokens :: nat
  en_blocks :: "BlockId list"
  en_retained :: bool

record CacheRecord =
  cr_entry :: Entry
  cr_last_used :: nat

type_synonym cache_map = "(64 word \<times> CacheRecord) list"

record PrefixCache =
  pc_entries :: cache_map
  pc_free_donor_slots :: "SeqId list"
  pc_first_donor_slot :: SeqId
  pc_donor_capacity :: nat
  pc_tick :: nat

definition PrefixCache_new :: PrefixCache where
  "PrefixCache_new =
     \<lparr>pc_entries = [], pc_free_donor_slots = [], pc_first_donor_slot = 0,
      pc_donor_capacity = 0, pc_tick = 0\<rparr>"

definition donors_held :: "PrefixCache \<Rightarrow> nat" where
  "donors_held c = u32_sub (pc_donor_capacity c) (u32 (length (pc_free_donor_slots c)))"

definition cache_size :: "PrefixCache \<Rightarrow> nat" where
  "cache_size c = length (pc_entries c)"

definition fnv_step :: "Token \<Rightarrow> 64 word \<Rightarrow> 64 word" where
  "fnv_step t h = (h XOR word_of_int (t mod 4294967296)) * 1099511628211"

definition hash_prefix :: "Token list \<Rightarrow> nat \<Rightarrow> 64 word" where
  "hash_prefix tokens n_tokens =
     fold fnv_step (take (min n_tokens (length tokens)) tokens) 1469598103934665603"

definition configure_donors :: "PrefixCache \<Rightarrow> SeqId \<Rightarrow> nat \<Rightarrow> PrefixCache" where
  "configure_donors c first cnt =
     c\<lparr>pc_first_donor_slot := first, pc_donor_capacity := cnt,
       pc_free_donor_slots := map (\<lambda>i. first + i32 (int i)) (push_down cnt)\<rparr>"

text \<open>\<open>++tick_\<close>, and writing the new tick into the record found under \<open>h\<close>.\<close>

definition touch :: "PrefixCache \<Rightarrow> 64 word \<Rightarrow> CacheRecord \<Rightarrow> PrefixCache" where
  "touch c h r =
     (let t = u64 (pc_tick c + 1) in
      c\<lparr>pc_entries := AList.update h (r\<lparr>cr_last_used := t\<rparr>) (pc_entries c), pc_tick := t\<rparr>)"

fun find_longest_loop ::
  "nat \<Rightarrow> PrefixCache \<Rightarrow> Token list \<Rightarrow> nat \<Rightarrow> Entry option \<times> PrefixCache" where
  "find_longest_loop 0 c tokens block_size = (None, c)"
| "find_longest_loop (Suc nb) c tokens block_size =
     (let n_tokens = u32 (Suc nb * block_size); h = hash_prefix tokens n_tokens in
      case map_of (pc_entries c) h of
        Some r \<Rightarrow>
          if en_n_tokens (cr_entry r) = n_tokens then (Some (cr_entry r), touch c h r)
          else find_longest_loop nb c tokens block_size
      | None \<Rightarrow> find_longest_loop nb c tokens block_size)"

definition find_longest :: "PrefixCache \<Rightarrow> Token list \<Rightarrow> nat \<Rightarrow> Entry option \<times> PrefixCache" where
  "find_longest c tokens block_size =
     (if block_size = 0 \<or> tokens = [] then (None, c)
      else find_longest_loop (u32 (length tokens div block_size)) c tokens block_size)"

definition insert_entry :: "PrefixCache \<Rightarrow> 64 word \<Rightarrow> Entry \<Rightarrow> PrefixCache" where
  "insert_entry c h e =
     (let t = u64 (pc_tick c + 1) in
      c\<lparr>pc_entries := AList.update h \<lparr>cr_entry = e, cr_last_used = t\<rparr> (pc_entries c), pc_tick := t\<rparr>)"

definition take_donor_slot :: "PrefixCache \<Rightarrow> SeqId option \<times> PrefixCache" where
  "take_donor_slot c =
     (if pc_free_donor_slots c = [] then (None, c)
      else (Some (last (pc_free_donor_slots c)),
            c\<lparr>pc_free_donor_slots := butlast (pc_free_donor_slots c)\<rparr>))"

definition retain :: "PrefixCache \<Rightarrow> 64 word \<Rightarrow> SeqId \<Rightarrow> nat \<Rightarrow> BlockId list \<Rightarrow> PrefixCache" where
  "retain c h slot n_tokens blocks =
     insert_entry c h
       \<lparr>en_seq = slot, en_n_tokens = n_tokens, en_blocks = blocks, en_retained = True\<rparr>"

fun lru_scan :: "cache_map \<Rightarrow> (64 word \<times> CacheRecord) option \<Rightarrow> (64 word \<times> CacheRecord) option" where
  "lru_scan [] victim = victim"
| "lru_scan ((h, r) # es) victim =
     (if \<not> en_retained (cr_entry r) then lru_scan es victim
      else (case victim of
              None \<Rightarrow> lru_scan es (Some (h, r))
            | Some (vh, vr) \<Rightarrow>
                if cr_last_used r < cr_last_used vr then lru_scan es (Some (h, r))
                else lru_scan es victim))"

definition evict_lru_retained :: "PrefixCache \<Rightarrow> Entry option \<times> PrefixCache" where
  "evict_lru_retained c =
     (case lru_scan (pc_entries c) None of
        None \<Rightarrow> (None, c)
      | Some (h, r) \<Rightarrow>
          (Some (cr_entry r),
           c\<lparr>pc_entries := AList.delete h (pc_entries c),
             pc_free_donor_slots := pc_free_donor_slots c @ [en_seq (cr_entry r)]\<rparr>))"

fun evict_sequence_loop :: "SeqId \<Rightarrow> cache_map \<Rightarrow> SeqId list \<Rightarrow> cache_map \<times> SeqId list" where
  "evict_sequence_loop s [] slots = ([], slots)"
| "evict_sequence_loop s ((h, r) # es) slots =
     (if en_seq (cr_entry r) \<noteq> s
      then let (es', slots') = evict_sequence_loop s es slots in ((h, r) # es', slots')
      else evict_sequence_loop s es
             (if en_retained (cr_entry r) then slots @ [s] else slots))"

definition evict_sequence :: "PrefixCache \<Rightarrow> SeqId \<Rightarrow> PrefixCache" where
  "evict_sequence c s =
     (let (es, slots) = evict_sequence_loop s (pc_entries c) (pc_free_donor_slots c) in
      c\<lparr>pc_entries := es, pc_free_donor_slots := slots\<rparr>)"

definition cache_clear :: "PrefixCache \<Rightarrow> PrefixCache" where
  "cache_clear c =
     configure_donors (c\<lparr>pc_entries := []\<rparr>) (pc_first_donor_slot c) (pc_donor_capacity c)"

section \<open>Association lists as multisets of bindings\<close>

lemma mset_alist_delete:
  assumes "distinct (map fst al)"
  shows "mset al = mset (AList.delete k al) +
    (case map_of al k of None \<Rightarrow> {#} | Some v \<Rightarrow> {#(k, v)#})"
  using assms
proof (induction al)
  case Nil
  then show ?case by simp
next
  case (Cons p al)
  obtain k' v where p: "p = (k', v)" by (cases p)
  show ?case
  proof (cases "k' = k")
    case True
    with Cons.prems p have "k \<notin> fst ` set al" by simp
    then have "AList.delete k al = al" by (rule delete_id)
    with True p show ?thesis by simp
  next
    case False
    with Cons p show ?thesis by simp
  qed
qed

lemma mset_alist_update:
  assumes "distinct (map fst al)"
  shows "mset (AList.update k v al) = add_mset (k, v) (mset (AList.delete k al))"
  using assms
proof (induction al)
  case Nil
  then show ?case by simp
next
  case (Cons p al)
  obtain k' v' where p: "p = (k', v')" by (cases p)
  show ?case
  proof (cases "k' = k")
    case True
    with Cons.prems p have "k \<notin> fst ` set al" by simp
    then have "AList.delete k al = al" by (rule delete_id)
    with True p show ?thesis by simp
  next
    case False
    with Cons p show ?thesis by simp
  qed
qed

lemma set_alist_update: "x \<in> set (AList.update k v al) \<Longrightarrow> x = (k, v) \<or> x \<in> set al"
  by (induction al) (auto split: if_splits)

lemma evict_sequence_loop_eq:
  "evict_sequence_loop s es slots =
     (filter (\<lambda>(h, r). en_seq (cr_entry r) \<noteq> s) es,
      slots @ replicate (length (filter (\<lambda>(h, r). en_seq (cr_entry r) = s \<and> en_retained (cr_entry r)) es)) s)"
  by (induction s es slots rule: evict_sequence_loop.induct) (auto simp: replicate_append_same)

section \<open>Views of the cache\<close>

text \<open>
  \<open>entry_at\<close> is the map the cache implements, \<open>donors\<close> the multiset of retained
  entries, \<open>keys_ok\<close> that no key is listed twice, \<open>ticks_ok\<close> that the time stamps are
  pairwise different and none lies in the future.
\<close>

definition entry_at :: "PrefixCache \<Rightarrow> 64 word \<Rightarrow> Entry option" where
  "entry_at c h = map_option cr_entry (map_of (pc_entries c) h)"

definition donor_part :: "(64 word \<times> CacheRecord) multiset \<Rightarrow> Entry multiset" where
  "donor_part M = filter_mset en_retained (image_mset (\<lambda>x. cr_entry (snd x)) M)"

definition donors :: "PrefixCache \<Rightarrow> Entry multiset" where
  "donors c = donor_part (mset (pc_entries c))"

definition keys_ok :: "PrefixCache \<Rightarrow> bool" where
  "keys_ok c \<longleftrightarrow> distinct (map fst (pc_entries c))"

definition ticks_ok :: "PrefixCache \<Rightarrow> bool" where
  "ticks_ok c \<longleftrightarrow> distinct (map (\<lambda>x. cr_last_used (snd x)) (pc_entries c)) \<and>
     (\<forall>x\<in>set (pc_entries c). cr_last_used (snd x) \<le> pc_tick c)"

definition opt_mset :: "'a option \<Rightarrow> 'a multiset" where
  "opt_mset x = (case x of None \<Rightarrow> {#} | Some a \<Rightarrow> {#a#})"

lemma opt_mset_simps [simp]: "opt_mset None = {#}" "opt_mset (Some a) = {#a#}"
  by (simp_all add: opt_mset_def)

lemma donor_part_simps [simp]:
  "donor_part {#} = {#}"
  "donor_part (add_mset x M) =
     (if en_retained (cr_entry (snd x)) then add_mset (cr_entry (snd x)) (donor_part M) else donor_part M)"
  "donor_part (M + N) = donor_part M + donor_part N"
  by (simp_all add: donor_part_def)

lemma entry_at_iff:
  "keys_ok c \<Longrightarrow> entry_at c h = Some e \<longleftrightarrow> (\<exists>r. (h, r) \<in> set (pc_entries c) \<and> cr_entry r = e)"
  by (auto simp: entry_at_def keys_ok_def map_of_eq_Some_iff)

lemma donors_iff: "keys_ok c \<Longrightarrow> e \<in># donors c \<longleftrightarrow> en_retained e \<and> (\<exists>h. entry_at c h = Some e)"
  by (force simp: donors_def donor_part_def entry_at_iff image_iff)

lemma keys_ok_update:
  "distinct (map fst al) \<Longrightarrow> distinct (map fst (AList.update k v al))"
  by (rule distinct_update)

subsection \<open>insert and retain\<close>

lemma insert_entry_frame [mv_frame]:
  "pc_free_donor_slots (insert_entry c h e) = pc_free_donor_slots c"
  "pc_first_donor_slot (insert_entry c h e) = pc_first_donor_slot c"
  "pc_donor_capacity (insert_entry c h e) = pc_donor_capacity c"
  by (simp_all add: insert_entry_def Let_def)

lemma insert_entry_keys [mv_inv]: "keys_ok c \<Longrightarrow> keys_ok (insert_entry c h e)"
  by (simp add: keys_ok_def insert_entry_def Let_def distinct_update)

lemma entry_at_insert: "entry_at (insert_entry c h e) h' = (if h' = h then Some e else entry_at c h')"
  by (simp add: entry_at_def insert_entry_def Let_def update_conv')

text \<open>
  The donor multiset after an insertion: a retained entry under the same key is gone
  from the cache, whatever the new entry is.
\<close>

lemma donors_insert:
  assumes "keys_ok c"
  shows "donors (insert_entry c h e) + filter_mset en_retained (opt_mset (entry_at c h)) =
    donors c + filter_mset en_retained {#e#}"
proof -
  from assms have d: "distinct (map fst (pc_entries c))" by (simp add: keys_ok_def)
  have "donors c = donor_part (mset (AList.delete h (pc_entries c))) +
      donor_part (case map_of (pc_entries c) h of None \<Rightarrow> {#} | Some v \<Rightarrow> {#(h, v)#})"
    by (simp add: donors_def mset_alist_delete [OF d, of h])
  then show ?thesis
    by (cases "map_of (pc_entries c) h")
       (simp_all add: donors_def insert_entry_def Let_def mset_alist_update [OF d] entry_at_def)
qed

subsection \<open>Donor slots\<close>

lemma take_donor_slot_cases:
  obtains (none) "pc_free_donor_slots c = []" "take_donor_slot c = (None, c)"
  | (some) s where "take_donor_slot c = (Some s, c\<lparr>pc_free_donor_slots := butlast (pc_free_donor_slots c)\<rparr>)"
      "mset (pc_free_donor_slots c) = add_mset s (mset (butlast (pc_free_donor_slots c)))"
  by (cases "pc_free_donor_slots c = []") (auto simp: take_donor_slot_def mset_butlast)

lemma take_donor_slot_frame:
  assumes "take_donor_slot c = (r, c')"
  shows "pc_entries c' = pc_entries c" "pc_first_donor_slot c' = pc_first_donor_slot c"
    "pc_donor_capacity c' = pc_donor_capacity c" "pc_tick c' = pc_tick c"
    "donors c' = donors c" "entry_at c' = entry_at c" "keys_ok c' = keys_ok c"
  using assms by (auto simp: take_donor_slot_def donors_def entry_at_def fun_eq_iff keys_ok_def split: if_splits)

subsection \<open>Eviction\<close>

lemma evict_sequence_frame [mv_frame]:
  "pc_first_donor_slot (evict_sequence c s) = pc_first_donor_slot c"
  "pc_donor_capacity (evict_sequence c s) = pc_donor_capacity c"
  "pc_tick (evict_sequence c s) = pc_tick c"
  by (simp_all add: evict_sequence_def evict_sequence_loop_eq)

lemma evict_sequence_keys [mv_inv]: "keys_ok c \<Longrightarrow> keys_ok (evict_sequence c s)"
  by (simp add: keys_ok_def evict_sequence_def evict_sequence_loop_eq distinct_map_filter)

lemma map_of_filter_val:
  "distinct (map fst al) \<Longrightarrow> map_of (filter (\<lambda>(k, v). P v) al) k =
     (case map_of al k of Some v \<Rightarrow> if P v then Some v else None | None \<Rightarrow> None)"
proof (induction al)
  case Nil
  then show ?case by simp
next
  case (Cons p al)
  obtain k' v where p: "p = (k', v)" by (cases p)
  from Cons.prems p have "map_of al k' = None" by (simp add: map_of_eq_None_iff)
  with Cons p show ?case by (auto split: option.splits)
qed

lemma entry_at_evict:
  "keys_ok c \<Longrightarrow> entry_at (evict_sequence c s) h =
     (case entry_at c h of Some e \<Rightarrow> if en_seq e = s then None else Some e | None \<Rightarrow> None)"
  by (auto simp: entry_at_def evict_sequence_def evict_sequence_loop_eq keys_ok_def
      map_of_filter_val [where P = "\<lambda>r. en_seq (cr_entry r) \<noteq> s"] split: option.splits)

lemma donors_evict: "donors (evict_sequence c s) = filter_mset (\<lambda>e. en_seq e \<noteq> s) (donors c)"
proof -
  have "donor_part (mset (filter (\<lambda>(h, r). en_seq (cr_entry r) \<noteq> s) es)) =
      filter_mset (\<lambda>e. en_seq e \<noteq> s) (donor_part (mset es))" for es
    by (induction es) auto
  then show ?thesis by (simp add: donors_def evict_sequence_def evict_sequence_loop_eq)
qed

lemma evict_sequence_slots:
  "pc_free_donor_slots (evict_sequence c s) =
     pc_free_donor_slots c @ replicate (size (filter_mset (\<lambda>e. en_seq e = s) (donors c))) s"
proof -
  have "length (filter (\<lambda>(h, r). en_seq (cr_entry r) = s \<and> en_retained (cr_entry r)) es) =
      size (filter_mset (\<lambda>e. en_seq e = s) (donor_part (mset es)))" for es
    by (induction es) (simp_all add: split_beta)
  then show ?thesis by (simp add: donors_def evict_sequence_def evict_sequence_loop_eq)
qed

lemma lru_scan_min:
  assumes "lru_scan es v = Some (h, r)"
  shows "((h, r) \<in> set es \<and> en_retained (cr_entry r) \<or> v = Some (h, r)) \<and>
    (\<forall>x\<in>set es. en_retained (cr_entry (snd x)) \<longrightarrow> cr_last_used r \<le> cr_last_used (snd x)) \<and>
    (\<forall>vh vr. v = Some (vh, vr) \<longrightarrow> cr_last_used r \<le> cr_last_used vr)"
  using assms
proof (induction es arbitrary: v)
  case Nil
  then show ?case by simp
next
  case (Cons x es)
  define v' where "v' = (if en_retained (cr_entry (snd x)) \<and>
      (case v of None \<Rightarrow> True | Some y \<Rightarrow> cr_last_used (snd x) < cr_last_used (snd y)) then Some x else v)"
  have "lru_scan (x # es) v = lru_scan es v'"
    by (cases x; cases v) (auto simp: v'_def)
  with Cons.prems have "lru_scan es v' = Some (h, r)" by simp
  note IH = Cons.IH [OF this]
  show ?case
  proof (cases "v' = v")
    case True
    then have "en_retained (cr_entry (snd x)) \<Longrightarrow> \<exists>y. v = Some y \<and> cr_last_used (snd y) \<le> cr_last_used (snd x)"
      by (auto simp: v'_def split: if_splits option.splits)
    with IH True show ?thesis by force
  next
    case False
    then have x: "v' = Some x" "en_retained (cr_entry (snd x))"
      "\<And>y. v = Some y \<Longrightarrow> cr_last_used (snd x) < cr_last_used (snd y)"
      by (auto simp: v'_def split: if_splits)
    obtain h' r' where "x = (h', r')" by (cases x)
    with IH x show ?thesis by force
  qed
qed

lemma lru_scan_None: "lru_scan es v = None \<longleftrightarrow> v = None \<and> donor_part (mset es) = {#}"
proof (induction es v rule: lru_scan.induct)
  case (1 v)
  then show ?case by simp
next
  case (2 h r es v)
  then show ?case by (cases v) (auto split: if_splits)
qed

lemma evict_lru_None: "evict_lru_retained c = (None, c') \<longleftrightarrow> c' = c \<and> donors c = {#}"
  using lru_scan_None [of "pc_entries c" None]
  by (cases "lru_scan (pc_entries c) None") (auto simp: evict_lru_retained_def donors_def)

lemma evict_lru_Some:
  assumes keys: "keys_ok c" and ev: "evict_lru_retained c = (Some e, c')"
  shows "donors c = add_mset e (donors c')" and "en_retained e" and "keys_ok c'"
    and "pc_free_donor_slots c' = pc_free_donor_slots c @ [en_seq e]"
    and "pc_first_donor_slot c' = pc_first_donor_slot c" "pc_donor_capacity c' = pc_donor_capacity c"
    and "\<And>h e'. entry_at c' h = Some e' \<Longrightarrow> entry_at c h = Some e'"
    and "\<And>h e'. entry_at c h = Some e' \<Longrightarrow> \<not> en_retained e' \<Longrightarrow> entry_at c' h = Some e'"
proof -
  from ev obtain h r where scan: "lru_scan (pc_entries c) None = Some (h, r)" and e: "e = cr_entry r"
    and c': "c' = c\<lparr>pc_entries := AList.delete h (pc_entries c),
             pc_free_donor_slots := pc_free_donor_slots c @ [en_seq (cr_entry r)]\<rparr>"
    by (auto simp: evict_lru_retained_def split: option.splits)
  from keys have d: "distinct (map fst (pc_entries c))" by (simp add: keys_ok_def)
  from lru_scan_min [OF scan] have mem: "(h, r) \<in> set (pc_entries c)" "en_retained (cr_entry r)" by auto
  with d have at: "map_of (pc_entries c) h = Some r" by simp
  show "donors c = add_mset e (donors c')"
    using mem(2) by (simp add: donors_def mset_alist_delete [OF d, of h] at c' e)
  show "en_retained e" using mem e by simp
  show "keys_ok c'" using d by (simp add: keys_ok_def c' distinct_delete)
  show "pc_free_donor_slots c' = pc_free_donor_slots c @ [en_seq e]"
    "pc_first_donor_slot c' = pc_first_donor_slot c" "pc_donor_capacity c' = pc_donor_capacity c"
    by (simp_all add: c' e)
  show "entry_at c h' = Some e'" if "entry_at c' h' = Some e'" for h' e'
    using that by (auto simp: entry_at_def c' delete_conv' split: if_splits)
  show "entry_at c' h' = Some e'" if "entry_at c h' = Some e'" "\<not> en_retained e'" for h' e'
    using that at mem(2) by (auto simp: entry_at_def c' delete_conv')
qed

subsection \<open>Lookup\<close>

text \<open>A touch changes time stamps only.\<close>

lemma map_update_same:
  assumes "map_of al k = Some v" and "f v' = f v" and "distinct (map fst al)"
  shows "map (\<lambda>(k, v). (k, f v)) (AList.update k v' al) = map (\<lambda>(k, v). (k, f v)) al"
  using assms
proof (induction al)
  case Nil
  then show ?case by simp
next
  case (Cons p al)
  then show ?case by (cases p) (auto split: if_splits)
qed

definition bindings :: "PrefixCache \<Rightarrow> (64 word \<times> Entry) list" where
  "bindings c = map (\<lambda>(h, r). (h, cr_entry r)) (pc_entries c)"

lemma entry_at_bindings: "entry_at c = map_of (bindings c)"
  by (simp add: entry_at_def bindings_def map_of_map fun_eq_iff)

lemma keys_ok_bindings: "keys_ok c \<longleftrightarrow> distinct (map fst (bindings c))"
  by (simp add: keys_ok_def bindings_def comp_def split_beta)

lemma donors_bindings: "donors c = filter_mset en_retained (image_mset snd (mset (bindings c)))"
  by (simp add: donors_def donor_part_def bindings_def image_mset.compositionality comp_def split_beta)

lemma bindings_touch:
  assumes "keys_ok c" and "map_of (pc_entries c) h = Some r"
  shows "bindings (touch c h r) = bindings c"
  using assms by (simp add: bindings_def touch_def Let_def map_update_same keys_ok_def)

lemma touch_frame [mv_frame]:
  "pc_free_donor_slots (touch c h r) = pc_free_donor_slots c"
  "pc_first_donor_slot (touch c h r) = pc_first_donor_slot c"
  "pc_donor_capacity (touch c h r) = pc_donor_capacity c"
  by (simp_all add: touch_def Let_def)

lemma find_longest_loop_frame:
  assumes "keys_ok c" and "find_longest_loop nb c tokens bs = (res, c')"
  shows "bindings c' = bindings c \<and> pc_free_donor_slots c' = pc_free_donor_slots c \<and>
    pc_first_donor_slot c' = pc_first_donor_slot c \<and> pc_donor_capacity c' = pc_donor_capacity c"
  using assms
  by (induction nb) (auto simp: Let_def bindings_touch touch_frame split: option.splits if_splits)

lemma find_longest_frame:
  assumes "keys_ok c" and "find_longest c tokens bs = (res, c')"
  shows "bindings c' = bindings c" "pc_free_donor_slots c' = pc_free_donor_slots c"
    "pc_first_donor_slot c' = pc_first_donor_slot c" "pc_donor_capacity c' = pc_donor_capacity c"
    "entry_at c' = entry_at c" "donors c' = donors c" "keys_ok c'"
  using assms find_longest_loop_frame [OF assms(1)]
  by (auto simp: find_longest_def entry_at_bindings donors_bindings keys_ok_bindings split: if_splits)

text \<open>What the cache holds for the first \<open>n\<close> tokens of a prompt.\<close>

definition cached_at :: "PrefixCache \<Rightarrow> Token list \<Rightarrow> nat \<Rightarrow> Entry option" where
  "cached_at c tokens n =
     (case entry_at c (hash_prefix tokens n) of
        Some e \<Rightarrow> if en_n_tokens e = n then Some e else None
      | None \<Rightarrow> None)"

lemma find_longest_loop_spec:
  assumes "find_longest_loop nb c tokens bs = (res, c')"
  shows "case res of
      Some e \<Rightarrow> \<exists>k. 0 < k \<and> k \<le> nb \<and> cached_at c tokens (u32 (k * bs)) = Some e \<and>
        (\<forall>j. k < j \<longrightarrow> j \<le> nb \<longrightarrow> cached_at c tokens (u32 (j * bs)) = None)
    | None \<Rightarrow> \<forall>j. 0 < j \<longrightarrow> j \<le> nb \<longrightarrow> cached_at c tokens (u32 (j * bs)) = None"
  using assms
proof (induction nb)
  case 0
  then show ?case by simp
next
  case (Suc nb)
  let ?n = "u32 (Suc nb * bs)"
  show ?case
  proof (cases "cached_at c tokens ?n")
    case None
    then have "find_longest_loop (Suc nb) c tokens bs = find_longest_loop nb c tokens bs"
      by (auto simp: Let_def cached_at_def entry_at_def split: option.splits if_splits)
    with Suc show ?thesis
      using None by (cases res) (auto simp: le_Suc_eq simp del: mult_Suc)
  next
    case (Some e)
    then have "fst (find_longest_loop (Suc nb) c tokens bs) = Some e"
      by (auto simp: Let_def cached_at_def entry_at_def split: option.splits if_splits)
    with Suc.prems have "res = Some e" by simp
    with Some show ?thesis
      by (auto intro!: exI [of _ "Suc nb"] simp del: mult_Suc)
  qed
qed

text \<open>
  For prompts below 2^32 tokens no product wraps, and the lookup returns the longest
  whole-block prefix the cache has.
\<close>

lemma find_longest_spec:
  assumes run: "find_longest c tokens bs = (res, c')" and "0 < bs" and len: "length tokens < 4294967296"
  shows "case res of
      Some e \<Rightarrow> \<exists>k. 0 < k \<and> k * bs \<le> length tokens \<and> cached_at c tokens (k * bs) = Some e \<and>
        (\<forall>j. k < j \<longrightarrow> j * bs \<le> length tokens \<longrightarrow> cached_at c tokens (j * bs) = None)
    | None \<Rightarrow> \<forall>j. 0 < j \<longrightarrow> j * bs \<le> length tokens \<longrightarrow> cached_at c tokens (j * bs) = None"
proof (cases "tokens = []")
  case True
  with run \<open>0 < bs\<close> show ?thesis by (auto simp: find_longest_def)
next
  case False
  have "length tokens div bs < 4294967296"
    using len div_le_dividend [of "length tokens" bs] by linarith
  with False run \<open>0 < bs\<close>
  have loop: "find_longest_loop (length tokens div bs) c tokens bs = (res, c')"
    by (simp add: find_longest_def u32_id)
  have le: "k \<le> length tokens div bs \<longleftrightarrow> k * bs \<le> length tokens" for k
    using \<open>0 < bs\<close> by (simp add: less_eq_div_iff_mult_less_eq)
  have u: "k * bs \<le> length tokens \<Longrightarrow> u32 (k * bs) = k * bs" for k
    using len by (simp add: u32_id)
  from find_longest_loop_spec [OF loop] show ?thesis
    by (cases res) (auto simp: le u)
qed

lemma hash_prefix_cong: "take n xs = take n ys \<Longrightarrow> hash_prefix xs n = hash_prefix ys n"
  by (metis hash_prefix_def min_def take_all nle_le)

lemma cached_at_cong: "take n xs = take n ys \<Longrightarrow> cached_at c xs n = cached_at c ys n"
  using hash_prefix_cong [of n xs ys] by (simp add: cached_at_def)

lemma cached_at_insert:
  "en_n_tokens e = n \<Longrightarrow> cached_at (insert_entry c (hash_prefix tokens n) e) tokens n = Some e"
  by (simp add: cached_at_def entry_at_insert)

subsection \<open>Time stamps and the least recently used donor\<close>

lemma update_fresh_stamp:
  assumes "keys_ok c" and "ticks_ok c" and t: "pc_tick c < t" and "cr_last_used r = t"
  shows "ticks_ok (c\<lparr>pc_entries := AList.update h r (pc_entries c), pc_tick := t\<rparr>)"
proof -
  let ?al = "pc_entries c" and ?f = "\<lambda>x :: 64 word \<times> CacheRecord. cr_last_used (snd x)"
  from assms(1) have "mset (AList.update h r ?al) = mset ((h, r) # AList.delete h ?al)"
    by (simp add: mset_alist_update keys_ok_def)
  then have m: "mset (map ?f (AList.update h r ?al)) = mset (map ?f ((h, r) # AList.delete h ?al))"
    and st: "set (AList.update h r ?al) = set ((h, r) # AList.delete h ?al)"
    by (metis mset_map) (metis \<open>mset _ = _\<close> mset_eq_setD)
  have sub: "set (AList.delete h ?al) \<subseteq> set ?al" by (auto simp: AList.delete_eq)
  have "distinct (map ?f (AList.delete h ?al))"
    using assms(2) by (simp add: ticks_ok_def AList.delete_eq distinct_map_filter)
  moreover have "?f x \<noteq> t \<and> ?f x \<le> t" if "x \<in> set (AList.delete h ?al)" for x
    using that sub t assms(2) by (fastforce simp: ticks_ok_def)
  ultimately have "distinct (map ?f ((h, r) # AList.delete h ?al))" "\<forall>x\<in>set ((h, r) # AList.delete h ?al). ?f x \<le> t"
    using assms(4) by fastforce+
  then show ?thesis
    using mset_eq_imp_distinct_iff [OF m] st by (simp add: ticks_ok_def)
qed

lemma insert_entry_ticks [mv_inv]:
  "keys_ok c \<Longrightarrow> ticks_ok c \<Longrightarrow> pc_tick c + 1 < 18446744073709551616 \<Longrightarrow> ticks_ok (insert_entry c h e)"
  using update_fresh_stamp [of c "pc_tick c + 1" "\<lparr>cr_entry = e, cr_last_used = pc_tick c + 1\<rparr>" h]
  by (simp add: insert_entry_def Let_def u64_id)

lemma touch_ticks [mv_inv]:
  "keys_ok c \<Longrightarrow> ticks_ok c \<Longrightarrow> pc_tick c + 1 < 18446744073709551616 \<Longrightarrow> ticks_ok (touch c h r)"
  using update_fresh_stamp [of c "pc_tick c + 1" "r\<lparr>cr_last_used := pc_tick c + 1\<rparr>" h]
  by (simp add: touch_def Let_def u64_id)

lemma find_longest_loop_hit:
  assumes "find_longest_loop nb c tokens bs = (Some e, c')"
  obtains h r where "map_of (pc_entries c) h = Some r" "cr_entry r = e" "c' = touch c h r"
    "h = hash_prefix tokens (en_n_tokens e)"
  using assms
proof (induction nb)
  case 0
  then show ?case by simp
next
  case (Suc nb)
  then show ?case
    by (auto simp: Let_def split: option.splits if_splits)
qed

lemma find_longest_entry:
  assumes "find_longest c tokens bs = (Some e, c')"
  shows "\<exists>h. entry_at c h = Some e"
proof -
  from assms have "find_longest_loop (u32 (length tokens div bs)) c tokens bs = (Some e, c')"
    by (simp add: find_longest_def split: if_splits)
  then show ?thesis by (rule find_longest_loop_hit) (auto simp: entry_at_def)
qed

text \<open>
  A retained prefix that was just hit is not the next one evicted, as long as another
  donor is there to go first.
\<close>

lemma hit_survives_eviction:
  assumes keys: "keys_ok c" and ticks: "ticks_ok c" and wrap: "pc_tick c + 1 < 18446744073709551616"
    and hit: "find_longest c tokens bs = (Some e, c')"
    and more: "2 \<le> size (donors c)" and ev: "evict_lru_retained c' = (Some v, c'')"
  shows "entry_at c'' (hash_prefix tokens (en_n_tokens e)) = Some e"
proof -
  from hit have "\<exists>nb. find_longest_loop nb c tokens bs = (Some e, c')"
    by (auto simp: find_longest_def split: if_splits)
  then obtain h r where r: "map_of (pc_entries c) h = Some r" "cr_entry r = e"
    and c': "c' = touch c h r" and h: "h = hash_prefix tokens (en_n_tokens e)"
    by (auto elim: find_longest_loop_hit)
  have keys': "keys_ok c'" and "donors c' = donors c" and at: "entry_at c' h = Some e"
    using find_longest_frame [OF keys hit] r by (auto simp: entry_at_def)
  let ?al = "pc_entries c'"
  have "map_of ?al h = Some (r\<lparr>cr_last_used := pc_tick c + 1\<rparr>)"
    using wrap by (simp add: c' touch_def Let_def u64_id update_conv')
  have stamps: "cr_last_used (snd x) = pc_tick c + 1 \<and> fst x = h \<or>
      cr_last_used (snd x) \<le> pc_tick c \<and> fst x \<noteq> h" if "x \<in> set ?al" for x
  proof (cases "fst x = h")
    case True
    from that keys' have "map_of ?al (fst x) = Some (snd x)" by (simp add: keys_ok_def)
    with True \<open>map_of ?al h = _\<close> have "snd x = r\<lparr>cr_last_used := pc_tick c + 1\<rparr>" by simp
    with True show ?thesis by simp
  next
    case False
    with that have "x \<in> set (pc_entries c)"
      by (auto simp: c' touch_def Let_def dest: set_alist_update)
    with False ticks show ?thesis by (auto simp: ticks_ok_def)
  qed
  from ev obtain vh vr where scan: "lru_scan ?al None = Some (vh, vr)"
    and c'': "pc_entries c'' = AList.delete vh ?al"
    by (auto simp: evict_lru_retained_def split: option.splits)
  have "vh \<noteq> h"
  proof
    assume "vh = h"
    from lru_scan_min [OF scan] have mem: "(vh, vr) \<in> set ?al"
      and min: "\<And>x. x \<in> set ?al \<Longrightarrow> en_retained (cr_entry (snd x)) \<Longrightarrow> cr_last_used vr \<le> cr_last_used (snd x)"
      by auto
    from stamps [OF mem] \<open>vh = h\<close> have "cr_last_used vr = pc_tick c + 1" by auto
    with min stamps have "filter (\<lambda>x. en_retained (cr_entry (snd x))) ?al = filter (\<lambda>x. fst x = h \<and> en_retained (cr_entry (snd x))) ?al"
      by (intro filter_cong refl) force
    then have "size (donors c') \<le> length (filter (\<lambda>x. fst x = h) ?al)"
      by (simp add: donors_def donor_part_def filter_mset_image_mset flip: mset_filter filter_filter)
    moreover have "length (filter (\<lambda>x. fst x = h) ?al) \<le> 1"
      using keys' unfolding keys_ok_def
      by (metis distinct_length_filter_one)
    ultimately show False using more \<open>donors c' = donors c\<close> by simp
  qed
  then show ?thesis
    using at by (simp add: entry_at_def c'' delete_conv' flip: h)
qed

section \<open>What the hash separates\<close>

text \<open>
  A step of the hash is a bijection of its state, and it tells any two tokens apart: the
  multiplier is odd, and a token fits 32 bits. So two prompts that differ in one token never
  collide. Two that differ in several may.
\<close>

definition token_ok :: "Token \<Rightarrow> bool" where
  "token_ok t \<longleftrightarrow> - 2147483648 \<le> t \<and> t < 2147483648"

lemma fnv_prime_inverse: "1099511628211 * 14886173955864302971 = (1 :: 64 word)"
  by simp

lemma fnv_step_unscale: "fnv_step t h * 14886173955864302971 = h XOR word_of_int (t mod 4294967296)"
  unfolding fnv_step_def mult.assoc fnv_prime_inverse by simp

lemma fnv_step_undo: "fnv_step t h * 14886173955864302971 XOR word_of_int (t mod 4294967296) = h"
  by (simp add: fnv_step_unscale xor.assoc)

lemma fnv_step_inj: "fnv_step t h = fnv_step t h' \<longleftrightarrow> h = h'"
proof
  assume "fnv_step t h = fnv_step t h'"
  from arg_cong [OF this, of "\<lambda>x. x * 14886173955864302971 XOR word_of_int (t mod 4294967296)"]
  show "h = h'" unfolding fnv_step_undo .
qed simp

lemma low_bits: "take_bit LENGTH(64) (t mod 4294967296) = t mod (4294967296 :: int)"
proof (rule take_bit_int_eq_self)
  show "t mod 4294967296 < 2 ^ LENGTH(64)" by (rule less_trans [OF pos_mod_bound]) simp_all
qed simp

lemma fnv_step_token:
  assumes "token_ok t" and "token_ok u" and "fnv_step t h = fnv_step u h"
  shows "t = u"
proof -
  have "h XOR word_of_int (t mod 4294967296) = h XOR word_of_int (u mod 4294967296)"
    using arg_cong [OF assms(3), of "\<lambda>x. x * 14886173955864302971"] unfolding fnv_step_unscale .
  from arg_cong [OF this, of "\<lambda>x. h XOR x"]
  have "(word_of_int (t mod 4294967296) :: 64 word) = word_of_int (u mod 4294967296)"
    unfolding xor.assoc [symmetric] xor_self_eq xor.left_neutral .
  then have "t mod 4294967296 = u mod 4294967296" unfolding word_of_int_eq_iff low_bits by simp
  then have "4294967296 dvd t - u" by (simp add: mod_eq_dvd_iff)
  then obtain k where k: "t - u = 4294967296 * k" by (elim dvdE)
  have "k < 1" "- 1 < k" using k assms(1,2) unfolding token_ok_def by linarith+
  then have "k = 0" by linarith
  with k show ?thesis by simp
qed

lemma fnv_fold_inj: "fold fnv_step ts h = fold fnv_step ts h' \<longleftrightarrow> h = h'"
  by (induction ts arbitrary: h h') (simp_all add: fnv_step_inj)

definition differ_at :: "'a list \<Rightarrow> 'a list \<Rightarrow> nat set" where
  "differ_at xs ys = {i. i < length xs \<and> xs ! i \<noteq> ys ! i}"

lemma hash_one_token:
  assumes "length xs = length ys" and "list_all token_ok xs" and "list_all token_ok ys"
    and hash: "fold fnv_step xs h = fold fnv_step ys h" and "xs \<noteq> ys"
  shows "2 \<le> card (differ_at xs ys)"
proof (rule ccontr)
  have fin: "finite (differ_at xs ys)" by (simp add: differ_at_def)
  assume "\<not> 2 \<le> card (differ_at xs ys)"
  moreover obtain i where i: "i < length xs" "xs ! i \<noteq> ys ! i" using assms(1,5) by (metis nth_equalityI)
  ultimately have "differ_at xs ys = {i}"
    using fin card_le_Suc0_iff_eq [OF fin] by (auto simp: differ_at_def)
  then have eq: "xs ! k = ys ! k" if "k < length xs" "k \<noteq> i" for k using that by (auto simp: differ_at_def)
  have t: "take i xs = take i ys" by (rule nth_equalityI) (use assms(1) i eq in auto)
  have d: "drop (Suc i) xs = drop (Suc i) ys" by (rule nth_equalityI) (use assms(1) i eq in auto)
  have x: "xs = take i xs @ xs ! i # drop (Suc i) xs" using i by (simp add: id_take_nth_drop)
  have y: "ys = take i xs @ ys ! i # drop (Suc i) xs" using i assms(1) by (metis id_take_nth_drop t d)
  have "fold fnv_step (take i xs @ xs ! i # drop (Suc i) xs) h = fold fnv_step (take i xs @ ys ! i # drop (Suc i) xs) h"
    using hash x y by metis
  then have "fnv_step (xs ! i) (fold fnv_step (take i xs) h) = fnv_step (ys ! i) (fold fnv_step (take i xs) h)"
    by (simp add: fnv_fold_inj)
  from fnv_step_token [OF _ _ this] assms(1-3) i show False by (simp add: list_all_length)
qed

lemma hash_prefix_take: "hash_prefix tokens n = fold fnv_step (take n tokens) 1469598103934665603"
  by (simp add: hash_prefix_def min_def)

section \<open>What a lookup finds\<close>

text \<open>
  The cache after any series of operations, with the history of what was published for which
  tokens. Eviction drops a sequence or a donor, publishing under a hash that is taken
  overwrites.
\<close>

inductive cache_reach :: "(Token list \<times> Entry) set \<Rightarrow> PrefixCache \<Rightarrow> bool" where
  empty: "cache_reach {} (configure_donors PrefixCache_new first cnt)"
| publish: "cache_reach P c \<Longrightarrow> list_all token_ok ts \<Longrightarrow> en_n_tokens e = length ts \<Longrightarrow>
    cache_reach (insert (ts, e) P) (insert_entry c (hash_prefix ts (length ts)) e)"
| look: "cache_reach P c \<Longrightarrow> find_longest c tokens bs = (r, c') \<Longrightarrow> cache_reach P c'"
| evict: "cache_reach P c \<Longrightarrow> cache_reach P (evict_sequence c s)"
| reclaim: "cache_reach P c \<Longrightarrow> evict_lru_retained c = (r, c') \<Longrightarrow> cache_reach P c'"
| slot: "cache_reach P c \<Longrightarrow> take_donor_slot c = (r, c') \<Longrightarrow> cache_reach P c'"

definition published :: "(Token list \<times> Entry) set \<Rightarrow> 64 word \<Rightarrow> Entry \<Rightarrow> bool" where
  "published P h e \<longleftrightarrow> (\<exists>ts. (ts, e) \<in> P \<and> h = hash_prefix ts (length ts) \<and> en_n_tokens e = length ts \<and> list_all token_ok ts)"

lemma cache_reach_published:
  assumes "cache_reach P c"
  shows "keys_ok c" and "entry_at c h = Some e \<Longrightarrow> published P h e"
proof -
  have "keys_ok c \<and> (\<forall>h e. entry_at c h = Some e \<longrightarrow> published P h e)"
    using assms
  proof (induction rule: cache_reach.induct)
    case (empty first cnt)
    then show ?case by (simp add: keys_ok_def entry_at_def configure_donors_def PrefixCache_new_def)
  next
    case (publish P c ts e)
    have "published (insert (ts, e) P) (hash_prefix ts (length ts)) e" using publish.hyps by (auto simp: published_def)
    moreover have "published P h f \<Longrightarrow> published (insert (ts, e) P) h f" for h f by (auto simp: published_def)
    ultimately show ?case using publish.IH by (simp add: insert_entry_keys entry_at_insert)
  next
    case (look P c tokens bs r c')
    then show ?case using find_longest_frame(5,7) [OF _ look.hyps(2)] by simp
  next
    case (evict P c s)
    then show ?case by (simp add: evict_sequence_keys entry_at_evict split: option.split)
  next
    case (reclaim P c r c')
    show ?case
    proof (cases r)
      case None
      with reclaim show ?thesis by (simp add: evict_lru_retained_def split: option.splits prod.splits)
    next
      case (Some v)
      from reclaim have k: "keys_ok c" by blast
      note V = evict_lru_Some [OF k reclaim.hyps(2) [unfolded Some]]
      show ?thesis using reclaim.IH V(3,7) by blast
    qed
  next
    case (slot P c r c')
    then show ?case using take_donor_slot_frame(6,7) [OF slot.hyps(2)] by simp
  qed
  then show "keys_ok c" "entry_at c h = Some e \<Longrightarrow> published P h e" by blast+
qed

text \<open>
  A hit was published for tokens of its length that are the first tokens of the prompt, or
  differ from them in two places or more under the same hash; and nothing longer that is
  still cached would have done.
\<close>

definition still_cached :: "PrefixCache \<Rightarrow> Token list \<Rightarrow> Entry \<Rightarrow> bool" where
  "still_cached c ts e \<longleftrightarrow> entry_at c (hash_prefix ts (length ts)) = Some e"

lemma cached_at_still:
  assumes "still_cached c us f" and "en_n_tokens f = length us" and "us = take (length us) tokens" and "length us \<le> length tokens"
  shows "cached_at c tokens (length us) = Some f"
proof -
  have "hash_prefix tokens (length us) = hash_prefix us (length us)" unfolding hash_prefix_take using assms(3) by simp
  with assms(1,2) show ?thesis by (simp add: cached_at_def still_cached_def)
qed

lemma find_longest_published:
  assumes reach: "cache_reach P c" and run: "find_longest c tokens bs = (res, c')" and bs: "0 < bs"
    and len: "length tokens < 4294967296" and toks: "list_all token_ok tokens"
  shows "case res of
      Some e \<Rightarrow> \<exists>ts. (ts, e) \<in> P \<and> bs dvd length ts \<and> ts \<noteq> [] \<and> length ts \<le> length tokens \<and> en_n_tokens e = length ts \<and>
        (ts = take (length ts) tokens \<or> 2 \<le> card (differ_at ts tokens)) \<and>
        (\<forall>us f. (us, f) \<in> P \<longrightarrow> still_cached c us f \<longrightarrow> prefix us tokens \<longrightarrow> bs dvd length us \<longrightarrow> en_n_tokens f = length us \<longrightarrow>
          length us \<le> length ts)
    | None \<Rightarrow> \<not> (\<exists>us f. (us, f) \<in> P \<and> still_cached c us f \<and> prefix us tokens \<and> bs dvd length us \<and> us \<noteq> [] \<and> en_n_tokens f = length us)"
proof -
  note S = find_longest_spec [OF run bs len]
  have miss: "\<exists>j. length us = j * bs \<and> (0 < j \<or> us = []) \<and> j * bs \<le> length tokens \<and> cached_at c tokens (j * bs) = Some f"
    if "still_cached c us f" "prefix us tokens" "bs dvd length us" "en_n_tokens f = length us" for us f
  proof -
    obtain j where j: "length us = j * bs" using \<open>bs dvd length us\<close> by (metis dvd_def mult.commute)
    have u: "us = take (length us) tokens" using \<open>prefix us tokens\<close> by (auto simp: prefix_def)
    have le: "length us \<le> length tokens" by (rule prefix_length_le [OF \<open>prefix us tokens\<close>])
    have "cached_at c tokens (j * bs) = Some f" using cached_at_still [OF that(1,4) u le] unfolding j .
    moreover have "0 < j \<or> us = []" using j by (cases j) auto
    ultimately show ?thesis using j le by auto
  qed
  show ?thesis
  proof (cases res)
    case None
    then have none: "\<And>j. 0 < j \<Longrightarrow> j * bs \<le> length tokens \<Longrightarrow> cached_at c tokens (j * bs) = None" using S by simp
    have "us = []" if "still_cached c us f" "prefix us tokens" "bs dvd length us" "en_n_tokens f = length us" for us f
    proof -
      note M = miss [OF that]
      obtain j where j: "0 < j \<or> us = []" "j * bs \<le> length tokens" "cached_at c tokens (j * bs) = Some f" using M by blast
      then show ?thesis using none [of j] by auto
    qed
    then show ?thesis unfolding None option.case by blast
  next
    case (Some e)
    with S obtain k where k: "0 < k" "k * bs \<le> length tokens" "cached_at c tokens (k * bs) = Some e"
      "\<And>j. k < j \<Longrightarrow> j * bs \<le> length tokens \<Longrightarrow> cached_at c tokens (j * bs) = None" by auto
    have e: "entry_at c (hash_prefix tokens (k * bs)) = Some e" "en_n_tokens e = k * bs"
      using k(3) by (auto simp: cached_at_def split: option.splits if_splits)
    obtain ts where ts: "(ts, e) \<in> P" "hash_prefix tokens (k * bs) = hash_prefix ts (length ts)" "en_n_tokens e = length ts"
      "list_all token_ok ts" using cache_reach_published(2) [OF reach e(1)] unfolding published_def by blast
    have l: "length ts = k * bs" using ts(3) e(2) by simp
    have near: "ts = take (length ts) tokens \<or> 2 \<le> card (differ_at ts tokens)"
    proof (cases "ts = take (length ts) tokens")
      case False
      have "fold fnv_step ts 1469598103934665603 = fold fnv_step (take (length ts) tokens) 1469598103934665603"
        using ts(2) l by (simp add: hash_prefix_take)
      moreover have "list_all token_ok (take (length ts) tokens)" using toks by (auto simp: list_all_iff dest: in_set_takeD)
      moreover have "length ts = length (take (length ts) tokens)" using l k(2) by simp
      ultimately have "2 \<le> card (differ_at ts (take (length ts) tokens))" using hash_one_token [OF _ ts(4)] False by blast
      moreover have "differ_at ts (take (length ts) tokens) = differ_at ts tokens" by (auto simp: differ_at_def)
      ultimately show ?thesis by simp
    qed simp
    have "length us \<le> length ts"
      if "still_cached c us f" "prefix us tokens" "bs dvd length us" "en_n_tokens f = length us" for us f
    proof -
      note M = miss [OF that]
      obtain j where j: "length us = j * bs" "j * bs \<le> length tokens" "cached_at c tokens (j * bs) = Some f" using M by blast
      then have "\<not> k < j" using k(4) by auto
      with j(1) l show ?thesis by simp
    qed
    moreover have "bs dvd length ts" "ts \<noteq> []" "length ts \<le> length tokens" using l k(1,2) bs by auto
    ultimately show ?thesis unfolding Some option.case using ts(1,3) near by blast
  qed
qed

section \<open>The contract the scheduler relies on\<close>

text \<open>
  An index from prompt hashes to the sequence that holds the KV: insertion overwrites,
  eviction of a sequence removes all of its entries and no other.
\<close>

locale prefix_index =
  fixes ins :: "'c \<Rightarrow> 'k \<Rightarrow> Entry \<Rightarrow> 'c"
    and look :: "'c \<Rightarrow> 'k \<Rightarrow> Entry option"
    and evict :: "'c \<Rightarrow> SeqId \<Rightarrow> 'c"
    and inv :: "'c \<Rightarrow> bool"
  assumes inv_ins: "inv c \<Longrightarrow> inv (ins c k e)"
    and inv_evict: "inv c \<Longrightarrow> inv (evict c s)"
    and look_ins: "inv c \<Longrightarrow> look (ins c k e) k' = (if k' = k then Some e else look c k')"
    and look_evict: "inv c \<Longrightarrow> look (evict c s) k =
      (case look c k of Some e \<Rightarrow> if en_seq e = s then None else Some e | None \<Rightarrow> None)"
begin

lemma look_evictD: "inv c \<Longrightarrow> look (evict c s) k = Some e \<Longrightarrow> en_seq e \<noteq> s \<and> look c k = Some e"
  by (auto simp: look_evict split: option.splits if_splits)

text \<open>
  Once a sequence is evicted, no lookup returns it again until it is published again:
  a recycled slot never serves a stale hit.
\<close>

lemma evicted_stays_out:
  assumes "inv c" and "\<And>k e. (k, e) \<in> set kes \<Longrightarrow> en_seq e \<noteq> s"
    and "look (fold (\<lambda>(k, e) c. ins c k e) kes (evict c s)) k = Some e"
  shows "en_seq e \<noteq> s"
proof -
  have "inv d \<Longrightarrow> (\<And>k e. look d k = Some e \<Longrightarrow> en_seq e \<noteq> s) \<Longrightarrow>
      look (fold (\<lambda>(k, e) c. ins c k e) kes d) k = Some e \<Longrightarrow> en_seq e \<noteq> s" for d
    using assms(2)
  proof (induction kes arbitrary: d)
    case Nil
    then show ?case by auto
  next
    case (Cons p kes)
    obtain k0 e0 where p: "p = (k0, e0)" by (cases p)
    from Cons.prems(3) p have "look (fold (\<lambda>(k, e) c. ins c k e) kes (ins d k0 e0)) k = Some e" by simp
    then show ?case
    proof (rule Cons.IH [rotated 2])
      show "inv (ins d k0 e0)" using Cons.prems(1) by (rule inv_ins)
      show "en_seq e' \<noteq> s" if "look (ins d k0 e0) k' = Some e'" for k' e'
        using that Cons.prems(1,2,4) p by (auto simp: look_ins split: if_splits)
      show "en_seq e' \<noteq> s" if "(k', e') \<in> set kes" for k' e'
        using that Cons.prems(4) by auto
    qed
  qed
  from this [OF inv_evict [OF assms(1)] _ assms(3)] show ?thesis
    using look_evictD [OF assms(1)] by blast
qed

end

interpretation pcache: prefix_index insert_entry entry_at evict_sequence keys_ok
  by unfold_locales (simp_all add: mv_inv entry_at_insert entry_at_evict)

end
