(* ===== verification/Mv_Sinks.thy ===== *)
theory Mv_Sinks
  imports Mv_Types
begin

text \<open>
  Output sinks: \<open>include/microvllm/token_sink.hpp\<close>, \<open>collecting_sink.hpp\<close> and
  \<open>streaming_sink.hpp\<close>. The generator reaches a sink only through the virtual calls of
  \<open>ITokenSink\<close>; the model records these calls in order, and each sink class is the
  function that folds them into its state. The cancellation flag is shared with another
  thread, so the value a poll reads is an argument of the code that polls it.
\<close>

section \<open>\<open>ITokenSink\<close>\<close>

datatype sink_call =
    OnText string
  | OnFinish FinishReason Usage
  | OnError string

fun is_text :: "sink_call \<Rightarrow> bool" where
  "is_text (OnText d) = True"
| "is_text _ = False"

fun delta_of :: "sink_call \<Rightarrow> string" where
  "delta_of (OnText d) = d"
| "delta_of _ = []"

definition texts_of :: "sink_call list \<Rightarrow> string" where
  "texts_of cs = concat (map delta_of cs)"

text \<open>The call sequence \<open>on_text* ( on_finish | on_error )\<close> that the interface documents.\<close>

definition protocol_complete :: "sink_call list \<Rightarrow> bool" where
  "protocol_complete cs \<longleftrightarrow> cs \<noteq> [] \<and> list_all is_text (butlast cs) \<and> \<not> is_text (last cs)"

section \<open>\<open>CollectingSink\<close>\<close>

record CollectingSink =
  cs_text :: string
  cs_error :: string
  cs_usage :: Usage
  cs_reason :: FinishReason
  cs_done :: bool

definition CollectingSink_new :: CollectingSink where
  "CollectingSink_new =
     \<lparr>cs_text = [], cs_error = [], cs_usage = Usage_default, cs_reason = kUnset, cs_done = False\<rparr>"

fun collecting_call :: "sink_call \<Rightarrow> CollectingSink \<Rightarrow> CollectingSink" where
  "collecting_call (OnText delta) s = s\<lparr>cs_text := cs_text s @ delta\<rparr>"
| "collecting_call (OnFinish reason usage) s =
     s\<lparr>cs_reason := reason, cs_usage := usage, cs_done := True\<rparr>"
| "collecting_call (OnError message) s =
     s\<lparr>cs_error := message, cs_reason := kError, cs_done := True\<rparr>"

section \<open>\<open>StreamingSink\<close>\<close>

record Event =
  ev_text :: string
  ev_terminal :: bool
  ev_reason :: FinishReason
  ev_usage :: Usage
  ev_error :: string

definition Event_default :: Event where
  "Event_default =
     \<lparr>ev_text = [], ev_terminal = False, ev_reason = kUnset, ev_usage = Usage_default, ev_error = []\<rparr>"

type_synonym StreamingSink = "Event list"

definition push_event :: "Event \<Rightarrow> StreamingSink \<Rightarrow> StreamingSink" where
  "push_event e s = s @ [e]"

fun streaming_call :: "sink_call \<Rightarrow> StreamingSink \<Rightarrow> StreamingSink" where
  "streaming_call (OnText delta) s =
     (if delta = [] then s else push_event (Event_default\<lparr>ev_text := delta\<rparr>) s)"
| "streaming_call (OnFinish reason usage) s =
     push_event (Event_default\<lparr>ev_terminal := True, ev_reason := reason, ev_usage := usage\<rparr>) s"
| "streaming_call (OnError message) s =
     push_event (Event_default\<lparr>ev_terminal := True, ev_reason := kError, ev_error := message\<rparr>) s"

text \<open>\<open>next()\<close> waits while the queue is empty: no result until an event is there.\<close>

definition next_event :: "StreamingSink \<Rightarrow> (Event \<times> StreamingSink) option" where
  "next_event s = (case s of [] \<Rightarrow> None | e # es \<Rightarrow> Some (e, es))"

section \<open>Both sinks render the same response\<close>

lemma texts_of_simps [simp]:
  "texts_of [] = []" "texts_of (c # cs) = delta_of c @ texts_of cs"
  "texts_of (cs @ ds) = texts_of cs @ texts_of ds"
  by (simp_all add: texts_of_def)

lemma collecting_text: "cs_text (fold collecting_call cs s) = cs_text s @ texts_of cs"
proof (induction cs arbitrary: s)
  case Nil
  then show ?case by simp
next
  case (Cons c cs)
  then show ?case by (cases c) simp_all
qed

lemma collecting_done_texts: "list_all is_text cs \<Longrightarrow> cs_done (fold collecting_call cs s) = cs_done s"
proof (induction cs arbitrary: s)
  case Nil
  then show ?case by simp
next
  case (Cons c cs)
  then show ?case by (cases c) simp_all
qed

lemma streaming_append: "fold streaming_call cs s = s @ fold streaming_call cs []"
proof (induction cs arbitrary: s)
  case Nil
  then show ?case by simp
next
  case (Cons c cs)
  have one: "streaming_call c s = s @ streaming_call c []" for s
    by (cases c) (simp_all add: push_event_def)
  have "fold streaming_call cs (streaming_call c s) = s @ streaming_call c [] @ fold streaming_call cs []"
    using Cons [of "streaming_call c s"] one [of s] by simp
  also have "streaming_call c [] @ fold streaming_call cs [] = fold streaming_call cs (streaming_call c [])"
    using Cons [of "streaming_call c []"] by simp
  finally show ?case by simp
qed

lemma streaming_Cons:
  "fold streaming_call (c # cs) [] = streaming_call c [] @ fold streaming_call cs []"
  using streaming_append [of cs "streaming_call c []"] by simp

lemma streaming_text: "concat (map ev_text (fold streaming_call cs [])) = texts_of cs"
proof (induction cs)
  case Nil
  then show ?case by simp
next
  case (Cons c cs)
  have "concat (map ev_text (streaming_call c [])) = delta_of c"
    by (cases c) (simp_all add: push_event_def Event_default_def)
  with Cons show ?case unfolding streaming_Cons by simp
qed

lemma streaming_terminal:
  "length (filter ev_terminal (fold streaming_call cs [])) = length (filter (\<lambda>c. \<not> is_text c) cs)"
proof (induction cs)
  case Nil
  then show ?case by simp
next
  case (Cons c cs)
  have "length (filter ev_terminal (streaming_call c [])) = (if is_text c then 0 else 1)"
    by (cases c) (simp_all add: push_event_def Event_default_def)
  with Cons show ?case unfolding streaming_Cons by simp
qed

section \<open>The producer and the consumer of a stream\<close>

text \<open>
  The scheduler thread pushes events, the HTTP thread pops them, each under the sink's
  mutex, in any interleaving. A state is the queue, the calls made so far and the events
  consumed so far.
\<close>

record stream_state =
  sx_queue :: StreamingSink
  sx_calls :: "sink_call list"
  sx_seen :: "Event list"

definition stream_init :: stream_state where
  "stream_init = \<lparr>sx_queue = [], sx_calls = [], sx_seen = []\<rparr>"

inductive stream_step :: "stream_state \<Rightarrow> stream_state \<Rightarrow> bool" where
  produce: "stream_step s (s\<lparr>sx_queue := streaming_call c (sx_queue s), sx_calls := sx_calls s @ [c]\<rparr>)"
| consume: "next_event (sx_queue s) = Some (e, q) \<Longrightarrow>
    stream_step s (s\<lparr>sx_queue := q, sx_seen := sx_seen s @ [e]\<rparr>)"

inductive stream_reach :: "stream_state \<Rightarrow> bool" where
  init: "stream_reach stream_init"
| step: "stream_reach s \<Longrightarrow> stream_step s t \<Longrightarrow> stream_reach t"

text \<open>Nothing is lost, duplicated or reordered between the two threads.\<close>

lemma stream_reach_history:
  "stream_reach s \<Longrightarrow> sx_seen s @ sx_queue s = fold streaming_call (sx_calls s) []"
proof (induction rule: stream_reach.induct)
  case init
  show ?case by (simp add: stream_init_def)
next
  case (step s t)
  from step.hyps(2) show ?case
  proof cases
    case (produce c)
    with step.IH streaming_append [of "[c]" "sx_queue s"] streaming_append [of "[c]" "fold streaming_call (sx_calls s) []"]
    show ?thesis by simp
  next
    case (consume e q)
    with step.IH show ?thesis by (auto simp: next_event_def split: list.splits)
  qed
qed

text \<open>A complete response ends in its one terminal event.\<close>

lemma streaming_complete:
  assumes "protocol_complete cs"
  defines "es \<equiv> fold streaming_call cs []"
  shows "es \<noteq> [] \<and> ev_terminal (last es) \<and> length (filter ev_terminal es) = 1 \<and> concat (map ev_text es) = texts_of cs"
proof -
  from assms(1) obtain ds c where cs: "cs = ds @ [c]" "list_all is_text ds" "\<not> is_text c"
    by (cases cs rule: rev_cases) (auto simp: protocol_complete_def)
  have c: "\<exists>e. streaming_call c s = s @ [e] \<and> ev_terminal e" for s
    using cs(3) by (cases c) (auto simp: push_event_def Event_default_def)
  have "filter (\<lambda>c. \<not> is_text c) ds = []" using cs(2) by (auto simp: list_all_iff filter_empty_conv)
  then have "length (filter ev_terminal es) = 1"
    unfolding es_def streaming_terminal cs(1) using cs(3) by simp
  with c [of "fold streaming_call ds []"] streaming_text [of cs] show ?thesis by (auto simp: es_def cs(1))
qed

end
