(* ===== verification/Mv_SequenceState.thy ===== *)
theory Mv_SequenceState
  imports Mv_Sinks
begin

text \<open>
  \<open>SequenceState\<close> of \<open>include/microvllm/sequence_state.hpp\<close> and
  \<open>src/core/sequence_state.cpp\<close>: the per-request generation state machine. The reference
  to the sink is the list of calls made on it (\<open>sq_sink\<close>); \<open>accept\<close> takes what it
  reads from its environment as arguments: the engine's \<open>piece\<close> function and the value
  of \<open>sink_.cancelled()\<close>.
\<close>

section \<open>State and operations\<close>

fun earliest_stop_loop :: "string \<Rightarrow> string list \<Rightarrow> nat option \<Rightarrow> nat option" where
  "earliest_stop_loop txt [] best = best"
| "earliest_stop_loop txt (s # stops) best =
     earliest_stop_loop txt stops (if s = [] then best else npos_min best (str_find s txt))"

definition earliest_stop :: "string \<Rightarrow> string list \<Rightarrow> nat option" where
  "earliest_stop txt stops = earliest_stop_loop txt stops None"

definition max_stop_len :: "string list \<Rightarrow> nat" where
  "max_stop_len stops = fold (\<lambda>s m. max m (length s)) stops 0"

record SequenceState =
  sq_seq :: SeqId
  sq_spec :: RequestSpec
  sq_sink :: "sink_call list"
  sq_prompt :: "Token list"
  sq_holdback :: nat
  sq_prefilled :: nat
  sq_pending :: Token
  sq_text :: string
  sq_emitted :: nat
  sq_usage :: Usage
  sq_reason :: FinishReason
  sq_finished :: bool
  sq_notified :: bool
  sq_error :: string

definition SequenceState_new ::
  "SeqId \<Rightarrow> RequestSpec \<Rightarrow> sink_call list \<Rightarrow> Token list \<Rightarrow> SequenceState" where
  "SequenceState_new seq spec sink toks =
     \<lparr>sq_seq = seq, sq_spec = spec, sq_sink = sink, sq_prompt = toks,
      sq_holdback = max_stop_len (stop spec), sq_prefilled = 0, sq_pending = 0,
      sq_text = [], sq_emitted = 0,
      sq_usage = Usage_default\<lparr>prompt_tokens := u32 (length toks)\<rparr>,
      sq_reason = kUnset, sq_finished = False, sq_notified = False, sq_error = []\<rparr>"

definition feed_pos :: "SequenceState \<Rightarrow> Pos" where
  "feed_pos s =
     i32 (int (length (sq_prompt s))) + i32 (int (completion_tokens (sq_usage s))) - 1"

definition adopt_cached_prefix :: "SequenceState \<Rightarrow> nat \<Rightarrow> SequenceState" where
  "adopt_cached_prefix s n_tokens =
     (let tk = min n_tokens (if sq_prompt s = [] then 0 else length (sq_prompt s) - 1) in
      s\<lparr>sq_prefilled := tk, sq_usage := (sq_usage s)\<lparr>cached_prompt_tokens := u32 tk\<rparr>\<rparr>)"

definition prefill_remaining :: "SequenceState \<Rightarrow> nat" where
  "prefill_remaining s = length (sq_prompt s) - sq_prefilled s"

definition prefilling :: "SequenceState \<Rightarrow> bool" where
  "prefilling s \<longleftrightarrow> prefill_remaining s > 0"

definition take_prefill_chunk :: "SequenceState \<Rightarrow> nat \<Rightarrow> BatchItem \<times> SequenceState" where
  "take_prefill_chunk s budget =
     (let tk = min budget (prefill_remaining s);
          from = sq_prefilled s;
          s' = s\<lparr>sq_prefilled := from + tk\<rparr> in
      (\<lparr>it_seq = sq_seq s, it_tokens = take tk (drop from (sq_prompt s)),
        it_pos0 = i32 (int from), it_sample = (prefill_remaining s' = 0)\<rparr>, s'))"

definition prefill_item :: "SequenceState \<Rightarrow> BatchItem \<times> SequenceState" where
  "prefill_item s = take_prefill_chunk s (length (sq_prompt s))"

definition decode_item :: "SequenceState \<Rightarrow> BatchItem" where
  "decode_item s =
     \<lparr>it_seq = sq_seq s, it_tokens = [sq_pending s], it_pos0 = feed_pos s, it_sample = True\<rparr>"

definition safe_prefix :: "SequenceState \<Rightarrow> nat" where
  "safe_prefix s =
     (if sq_holdback s = 0 then length (sq_text s)
      else if length (sq_text s) \<ge> sq_holdback s - 1
      then length (sq_text s) - (sq_holdback s - 1) else 0)"

definition flush_upto :: "SequenceState \<Rightarrow> nat \<Rightarrow> SequenceState" where
  "flush_upto s up_to =
     (if up_to > sq_emitted s
      then s\<lparr>sq_sink := sq_sink s @ [OnText (take (up_to - sq_emitted s) (drop (sq_emitted s) (sq_text s)))],
             sq_emitted := up_to\<rparr>
      else s)"

definition stop_with :: "SequenceState \<Rightarrow> FinishReason \<Rightarrow> SequenceState" where
  "stop_with s reason = s\<lparr>sq_reason := reason, sq_finished := True\<rparr>"

definition accept ::
  "(Token \<Rightarrow> string) \<Rightarrow> bool \<Rightarrow> SequenceState \<Rightarrow> GenStep \<Rightarrow> bool \<times> SequenceState" where
  "accept piece cancelled s step =
     (if sq_finished s then (False, s)
      else if gs_is_eog step then (False, stop_with s kEos)
      else if completion_tokens (sq_usage s) \<ge> max_tokens (sq_spec s)
      then (False, stop_with s kMaxTokens)
      else
        let s1 = s\<lparr>sq_text := sq_text s @ piece (gs_token step),
                   sq_usage := (sq_usage s)\<lparr>completion_tokens := u32 (completion_tokens (sq_usage s) + 1)\<rparr>\<rparr>
        in case earliest_stop (sq_text s1) (stop (sq_spec s1)) of
             Some stop_at \<Rightarrow> (False, stop_with (flush_upto s1 stop_at) kStopString)
           | None \<Rightarrow>
               let s2 = flush_upto s1 (safe_prefix s1) in
               if cancelled
               then (False, stop_with (flush_upto s2 (length (sq_text s2))) kCancelled)
               else (True, s2\<lparr>sq_pending := gs_token step\<rparr>))"

definition fail :: "SequenceState \<Rightarrow> string \<Rightarrow> FinishReason \<Rightarrow> SequenceState" where
  "fail s message reason = stop_with (s\<lparr>sq_error := message\<rparr>) reason"

definition finish :: "SequenceState \<Rightarrow> SequenceState" where
  "finish s =
     (if sq_notified s then s
      else
        let s1 = s\<lparr>sq_notified := True, sq_finished := True\<rparr> in
        if sq_reason s1 = kError \<or> sq_reason s1 = kContextOverflow
        then s1\<lparr>sq_sink := sq_sink s1 @ [OnError (sq_error s1)]\<rparr>
        else
          let s2 = (if sq_reason s1 = kEos \<or> sq_reason s1 = kMaxTokens
                    then flush_upto s1 (length (sq_text s1)) else s1) in
          s2\<lparr>sq_sink := sq_sink s2 @ [OnFinish (sq_reason s2) (sq_usage s2)]\<rparr>)"

definition emitted_text :: "SequenceState \<Rightarrow> string" where
  "emitted_text s = take (sq_emitted s) (sq_text s)"

section \<open>Stop strings\<close>

lemma earliest_stop_loop_eq:
  "earliest_stop_loop t stops best = npos_min best (earliest_stop_loop t stops None)"
proof (induction stops arbitrary: best)
  case Nil
  then show ?case by simp
next
  case (Cons s stops)
  have assoc: "npos_min (npos_min a b) c = npos_min a (npos_min b c)" for a b c
    by (cases a; cases b; cases c) auto
  show ?case
    using Cons [of best] Cons [of "npos_min best (str_find s t)"] Cons [of "str_find s t"] assoc
    by (cases "s = []") simp_all
qed

lemma earliest_stop_Cons:
  "earliest_stop t (s # stops) =
     (if s = [] then earliest_stop t stops else npos_min (str_find s t) (earliest_stop t stops))"
  using earliest_stop_loop_eq [of t stops "str_find s t"] by (simp add: earliest_stop_def)

text \<open>
  \<open>stop_at t stops i\<close>: some configured (non-empty) stop string occurs in \<open>t\<close> at
  index \<open>i\<close>. The scan returns the least such index.
\<close>

definition stop_at :: "string \<Rightarrow> string list \<Rightarrow> nat \<Rightarrow> bool" where
  "stop_at t stops i \<longleftrightarrow> (\<exists>s\<in>set stops. s \<noteq> [] \<and> occurs_at s t i)"

lemma stop_at_Cons: "stop_at t (s # stops) i \<longleftrightarrow> s \<noteq> [] \<and> occurs_at s t i \<or> stop_at t stops i"
  by (auto simp: stop_at_def)

lemma earliest_stop_None: "earliest_stop t stops = None \<longleftrightarrow> (\<forall>i. \<not> stop_at t stops i)"
proof (induction stops)
  case Nil
  then show ?case by (simp add: earliest_stop_def stop_at_def)
next
  case (Cons s stops)
  have "str_find s t = None \<longleftrightarrow> (\<forall>i. \<not> occurs_at s t i)"
    using str_find_NoneD [of s t] str_find_SomeD [of s t] by (cases "str_find s t") blast+
  with Cons show ?case by (auto simp: earliest_stop_Cons stop_at_Cons)
qed

lemma earliest_stop_SomeD:
  "earliest_stop t stops = Some i \<Longrightarrow> stop_at t stops i \<and> (\<forall>j<i. \<not> stop_at t stops j)"
proof (induction stops arbitrary: i)
  case Nil
  then show ?case by (simp add: earliest_stop_def)
next
  case (Cons s stops)
  show ?case
  proof (cases "s = []")
    case True
    with Cons show ?thesis by (simp add: earliest_stop_Cons stop_at_Cons)
  next
    case False
    show ?thesis
    proof (cases "str_find s t")
      case None
      with Cons False str_find_NoneD [OF None] show ?thesis by (simp add: earliest_stop_Cons stop_at_Cons)
    next
      case (Some a)
      note a = str_find_SomeD [OF Some]
      show ?thesis
      proof (cases "earliest_stop t stops")
        case None
        with Cons.prems False Some a show ?thesis
          by (auto simp: earliest_stop_Cons stop_at_Cons earliest_stop_None)
      next
        case b: (Some b)
        from Cons.prems False Some b have "i = min a b" by (simp add: earliest_stop_Cons)
        with a Cons.IH [OF b] False show ?thesis
          by (auto simp: stop_at_Cons min_def)
      qed
    qed
  qed
qed

lemma max_stop_len_ge: "s \<in> set stops \<Longrightarrow> length s \<le> max_stop_len stops"
proof -
  have "m \<le> fold (\<lambda>s m. max m (length s)) stops m \<and>
      (\<forall>s\<in>set stops. length s \<le> fold (\<lambda>s m. max m (length s)) stops m)" for m
  proof (induction stops arbitrary: m)
    case Nil
    then show ?case by simp
  next
    case (Cons s stops)
    from Cons [of "max m (length s)"] show ?case by auto
  qed
  then show "s \<in> set stops \<Longrightarrow> ?thesis" by (simp add: max_stop_len_def)
qed

text \<open>
  The reason the hold-back is right: with no stop in \<open>t\<close>, a stop that appears once more
  text is appended starts within the last \<open>max_stop_len - 1\<close> bytes of \<open>t\<close> or later.
\<close>

lemma new_stop_is_late:
  assumes "\<And>i. \<not> stop_at t stops i" and "stop_at (t @ p) stops i"
  shows "length t < i + max_stop_len stops"
proof -
  from assms(2) obtain s where s: "s \<in> set stops" "s \<noteq> []" "occurs_at s (t @ p) i"
    by (auto simp: stop_at_def)
  have "\<not> i + length s \<le> length t"
    using assms(1) [of i] occurs_at_appendD [OF s(3)] s(1,2) by (auto simp: stop_at_def)
  with max_stop_len_ge [OF s(1)] show ?thesis by simp
qed

section \<open>The invariant of the state machine\<close>

text \<open>
  \<open>base\<close> is what the sink had received before this sequence existed. The sequence has
  since delivered exactly the first \<open>sq_emitted\<close> bytes of its text, and until it stops
  no stop string occurs in its text and nothing of the hold-back window is delivered.
\<close>

definition text_sent :: "sink_call list \<Rightarrow> SequenceState \<Rightarrow> bool" where
  "text_sent base s \<longleftrightarrow> (\<exists>cs. sq_sink s = base @ cs \<and> list_all is_text cs \<and>
     texts_of cs = take (sq_emitted s) (sq_text s))"

definition response_sent :: "sink_call list \<Rightarrow> SequenceState \<Rightarrow> bool" where
  "response_sent base s \<longleftrightarrow> (\<exists>cs. sq_sink s = base @ cs \<and> protocol_complete cs \<and>
     texts_of cs = take (sq_emitted s) (sq_text s))"

definition running_inv :: "SequenceState \<Rightarrow> bool" where
  "running_inv s \<longleftrightarrow>
     sq_reason s = kUnset \<and> (\<forall>i. \<not> stop_at (sq_text s) (stop (sq_spec s)) i) \<and>
     (sq_emitted s = 0 \<or> sq_emitted s + sq_holdback s \<le> Suc (length (sq_text s)) \<or> sq_holdback s = 0)"

text \<open>
  Once stopped: a stop string cut the text exactly at its first occurrence; otherwise no
  stop string occurs, and a cancelled or cleanly finished response is delivered whole.
\<close>

definition stopped_inv :: "SequenceState \<Rightarrow> bool" where
  "stopped_inv s \<longleftrightarrow>
     sq_reason s \<noteq> kUnset \<and>
     (if sq_reason s = kStopString
      then earliest_stop (sq_text s) (stop (sq_spec s)) = Some (sq_emitted s)
      else (\<forall>i. \<not> stop_at (sq_text s) (stop (sq_spec s)) i)) \<and>
     (sq_reason s = kCancelled \<longrightarrow> sq_emitted s = length (sq_text s)) \<and>
     (sq_notified s \<longrightarrow> sq_reason s \<in> {kEos, kMaxTokens} \<longrightarrow> sq_emitted s = length (sq_text s))"

definition seq_inv :: "sink_call list \<Rightarrow> SequenceState \<Rightarrow> bool" where
  "seq_inv base s \<longleftrightarrow>
     max_tokens (sq_spec s) < 4294967296 \<and>
     sq_holdback s = max_stop_len (stop (sq_spec s)) \<and>
     sq_prefilled s \<le> length (sq_prompt s) \<and>
     prompt_tokens (sq_usage s) = u32 (length (sq_prompt s)) \<and>
     completion_tokens (sq_usage s) \<le> max_tokens (sq_spec s) \<and>
     sq_emitted s \<le> length (sq_text s) \<and>
     (if sq_notified s then response_sent base s else text_sent base s) \<and>
     (sq_notified s \<longrightarrow> sq_finished s) \<and>
     (if sq_finished s then stopped_inv s else running_inv s)"

lemmas seq_inv_defs = seq_inv_def running_inv_def stopped_inv_def

lemma stop_at_Nil: "\<not> stop_at [] stops i"
  by (auto simp: stop_at_def occurs_at_def)

lemma seq_inv_new [mv_inv]:
  "max_tokens spec < 4294967296 \<Longrightarrow> seq_inv base (SequenceState_new seq spec base toks)"
  by (simp add: seq_inv_defs SequenceState_new_def Usage_default_def text_sent_def stop_at_Nil)

subsection \<open>Delivery\<close>

lemma text_sent_flush:
  assumes "text_sent base s" and "sq_emitted s \<le> length (sq_text s)"
  shows "text_sent base (flush_upto s n)"
proof -
  from assms(1) obtain cs where cs: "sq_sink s = base @ cs" "list_all is_text cs"
    "texts_of cs = take (sq_emitted s) (sq_text s)" by (auto simp: text_sent_def)
  have "take e t @ take (n - e) (drop e t) = take n t" if "e < n" for e and t :: string
    using that by (metis add_diff_inverse_nat not_less_iff_gr_or_eq take_add)
  with cs show ?thesis
    by (auto simp: text_sent_def flush_upto_def intro!: exI [of _ "cs @ [OnText (take (n - sq_emitted s) (drop (sq_emitted s) (sq_text s)))]"])
qed

lemma flush_upto_emitted [simp]: "sq_emitted (flush_upto s n) = max (sq_emitted s) n"
  by (simp add: flush_upto_def max_def)

lemma flush_upto_frame [simp, mv_frame]:
  "sq_text (flush_upto s n) = sq_text s" "sq_spec (flush_upto s n) = sq_spec s"
  "sq_seq (flush_upto s n) = sq_seq s" "sq_prompt (flush_upto s n) = sq_prompt s"
  "sq_holdback (flush_upto s n) = sq_holdback s" "sq_prefilled (flush_upto s n) = sq_prefilled s"
  "sq_usage (flush_upto s n) = sq_usage s" "sq_reason (flush_upto s n) = sq_reason s"
  "sq_finished (flush_upto s n) = sq_finished s" "sq_notified (flush_upto s n) = sq_notified s"
  "sq_pending (flush_upto s n) = sq_pending s" "sq_error (flush_upto s n) = sq_error s"
  by (simp_all add: flush_upto_def)

lemma stop_with_frame [simp, mv_frame]:
  "sq_text (stop_with s r) = sq_text s" "sq_spec (stop_with s r) = sq_spec s"
  "sq_seq (stop_with s r) = sq_seq s" "sq_prompt (stop_with s r) = sq_prompt s"
  "sq_holdback (stop_with s r) = sq_holdback s" "sq_prefilled (stop_with s r) = sq_prefilled s"
  "sq_usage (stop_with s r) = sq_usage s" "sq_emitted (stop_with s r) = sq_emitted s"
  "sq_finished (stop_with s r)" "sq_reason (stop_with s r) = r"
  "sq_notified (stop_with s r) = sq_notified s" "sq_sink (stop_with s r) = sq_sink s"
  by (simp_all add: stop_with_def)

lemma text_sent_cong:
  "sq_sink s' = sq_sink s \<Longrightarrow> sq_emitted s' = sq_emitted s \<Longrightarrow> sq_text s' = sq_text s \<Longrightarrow>
   text_sent base s' = text_sent base s"
  by (simp add: text_sent_def)

lemma text_sent_stop_with [simp]: "text_sent base (stop_with s r) = text_sent base s"
  by (rule text_sent_cong) simp_all

lemma text_sent_append:
  "text_sent base s \<Longrightarrow> sq_emitted s \<le> length (sq_text s) \<Longrightarrow> text_sent base (s\<lparr>sq_text := sq_text s @ p, sq_usage := u\<rparr>)"
  by (simp add: text_sent_def)

subsection \<open>\<open>accept\<close>\<close>

text \<open>The state after the token's text is appended and counted.\<close>

definition consumed :: "(Token \<Rightarrow> string) \<Rightarrow> SequenceState \<Rightarrow> GenStep \<Rightarrow> SequenceState" where
  "consumed piece s step =
     s\<lparr>sq_text := sq_text s @ piece (gs_token step),
       sq_usage := (sq_usage s)\<lparr>completion_tokens := u32 (completion_tokens (sq_usage s) + 1)\<rparr>\<rparr>"

lemma accept_cases:
  obtains
    (finished) "sq_finished s" "accept piece cxl s step = (False, s)"
  | (eos) "\<not> sq_finished s" "gs_is_eog step" "accept piece cxl s step = (False, stop_with s kEos)"
  | (budget) "\<not> sq_finished s" "\<not> gs_is_eog step"
      "completion_tokens (sq_usage s) \<ge> max_tokens (sq_spec s)"
      "accept piece cxl s step = (False, stop_with s kMaxTokens)"
  | (stopped) i where "\<not> sq_finished s" "\<not> gs_is_eog step"
      "completion_tokens (sq_usage s) < max_tokens (sq_spec s)"
      "earliest_stop (sq_text s @ piece (gs_token step)) (stop (sq_spec s)) = Some i"
      "accept piece cxl s step = (False, stop_with (flush_upto (consumed piece s step) i) kStopString)"
  | (cancelled) "\<not> sq_finished s" "\<not> gs_is_eog step" "cxl"
      "completion_tokens (sq_usage s) < max_tokens (sq_spec s)"
      "earliest_stop (sq_text s @ piece (gs_token step)) (stop (sq_spec s)) = None"
      "accept piece cxl s step =
        (False, stop_with (flush_upto (flush_upto (consumed piece s step) (safe_prefix (consumed piece s step)))
          (length (sq_text (consumed piece s step)))) kCancelled)"
  | (continue) "\<not> sq_finished s" "\<not> gs_is_eog step" "\<not> cxl"
      "completion_tokens (sq_usage s) < max_tokens (sq_spec s)"
      "earliest_stop (sq_text s @ piece (gs_token step)) (stop (sq_spec s)) = None"
      "accept piece cxl s step =
        (True, (flush_upto (consumed piece s step) (safe_prefix (consumed piece s step)))\<lparr>sq_pending := gs_token step\<rparr>)"
proof (cases "sq_finished s")
  case True
  then show thesis by (intro finished) (simp_all add: accept_def)
next
  case nf: False
  show thesis
  proof (cases "gs_is_eog step")
    case True
    with nf show thesis by (intro eos) (simp_all add: accept_def)
  next
    case ne: False
    show thesis
    proof (cases "completion_tokens (sq_usage s) \<ge> max_tokens (sq_spec s)")
      case True
      with nf ne show thesis by (intro budget) (simp_all add: accept_def)
    next
      case False
      then have lt: "completion_tokens (sq_usage s) < max_tokens (sq_spec s)" by simp
      show thesis
      proof (cases "earliest_stop (sq_text s @ piece (gs_token step)) (stop (sq_spec s))")
        case (Some i)
        with nf ne lt show thesis
          by (intro stopped [of i]) (simp_all add: accept_def consumed_def Let_def)
      next
        case None
        show thesis
        proof (cases cxl)
          case True
          with None nf ne lt show thesis
            by (intro cancelled) (simp_all add: accept_def consumed_def Let_def)
        next
          case False
          with None nf ne lt show thesis
            by (intro continue) (simp_all add: accept_def consumed_def Let_def)
        qed
      qed
    qed
  qed
qed

lemma consumed_frame [simp, mv_frame]:
  "sq_text (consumed piece s step) = sq_text s @ piece (gs_token step)"
  "sq_spec (consumed piece s step) = sq_spec s" "sq_emitted (consumed piece s step) = sq_emitted s"
  "sq_seq (consumed piece s step) = sq_seq s" "sq_prompt (consumed piece s step) = sq_prompt s"
  "sq_holdback (consumed piece s step) = sq_holdback s" "sq_prefilled (consumed piece s step) = sq_prefilled s"
  "sq_reason (consumed piece s step) = sq_reason s" "sq_finished (consumed piece s step) = sq_finished s"
  "sq_notified (consumed piece s step) = sq_notified s" "sq_sink (consumed piece s step) = sq_sink s"
  "prompt_tokens (sq_usage (consumed piece s step)) = prompt_tokens (sq_usage s)"
  "cached_prompt_tokens (sq_usage (consumed piece s step)) = cached_prompt_tokens (sq_usage s)"
  by (simp_all add: consumed_def)

lemma consumed_completion:
  "completion_tokens (sq_usage s) < max_tokens (sq_spec s) \<Longrightarrow> max_tokens (sq_spec s) < 4294967296 \<Longrightarrow>
   completion_tokens (sq_usage (consumed piece s step)) = completion_tokens (sq_usage s) + 1"
  by (simp add: consumed_def u32_id)

lemma text_sent_consumed:
  "text_sent base s \<Longrightarrow> sq_emitted s \<le> length (sq_text s) \<Longrightarrow> text_sent base (consumed piece s step)"
  by (simp add: consumed_def text_sent_append)

lemma safe_prefix_le: "safe_prefix s \<le> length (sq_text s)"
  by (auto simp: safe_prefix_def)

lemma safe_prefix_window:
  "safe_prefix s = 0 \<or> safe_prefix s + sq_holdback s \<le> Suc (length (sq_text s)) \<or> sq_holdback s = 0"
  by (auto simp: safe_prefix_def)

text \<open>Nothing has been delivered from beyond the point where a new stop begins.\<close>

lemma emitted_before_stop:
  assumes inv: "seq_inv base s" and nf: "\<not> sq_finished s"
    and stop: "earliest_stop (sq_text s @ p) (stop (sq_spec s)) = Some i"
  shows "sq_emitted s \<le> i" and "i \<le> length (sq_text s @ p)"
proof -
  from inv nf have H: "sq_holdback s = max_stop_len (stop (sq_spec s))" and run: "running_inv s"
    and le: "sq_emitted s \<le> length (sq_text s)"
    by (simp_all add: seq_inv_def)
  note at = earliest_stop_SomeD [OF stop, THEN conjunct1]
  from run have "\<And>j. \<not> stop_at (sq_text s) (stop (sq_spec s)) j" by (simp add: running_inv_def)
  from new_stop_is_late [OF this at] have "length (sq_text s) < i + sq_holdback s" by (simp add: H)
  with run le show "sq_emitted s \<le> i" by (auto simp: running_inv_def)
  from at show "i \<le> length (sq_text s @ p)" by (auto simp: stop_at_def occurs_at_def)
qed

lemma accept_inv [mv_inv]:
  assumes inv: "seq_inv base s" and nn: "\<not> sq_notified s"
  shows "seq_inv base (snd (accept piece cxl s step))"
proof (cases rule: accept_cases [of s piece cxl step])
  case finished
  with inv show ?thesis by simp
next
  case eos
  with inv nn show ?thesis by (simp add: seq_inv_defs)
next
  case budget
  with inv nn show ?thesis by (simp add: seq_inv_defs)
next
  case (stopped i)
  note le = emitted_before_stop [OF inv stopped(1,4)]
  with stopped inv nn show ?thesis
    by (simp add: seq_inv_def stopped_inv_def consumed_completion text_sent_flush text_sent_consumed max_absorb2)
next
  case cancelled
  with inv nn safe_prefix_le [of "consumed piece s step"] show ?thesis
    by (simp add: seq_inv_def stopped_inv_def consumed_completion text_sent_flush text_sent_consumed earliest_stop_None max_def)
next
  case continue
  have *: "text_sent base (s'\<lparr>sq_pending := t\<rparr>) = text_sent base s'" for s' t
    by (rule text_sent_cong) simp_all
  have "running_inv (snd (accept piece cxl s step))"
    using inv continue safe_prefix_window [of "consumed piece s step"]
    by (auto simp: seq_inv_def running_inv_def earliest_stop_None max_def)
  with continue inv nn safe_prefix_le [of "consumed piece s step"] show ?thesis
    by (simp add: seq_inv_def consumed_completion text_sent_flush text_sent_consumed *)
qed

lemma accept_frame [mv_frame]:
  "sq_seq (snd (accept piece cxl s step)) = sq_seq s"
  "sq_spec (snd (accept piece cxl s step)) = sq_spec s"
  "sq_prompt (snd (accept piece cxl s step)) = sq_prompt s"
  "sq_prefilled (snd (accept piece cxl s step)) = sq_prefilled s"
  "sq_notified (snd (accept piece cxl s step)) = sq_notified s"
  "prompt_tokens (sq_usage (snd (accept piece cxl s step))) = prompt_tokens (sq_usage s)"
  by (cases rule: accept_cases [of s piece cxl step]; simp)+

text \<open>\<open>accept\<close> answers whether the sequence goes on.\<close>

lemma accept_finished: "fst (accept piece cxl s step) \<longleftrightarrow> \<not> sq_finished (snd (accept piece cxl s step))"
  by (cases rule: accept_cases [of s piece cxl step]) simp_all

lemma accept_progress:
  assumes "accept piece cxl s step = (True, s')" and "max_tokens (sq_spec s) < 4294967296"
  shows "completion_tokens (sq_usage s') = completion_tokens (sq_usage s) + 1"
    and "completion_tokens (sq_usage s) < max_tokens (sq_spec s)"
    and "sq_text s' = sq_text s @ piece (gs_token step)" and "sq_pending s' = gs_token step"
  using assms by (cases rule: accept_cases [of s piece cxl step]; auto simp: consumed_completion)+

subsection \<open>\<open>fail\<close> and \<open>finish\<close>\<close>

lemma fail_inv [mv_inv]:
  assumes "seq_inv base s" and "\<not> sq_finished s" and "r \<in> {kError, kContextOverflow}"
  shows "seq_inv base (fail s m r)"
proof -
  have "text_sent base (s\<lparr>sq_error := m\<rparr>) = text_sent base s" by (rule text_sent_cong) simp_all
  with assms show ?thesis by (auto simp: seq_inv_defs fail_def)
qed

lemma response_sent_snoc:
  assumes "text_sent base s" and "\<not> is_text c" and "delta_of c = []"
    and "sq_sink s' = sq_sink s @ [c]" and "sq_emitted s' = sq_emitted s" and "sq_text s' = sq_text s"
  shows "response_sent base s'"
proof -
  from assms(1) obtain cs where "sq_sink s = base @ cs" "list_all is_text cs"
    "texts_of cs = take (sq_emitted s) (sq_text s)" by (auto simp: text_sent_def)
  with assms show ?thesis
    by (auto simp: response_sent_def protocol_complete_def intro!: exI [of _ "cs @ [c]"])
qed

lemma finish_notified [simp]: "sq_notified s \<Longrightarrow> finish s = s"
  by (simp add: finish_def)

lemma finish_frame [simp, mv_frame]:
  "sq_seq (finish s) = sq_seq s" "sq_spec (finish s) = sq_spec s" "sq_prompt (finish s) = sq_prompt s"
  "sq_usage (finish s) = sq_usage s" "sq_reason (finish s) = sq_reason s" "sq_text (finish s) = sq_text s"
  "sq_error (finish s) = sq_error s" "sq_prefilled (finish s) = sq_prefilled s"
  "sq_holdback (finish s) = sq_holdback s" "sq_notified (finish s)"
  by (simp_all add: finish_def Let_def)

lemma finish_finished [simp]: "\<not> sq_notified s \<Longrightarrow> sq_finished (finish s)"
  by (simp add: finish_def Let_def)

lemma finish_idem: "finish (finish s) = finish s"
  by simp

lemma finish_inv [mv_inv]:
  assumes inv: "seq_inv base s" and fin: "sq_finished s"
  shows "seq_inv base (finish s)"
proof (cases "sq_notified s")
  case True
  with inv show ?thesis by simp
next
  case nn: False
  let ?s1 = "s\<lparr>sq_notified := True, sq_finished := True\<rparr>"
  let ?s2 = "if sq_reason s = kEos \<or> sq_reason s = kMaxTokens then flush_upto ?s1 (length (sq_text s)) else ?s1"
  from inv nn have sent: "text_sent base s" and le: "sq_emitted s \<le> length (sq_text s)"
    by (simp_all add: seq_inv_def)
  have "text_sent base ?s1 = text_sent base s" by (rule text_sent_cong) simp_all
  with sent le have sent2: "text_sent base ?s2" by (simp add: text_sent_flush)
  show ?thesis
  proof (cases "sq_reason s = kError \<or> sq_reason s = kContextOverflow")
    case True
    with nn have eq: "finish s = ?s1\<lparr>sq_sink := sq_sink s @ [OnError (sq_error s)]\<rparr>"
      by (simp add: finish_def Let_def)
    have "response_sent base (finish s)"
      by (rule response_sent_snoc [OF sent, of "OnError (sq_error s)"]) (simp_all add: eq)
    with inv fin True show ?thesis by (auto simp: seq_inv_def stopped_inv_def eq)
  next
    case False
    with nn have eq: "finish s = ?s2\<lparr>sq_sink := sq_sink ?s2 @ [OnFinish (sq_reason ?s2) (sq_usage ?s2)]\<rparr>"
      by (simp add: finish_def Let_def)
    have "response_sent base (finish s)"
      by (rule response_sent_snoc [OF sent2, of "OnFinish (sq_reason ?s2) (sq_usage ?s2)"]) (simp_all add: eq)
    with inv fin False le show ?thesis by (auto simp: seq_inv_def stopped_inv_def eq max_def)
  qed
qed

subsection \<open>Prefill\<close>

lemma take_prefill_chunk_frame [simp, mv_frame]:
  "sq_seq (snd (take_prefill_chunk s n)) = sq_seq s" "sq_spec (snd (take_prefill_chunk s n)) = sq_spec s"
  "sq_prompt (snd (take_prefill_chunk s n)) = sq_prompt s" "sq_usage (snd (take_prefill_chunk s n)) = sq_usage s"
  "sq_text (snd (take_prefill_chunk s n)) = sq_text s" "sq_emitted (snd (take_prefill_chunk s n)) = sq_emitted s"
  "sq_finished (snd (take_prefill_chunk s n)) = sq_finished s" "sq_notified (snd (take_prefill_chunk s n)) = sq_notified s"
  "sq_reason (snd (take_prefill_chunk s n)) = sq_reason s" "sq_sink (snd (take_prefill_chunk s n)) = sq_sink s"
  "sq_holdback (snd (take_prefill_chunk s n)) = sq_holdback s"
  by (simp_all add: take_prefill_chunk_def Let_def)

lemma take_prefill_chunk_prefilled:
  "sq_prefilled (snd (take_prefill_chunk s n)) = sq_prefilled s + min n (prefill_remaining s)"
  by (simp add: take_prefill_chunk_def Let_def)

text \<open>The invariant depends on the prefill position only through its bound.\<close>

lemma seq_inv_frame:
  assumes inv: "seq_inv base s" and "sq_prefilled s' \<le> length (sq_prompt s)"
    and eqs: "sq_spec s' = sq_spec s" "sq_holdback s' = sq_holdback s" "sq_prompt s' = sq_prompt s"
      "sq_text s' = sq_text s" "sq_emitted s' = sq_emitted s" "sq_reason s' = sq_reason s"
      "sq_finished s' = sq_finished s" "sq_notified s' = sq_notified s" "sq_sink s' = sq_sink s"
      "prompt_tokens (sq_usage s') = prompt_tokens (sq_usage s)"
      "completion_tokens (sq_usage s') = completion_tokens (sq_usage s)"
  shows "seq_inv base s'"
proof -
  have "running_inv s' = running_inv s" "stopped_inv s' = stopped_inv s"
    "text_sent base s' = text_sent base s" "response_sent base s' = response_sent base s"
    by (simp_all add: running_inv_def stopped_inv_def text_sent_def response_sent_def eqs)
  with assms show ?thesis by (simp add: seq_inv_def)
qed

lemma seq_inv_prefilled: "seq_inv base s \<Longrightarrow> sq_prefilled s \<le> length (sq_prompt s)"
  by (simp add: seq_inv_def)

lemma take_prefill_chunk_inv [mv_inv]:
  "seq_inv base s \<Longrightarrow> seq_inv base (snd (take_prefill_chunk s n))"
proof -
  assume inv: "seq_inv base s"
  from seq_inv_prefilled [OF inv]
  have "sq_prefilled (snd (take_prefill_chunk s n)) \<le> length (sq_prompt s)"
    by (auto simp: take_prefill_chunk_prefilled prefill_remaining_def min_def)
  with inv show ?thesis by (rule seq_inv_frame) simp_all
qed

lemma adopt_cached_prefix_frame [simp, mv_frame]:
  "sq_seq (adopt_cached_prefix s n) = sq_seq s" "sq_spec (adopt_cached_prefix s n) = sq_spec s"
  "sq_prompt (adopt_cached_prefix s n) = sq_prompt s" "sq_text (adopt_cached_prefix s n) = sq_text s"
  "sq_emitted (adopt_cached_prefix s n) = sq_emitted s" "sq_finished (adopt_cached_prefix s n) = sq_finished s"
  "sq_notified (adopt_cached_prefix s n) = sq_notified s" "sq_reason (adopt_cached_prefix s n) = sq_reason s"
  "sq_sink (adopt_cached_prefix s n) = sq_sink s" "sq_holdback (adopt_cached_prefix s n) = sq_holdback s"
  "prompt_tokens (sq_usage (adopt_cached_prefix s n)) = prompt_tokens (sq_usage s)"
  "completion_tokens (sq_usage (adopt_cached_prefix s n)) = completion_tokens (sq_usage s)"
  by (simp_all add: adopt_cached_prefix_def Let_def)

lemma adopt_cached_prefix_prefilled:
  "sq_prefilled (adopt_cached_prefix s n) = min n (length (sq_prompt s) - 1)"
  by (simp add: adopt_cached_prefix_def Let_def)

lemma adopt_cached_prefix_inv [mv_inv]:
  "seq_inv base s \<Longrightarrow> seq_inv base (adopt_cached_prefix s n)"
  by (elim seq_inv_frame) (auto simp: adopt_cached_prefix_prefilled min_def)

text \<open>A run of prefill chunks under a list of budgets.\<close>

fun prefill_run :: "SequenceState \<Rightarrow> nat list \<Rightarrow> BatchItem list \<times> SequenceState" where
  "prefill_run s [] = ([], s)"
| "prefill_run s (b # bs) =
     (let (it, s') = take_prefill_chunk s b; (its, s'') = prefill_run s' bs in (it # its, s''))"

text \<open>Items that sit one after the other in a sequence's KV cache, from position \<open>p\<close>.\<close>

fun contiguous :: "int \<Rightarrow> BatchItem list \<Rightarrow> bool" where
  "contiguous p [] = True"
| "contiguous p (it # its) \<longleftrightarrow> it_pos0 it = p \<and> contiguous (p + int (length (it_tokens it))) its"

lemma contiguous_append:
  "contiguous p (xs @ ys) \<longleftrightarrow>
     contiguous p xs \<and> contiguous (p + int (length (concat (map it_tokens xs)))) ys"
  by (induction xs arbitrary: p) (auto simp: algebra_simps)

lemma take_prefill_chunk_item:
  "it_tokens (fst (take_prefill_chunk s n)) = take n (drop (sq_prefilled s) (sq_prompt s))"
  "it_seq (fst (take_prefill_chunk s n)) = sq_seq s"
  "it_pos0 (fst (take_prefill_chunk s n)) = i32 (int (sq_prefilled s))"
  "it_sample (fst (take_prefill_chunk s n)) \<longleftrightarrow> prefill_remaining s \<le> n"
  by (auto simp: take_prefill_chunk_def Let_def prefill_remaining_def min_def)

lemma prefill_run_spec:
  assumes "prefill_run s bs = (its, s')" and "sq_prefilled s \<le> length (sq_prompt s)"
    and "length (sq_prompt s) < 2147483648"
  shows "concat (map it_tokens its) = take (sum_list bs) (drop (sq_prefilled s) (sq_prompt s)) \<and>
    contiguous (int (sq_prefilled s)) its \<and>
    sq_prefilled s' = min (length (sq_prompt s)) (sq_prefilled s + sum_list bs)"
  using assms
proof (induction bs arbitrary: s its)
  case Nil
  then show ?case by simp
next
  case (Cons b bs)
  obtain it s1 where c: "take_prefill_chunk s b = (it, s1)" by (cases "take_prefill_chunk s b")
  obtain its1 s2 where r: "prefill_run s1 bs = (its1, s2)" by (cases "prefill_run s1 bs")
  from Cons.prems(1) have eq: "its = it # its1" "s2 = s'" by (simp_all add: c r)
  note item = take_prefill_chunk_item [of s b, unfolded c fst_conv]
  note prompt = take_prefill_chunk_frame(3) [of s b, unfolded c snd_conv]
  have pre: "sq_prefilled s1 = min (length (sq_prompt s)) (sq_prefilled s + b)"
    using take_prefill_chunk_prefilled [of s b] c Cons.prems(2) by (auto simp: prefill_remaining_def min_def)
  then have "sq_prefilled s1 \<le> length (sq_prompt s1)" "length (sq_prompt s1) < 2147483648"
    using Cons.prems(3) by (simp_all add: prompt)
  note IH = Cons.IH [OF r [unfolded eq] this]
  have "take b (drop f p) @ take n (drop (min (length p) (f + b)) p) = take (b + n) (drop f p)"
    for f n and p :: "Token list"
    by (simp add: take_add add.commute min_def)
  moreover have "int (sq_prefilled s) + int (length (it_tokens it)) = int (sq_prefilled s1)"
    using Cons.prems(2) by (auto simp: item pre min_def)
  ultimately show ?case
    using IH Cons.prems(2,3) by (simp add: eq item prompt pre i32_id)
qed

section \<open>The response against its specification\<close>

text \<open>What a client must receive for a generated text: everything before the first stop.\<close>

definition response_spec :: "string \<Rightarrow> string list \<Rightarrow> string" where
  "response_spec t stops = (case earliest_stop t stops of None \<Rightarrow> t | Some i \<Rightarrow> take i t)"

lemma response_spec_no_stop: "\<not> stop_at (response_spec t stops) stops i"
proof (cases "earliest_stop t stops")
  case None
  then have "response_spec t stops = t" by (simp add: response_spec_def)
  with None show ?thesis by (simp add: earliest_stop_None)
next
  case (Some k)
  show ?thesis
  proof
    assume "stop_at (response_spec t stops) stops i"
    then obtain s where s: "s \<in> set stops" "s \<noteq> []" "occurs_at s (take k t) i"
      using Some by (auto simp: response_spec_def stop_at_def)
    then have "0 < length s" "i + length s \<le> k" using occurs_at_length [OF s(3)] by simp_all
    then have "i < k" by linarith
    moreover have "occurs_at s t i" using occurs_at_append [OF s(3), of "drop k t"] by simp
    ultimately show False
      using earliest_stop_SomeD [OF Some] s(1,2) by (auto simp: stop_at_def)
  qed
qed

lemma finished_response:
  assumes "seq_inv base s" and "sq_notified s" and "sq_reason s \<notin> {kError, kContextOverflow}"
  shows "emitted_text s = response_spec (sq_text s) (stop (sq_spec s))"
proof (cases "sq_reason s = kStopString")
  case True
  with assms have "earliest_stop (sq_text s) (stop (sq_spec s)) = Some (sq_emitted s)"
    by (auto simp: seq_inv_def stopped_inv_def)
  then show ?thesis by (simp add: response_spec_def emitted_text_def)
next
  case False
  with assms have "earliest_stop (sq_text s) (stop (sq_spec s)) = None"
    and "sq_emitted s = length (sq_text s)"
    by (cases "sq_reason s"; auto simp: seq_inv_def stopped_inv_def earliest_stop_None)+
  then show ?thesis by (simp add: response_spec_def emitted_text_def)
qed

lemma finished_sink:
  assumes "seq_inv base s" and "sq_notified s"
  obtains cs where "sq_sink s = base @ cs" "protocol_complete cs" "texts_of cs = emitted_text s"
  using assms by (auto simp: seq_inv_def response_sent_def emitted_text_def)

section \<open>Driving a sequence\<close>

text \<open>Any tokens, with the answer of the cancellation poll at each of them.\<close>

definition accept_run ::
  "(Token \<Rightarrow> string) \<Rightarrow> (GenStep \<times> bool) list \<Rightarrow> SequenceState \<Rightarrow> SequenceState" where
  "accept_run piece steps s = fold (\<lambda>(step, cxl) s. snd (accept piece cxl s step)) steps s"

lemma accept_reason:
  "sq_reason s \<notin> {kError, kContextOverflow} \<Longrightarrow> sq_reason (snd (accept piece cxl s step)) \<notin> {kError, kContextOverflow}"
  by (cases rule: accept_cases [of s piece cxl step]) simp_all

lemma accept_run_inv:
  assumes "seq_inv base s" and "\<not> sq_notified s" and "sq_reason s \<notin> {kError, kContextOverflow}"
  shows "seq_inv base (accept_run piece steps s) \<and> \<not> sq_notified (accept_run piece steps s) \<and>
    sq_spec (accept_run piece steps s) = sq_spec s \<and> sq_reason (accept_run piece steps s) \<notin> {kError, kContextOverflow}"
  using assms
proof (induction steps arbitrary: s)
  case Nil
  then show ?case by (simp add: accept_run_def)
next
  case (Cons x steps)
  obtain step cxl where x: "x = (step, cxl)" by (cases x)
  let ?s = "snd (accept piece cxl s step)"
  from Cons.IH [of ?s] accept_inv [OF Cons.prems(1,2)] accept_reason [OF Cons.prems(3)] Cons.prems(2)
  show ?case by (simp add: accept_run_def x accept_frame)
qed

lemma new_run_inv:
  fixes st piece steps seq base toks
  assumes "max_tokens spec < 4294967296"
  defines "st \<equiv> accept_run piece steps (SequenceState_new seq spec base toks)"
  shows "seq_inv base st" and "\<not> sq_notified st" and "sq_spec st = spec" and "sq_reason st \<notin> {kError, kContextOverflow}"
  using accept_run_inv [OF seq_inv_new [OF assms(1), of base seq toks], of piece steps]
  by (simp_all add: st_def SequenceState_new_def)

lemma accept_run_response:
  assumes "max_tokens spec < 4294967296"
    and "sq_finished (accept_run piece steps (SequenceState_new seq spec [] toks))"
  shows "protocol_complete (sq_sink (finish (accept_run piece steps (SequenceState_new seq spec [] toks)))) \<and>
    texts_of (sq_sink (finish (accept_run piece steps (SequenceState_new seq spec [] toks)))) =
      response_spec (sq_text (finish (accept_run piece steps (SequenceState_new seq spec [] toks)))) (stop spec)"
proof -
  let ?r = "accept_run piece steps (SequenceState_new seq spec [] toks)"
  note R = new_run_inv [OF assms(1), where piece = piece and steps = steps and seq = seq and base = "[]" and toks = toks]
  note inv = finish_inv [OF R(1) assms(2)]
  have n: "sq_notified (finish ?r)" by simp
  from finished_sink [OF inv n] have "protocol_complete (sq_sink (finish ?r))" "texts_of (sq_sink (finish ?r)) = emitted_text (finish ?r)"
    by auto
  moreover have "emitted_text (finish ?r) = response_spec (sq_text (finish ?r)) (stop (sq_spec (finish ?r)))"
    using R(4) by (intro finished_response [OF inv n]) simp
  ultimately show ?thesis using R(3) by simp
qed

text \<open>What has been sent stays below every stop that can still appear.\<close>

lemma accept_run_prefix:
  assumes "max_tokens spec < 4294967296"
    and nf: "\<not> sq_finished (accept_run piece steps (SequenceState_new seq spec [] toks))"
  shows "prefix (texts_of (sq_sink (accept_run piece steps (SequenceState_new seq spec [] toks))))
    (response_spec (sq_text (accept_run piece steps (SequenceState_new seq spec [] toks)) @ rest) (stop spec))"
proof -
  let ?r = "accept_run piece steps (SequenceState_new seq spec [] toks)"
  note R = new_run_inv [OF assms(1), where piece = piece and steps = steps and seq = seq and base = "[]" and toks = toks]
  have sent: "texts_of (sq_sink ?r) = take (sq_emitted ?r) (sq_text ?r)" and em: "sq_emitted ?r \<le> length (sq_text ?r)"
    using R(1,2) by (auto simp: seq_inv_def text_sent_def)
  show ?thesis
  proof (cases "earliest_stop (sq_text ?r @ rest) (stop spec)")
    case None
    then show ?thesis by (simp add: response_spec_def sent take_is_prefix prefix_order.trans [OF take_is_prefix])
  next
    case (Some i)
    with emitted_before_stop [OF R(1) nf, of rest i] R(3) have "sq_emitted ?r \<le> i" by simp
    then have "take (sq_emitted ?r) (sq_text ?r) = take (sq_emitted ?r) (take i (sq_text ?r @ rest))"
      using em by (simp add: min_absorb1)
    then have "prefix (take (sq_emitted ?r) (sq_text ?r)) (take i (sq_text ?r @ rest))" by (metis take_is_prefix)
    then show ?thesis unfolding sent response_spec_def Some option.case .
  qed
qed

lemma prefill_run_prompt: "prefill_run s bs = (its, s') \<Longrightarrow> sq_prompt s' = sq_prompt s"
proof (induction bs arbitrary: s its s')
  case Nil
  then show ?case by simp
next
  case (Cons b bs)
  obtain it s1 where t: "take_prefill_chunk s b = (it, s1)" by (cases "take_prefill_chunk s b")
  obtain its2 s2 where r: "prefill_run s1 bs = (its2, s2)" by (cases "prefill_run s1 bs")
  have "sq_prompt s1 = sq_prompt s" using take_prefill_chunk_frame(3) [of s b] by (simp add: t)
  with Cons.IH [OF r] Cons.prems show ?case by (simp add: t r)
qed

end
