(* ===== verification/Mv_Timing.thy ===== *)
theory Mv_Timing
  imports Mv_Types
begin

text \<open>
  \<open>include/microvllm/timing.hpp\<close> and \<open>include/microvllm/latency_histogram.hpp\<close>. A
  \<open>TimePoint\<close> is the clock's count of nanoseconds; a \<open>double\<close> is the rational number
  it stands for, so rounding of floating-point operations is not modelled. The atomic
  counters are plain values: only the scheduler thread writes them.
\<close>

section \<open>\<open>RequestTiming\<close>\<close>

type_synonym TimePoint = int

record RequestTiming =
  tm_enqueued :: TimePoint
  tm_admitted :: "TimePoint option"
  tm_first_token :: "TimePoint option"
  tm_finished :: "TimePoint option"

definition RequestTiming_default :: RequestTiming where
  "RequestTiming_default =
     \<lparr>tm_enqueued = 0, tm_admitted = None, tm_first_token = None, tm_finished = None\<rparr>"

definition ms :: "TimePoint \<Rightarrow> TimePoint \<Rightarrow> rat" where
  "ms a b = of_int (b - a) / 1000000"

definition queue_wait_ms :: "RequestTiming \<Rightarrow> rat" where
  "queue_wait_ms t = (case tm_admitted t of Some a \<Rightarrow> ms (tm_enqueued t) a | None \<Rightarrow> 0)"

definition ttft_ms :: "RequestTiming \<Rightarrow> rat" where
  "ttft_ms t =
     (case (tm_admitted t, tm_first_token t) of (Some a, Some f) \<Rightarrow> ms a f | _ \<Rightarrow> 0)"

definition tpot_ms :: "RequestTiming \<Rightarrow> nat \<Rightarrow> rat" where
  "tpot_ms t completion =
     (case (tm_first_token t, tm_finished t) of
        (Some f, Some d) \<Rightarrow>
          if completion < 2 then 0 else ms f d / of_nat (completion - 1)
      | _ \<Rightarrow> 0)"

definition total_ms :: "RequestTiming \<Rightarrow> rat" where
  "total_ms t = (case tm_finished t of Some d \<Rightarrow> ms (tm_enqueued t) d | None \<Rightarrow> 0)"

definition output_tokens_per_sec :: "RequestTiming \<Rightarrow> nat \<Rightarrow> rat" where
  "output_tokens_per_sec t completion =
     (let total = total_ms t in
      if total \<le> 0 \<or> completion = 0 then 0 else of_nat completion / (total / 1000))"

text \<open>The stamps of one request are in the order in which they are taken.\<close>

definition timing_ordered :: "RequestTiming \<Rightarrow> bool" where
  "timing_ordered t \<longleftrightarrow>
     (\<forall>a. tm_admitted t = Some a \<longrightarrow> tm_enqueued t \<le> a) \<and>
     (\<forall>a f. tm_admitted t = Some a \<longrightarrow> tm_first_token t = Some f \<longrightarrow> a \<le> f) \<and>
     (\<forall>d. tm_finished t = Some d \<longrightarrow> tm_enqueued t \<le> d) \<and>
     (\<forall>f d. tm_first_token t = Some f \<longrightarrow> tm_finished t = Some d \<longrightarrow> f \<le> d)"

lemma timing_decomposition:
  assumes "tm_admitted t = Some a" "tm_first_token t = Some f" "tm_finished t = Some d"
    and "2 \<le> n"
  shows "total_ms t = queue_wait_ms t + ttft_ms t + tpot_ms t n * of_nat (n - 1)"
  using assms
  by (simp add: total_ms_def queue_wait_ms_def ttft_ms_def tpot_ms_def ms_def field_simps of_nat_diff)

section \<open>\<open>LatencyHistogram\<close>\<close>

definition kBounds :: "rat list" where
  "kBounds = [1, 5, 10, 25, 50, 100, 250, 500, 1000, 2500, 5000, 10000]"

record LatencyHistogram =
  lh_counts :: "nat list"
  lh_count :: nat
  lh_sum_us :: nat

definition LatencyHistogram_new :: LatencyHistogram where
  "LatencyHistogram_new =
     \<lparr>lh_counts = replicate (length kBounds) 0, lh_count = 0, lh_sum_us = 0\<rparr>"

text \<open>The first bucket whose bound is not exceeded; \<open>None\<close> when all are.\<close>

fun bucket_of :: "rat list \<Rightarrow> rat \<Rightarrow> nat option" where
  "bucket_of [] v = None"
| "bucket_of (b # bs) v = (if v \<le> b then Some 0 else map_option Suc (bucket_of bs v))"

definition observe :: "rat \<Rightarrow> LatencyHistogram \<Rightarrow> LatencyHistogram" where
  "observe value_ms h =
     h\<lparr>lh_counts := (case bucket_of kBounds value_ms of
          Some i \<Rightarrow> (lh_counts h)[i := u64 (lh_counts h ! i + 1)]
        | None \<Rightarrow> lh_counts h),
       lh_count := u64 (lh_count h + 1),
       lh_sum_us := u64 (lh_sum_us h + nat (floor (value_ms * 1000)))\<rparr>"

definition sum_seconds :: "LatencyHistogram \<Rightarrow> rat" where
  "sum_seconds h = of_nat (lh_sum_us h) / 1000000"

text \<open>The running sum that the metrics endpoint prints for bucket \<open>i\<close>.\<close>

definition cumulative :: "LatencyHistogram \<Rightarrow> nat \<Rightarrow> nat" where
  "cumulative h i = fold (\<lambda>c acc. u64 (acc + c)) (take (Suc i) (lh_counts h)) 0"

lemma bucket_of_less: "bucket_of bs v = Some i \<Longrightarrow> i < length bs"
  by (induction bs arbitrary: i) (auto split: if_splits)

lemma bucket_of_le:
  assumes "sorted bs" and "k < length bs"
  shows "v \<le> bs ! k \<longleftrightarrow> (\<exists>i\<le>k. bucket_of bs v = Some i)"
  using assms
proof (induction bs arbitrary: k)
  case Nil
  then show ?case by simp
next
  case (Cons b bs)
  show ?case
  proof (cases k)
    case 0
    then show ?thesis by auto
  next
    case (Suc j)
    with Cons.prems have "j < length bs" "sorted bs" "b \<le> bs ! j" by auto
    with Cons.IH [of j] Suc show ?thesis by (auto simp: Suc_le_eq less_Suc_eq_le intro: order_trans)
  qed
qed

lemma kBounds_sorted: "sorted kBounds"
  by (simp add: kBounds_def)

lemma fold_u64_sum: "fold (\<lambda>c acc. u64 (acc + c)) cs (u64 a) = u64 (a + sum_list cs)"
  by (induction cs arbitrary: a) (simp_all add: u64_Suc_u64 add.assoc)

lemma cumulative_eq: "cumulative h i = u64 (sum_list (take (Suc i) (lh_counts h)))"
  using fold_u64_sum [of "take (Suc i) (lh_counts h)" 0] by (simp add: cumulative_def u64_def)

lemma u64_add_cancel: "u64 (a + c) = u64 (b + c) \<Longrightarrow> u64 a = u64 b"
  by (simp add: u64_def nat_mod_eq_iff)

lemma u64_sum_update:
  assumes "j < length cs"
  shows "u64 (sum_list (take k (cs[j := u64 (cs ! j + 1)]))) =
    u64 (sum_list (take k cs) + (if j < k then 1 else 0))"
proof (cases "j < k")
  case True
  then have "take k (cs[j := u64 (cs ! j + 1)]) = (take k cs)[j := u64 (take k cs ! j + 1)]"
    by (simp add: take_update_swap)
  moreover have "sum_list ((take k cs)[j := u64 (take k cs ! j + 1)]) + take k cs ! j =
      sum_list (take k cs) + u64 (take k cs ! j + 1)"
    using sum_list_map_update [of j "take k cs" "\<lambda>x. x" "u64 (take k cs ! j + 1)"] assms True by simp
  ultimately have "u64 (sum_list (take k (cs[j := u64 (cs ! j + 1)])) + take k cs ! j) =
      u64 (sum_list (take k cs) + 1 + take k cs ! j)"
    by (simp add: u64_def) presburger
  from u64_add_cancel [OF this] show ?thesis using True by simp
next
  case False
  then show ?thesis by simp
qed

text \<open>
  Prometheus semantics: the printed bucket \<open>i\<close> counts the observations at or below its
  bound, modulo the width of the counter.
\<close>

lemma observe_counts_length: "length (lh_counts (observe v h)) = length (lh_counts h)"
  by (simp add: observe_def split: option.splits)

lemma cumulative_observe:
  assumes "length (lh_counts h) = length kBounds" and "i < length kBounds"
  shows "cumulative (observe v h) i = u64 (cumulative h i + (if v \<le> kBounds ! i then 1 else 0))"
proof (cases "bucket_of kBounds v")
  case None
  then have "\<not> v \<le> kBounds ! i" using bucket_of_le [OF kBounds_sorted assms(2)] by simp
  with None show ?thesis by (simp add: cumulative_eq observe_def) (simp add: u64_def)
next
  case (Some j)
  then have "j < length (lh_counts h)" using bucket_of_less assms(1) by simp
  moreover have "v \<le> kBounds ! i \<longleftrightarrow> j < Suc i"
    using Some bucket_of_le [OF kBounds_sorted assms(2)] by (simp add: less_Suc_eq_le)
  ultimately show ?thesis
    using Some u64_sum_update [of j "lh_counts h" "Suc i"]
    by (simp add: cumulative_eq observe_def) (simp add: u64_def mod_Suc_eq)
qed

lemma cumulative_fold_observe:
  assumes "length (lh_counts h) = length kBounds" and "i < length kBounds"
  shows "cumulative (fold observe vs h) i =
    u64 (cumulative h i + length (filter (\<lambda>v. v \<le> kBounds ! i) vs))"
  using assms
proof (induction vs arbitrary: h)
  case Nil
  then show ?case by (simp add: cumulative_eq) (simp add: u64_def)
next
  case (Cons v vs)
  then show ?case
    by (simp add: observe_counts_length cumulative_observe u64_Suc_u64 add.assoc)
qed

lemma count_fold_observe: "lh_count (fold observe vs h) = u64 (lh_count h + length vs) \<or> vs = []"
proof (induction vs arbitrary: h)
  case Nil
  then show ?case by simp
next
  case (Cons v vs)
  from Cons [of "observe v h"] show ?case
    by (auto simp: observe_def u64_Suc_u64)
qed

lemma cumulative_new: "cumulative LatencyHistogram_new i = 0"
proof -
  have "sum_list (take (Suc i) (lh_counts LatencyHistogram_new)) = 0"
    by (auto simp: LatencyHistogram_new_def sum_list_eq_0_iff dest: in_set_takeD)
  then show ?thesis unfolding cumulative_eq by (simp only: u64_def)
qed

end
