(* ===== verification/Mv_RequestQueue.thy ===== *)
theory Mv_RequestQueue
  imports Mv_Sinks Mv_Timing
begin

text \<open>
  \<open>include/microvllm/request.hpp\<close>, \<open>include/microvllm/request_queue.hpp\<close> and
  \<open>src/core/request_queue.cpp\<close>. Every queue operation runs under the queue's mutex, so an
  execution of many threads is a sequence of these operations. A request is identified
  by \<open>rq_id\<close>: its promise is fulfilled in the ledger of the scheduler model, its
  cancellation flag is read through the environment, and a sink that the caller supplied
  is the list of calls it has received (\<open>rq_sink\<close>).
\<close>

section \<open>\<open>Request\<close> and \<open>GenResult\<close>\<close>

record GenResult =
  gr_text :: string
  gr_reason :: FinishReason
  gr_usage :: Usage
  gr_error :: string
  gr_timing :: RequestTiming

record Request =
  rq_id :: RequestId
  rq_spec :: RequestSpec
  rq_sink :: "sink_call list option"
  rq_timing :: RequestTiming

section \<open>\<open>RequestQueue\<close>\<close>

record RequestQueue =
  qu_queue :: "Request list"
  qu_capacity :: nat
  qu_closed :: bool

definition RequestQueue_new :: "nat \<Rightarrow> RequestQueue" where
  "RequestQueue_new capacity = \<lparr>qu_queue = [], qu_capacity = capacity, qu_closed = False\<rparr>"

definition try_push :: "RequestQueue \<Rightarrow> Request \<Rightarrow> bool \<times> RequestQueue" where
  "try_push q req =
     (if qu_closed q \<or> length (qu_queue q) \<ge> qu_capacity q then (False, q)
      else (True, q\<lparr>qu_queue := qu_queue q @ [req]\<rparr>))"

text \<open>
  \<open>pop\<close> waits until the queue is non-empty or closed; the outer \<open>None\<close> is a wait that
  has not ended, \<open>Some None\<close> the \<open>nullopt\<close> of a closed and drained queue.
\<close>

definition pop :: "RequestQueue \<Rightarrow> (Request option \<times> RequestQueue) option" where
  "pop q =
     (if qu_queue q = [] \<and> \<not> qu_closed q then None
      else case qu_queue q of
             [] \<Rightarrow> Some (None, q)
           | r # rs \<Rightarrow> Some (Some r, q\<lparr>qu_queue := rs\<rparr>))"

definition try_pop :: "RequestQueue \<Rightarrow> Request option \<times> RequestQueue" where
  "try_pop q =
     (case qu_queue q of [] \<Rightarrow> (None, q) | r # rs \<Rightarrow> (Some r, q\<lparr>qu_queue := rs\<rparr>))"

definition push_front :: "RequestQueue \<Rightarrow> Request \<Rightarrow> bool \<times> RequestQueue" where
  "push_front q req =
     (if qu_closed q then (False, q) else (True, q\<lparr>qu_queue := req # qu_queue q\<rparr>))"

definition close :: "RequestQueue \<Rightarrow> RequestQueue" where
  "close q = q\<lparr>qu_closed := True\<rparr>"

definition queue_size :: "RequestQueue \<Rightarrow> nat" where
  "queue_size q = length (qu_queue q)"

definition queue_closed :: "RequestQueue \<Rightarrow> bool" where
  "queue_closed q = qu_closed q"

section \<open>A FIFO shared between threads\<close>

text \<open>
  The contract of a queue that several threads use through atomic operations: \<open>push\<close>
  appends or refuses, \<open>take_front\<close> removes the oldest element or finds nothing. A run
  is any sequence of such operations; it records what was accepted and what was taken.
\<close>

datatype 'a fifo_op = Put 'a | Get

fun fifo_run ::
  "('q \<Rightarrow> 'a \<Rightarrow> bool \<times> 'q) \<Rightarrow> ('q \<Rightarrow> ('a \<times> 'q) option) \<Rightarrow> 'a fifo_op list \<Rightarrow> 'q \<Rightarrow> 'q \<times> 'a list \<times> 'a list" where
  "fifo_run push tk [] q = (q, [], [])"
| "fifo_run push tk (Put x # ops) q =
     (let (ok, q') = push q x; (q'', acc, out) = fifo_run push tk ops q' in
      (q'', (if ok then x # acc else acc), out))"
| "fifo_run push tk (Get # ops) q =
     (case tk q of
        None \<Rightarrow> fifo_run push tk ops q
      | Some (x, q') \<Rightarrow> (let (q'', acc, out) = fifo_run push tk ops q' in (q'', acc, x # out)))"

locale fifo =
  fixes push :: "'q \<Rightarrow> 'a \<Rightarrow> bool \<times> 'q"
    and take_front :: "'q \<Rightarrow> ('a \<times> 'q) option"
    and contents :: "'q \<Rightarrow> 'a list"
  assumes push_accepts: "push q x = (True, q') \<Longrightarrow> contents q' = contents q @ [x]"
    and push_refuses: "push q x = (False, q') \<Longrightarrow> q' = q"
    and take_none: "take_front q = None \<longleftrightarrow> contents q = []"
    and take_some: "take_front q = Some (x, q') \<Longrightarrow> contents q = x # contents q'"
begin

text \<open>Exactly once and in order: what left the queue, then what is in it, is what went in.\<close>

lemma run_history:
  "fifo_run push take_front ops q = (q', acc, out) \<Longrightarrow> contents q @ acc = out @ contents q'"
proof (induction ops arbitrary: q acc out)
  case Nil
  then show ?case by simp
next
  case (Cons op ops)
  show ?case
  proof (cases op)
    case (Put x)
    obtain ok q1 where p: "push q x = (ok, q1)" by (cases "push q x")
    obtain q2 acc1 out1 where r: "fifo_run push take_front ops q1 = (q2, acc1, out1)"
      by (cases "fifo_run push take_front ops q1")
    from Cons.prems Put p r have "q2 = q'" by auto
    note IH = Cons.IH [OF r [unfolded this]]
    from Cons.prems Put p r IH show ?thesis
      using push_accepts [of q x q1] push_refuses [of q x q1] by (cases ok) auto
  next
    case Get
    show ?thesis
    proof (cases "take_front q")
      case None
      with Cons.prems Get Cons.IH show ?thesis by simp
    next
      case (Some y)
      obtain x q1 where y: "y = (x, q1)" by (cases y)
      obtain q2 acc1 out1 where r: "fifo_run push take_front ops q1 = (q2, acc1, out1)"
        by (cases "fifo_run push take_front ops q1")
      from Cons.prems Get Some y r have "q2 = q'" by auto
      note IH = Cons.IH [OF r [unfolded this]]
      from Cons.prems Get Some y r IH show ?thesis
        using take_some [of q x q1] by auto
    qed
  qed
qed

lemma nonempty_serves: "contents q \<noteq> [] \<Longrightarrow> \<exists>x q'. take_front q = Some (x, q')"
  using take_none [of q] by (cases "take_front q") auto

end

text \<open>The request queue, taken from by \<open>try_pop\<close>.\<close>

definition queue_take :: "RequestQueue \<Rightarrow> (Request \<times> RequestQueue) option" where
  "queue_take q = (case try_pop q of (None, _) \<Rightarrow> None | (Some r, q') \<Rightarrow> Some (r, q'))"

interpretation rqueue: fifo try_push queue_take qu_queue
  by unfold_locales
     (auto simp: try_push_def queue_take_def try_pop_def split: if_splits list.splits)

text \<open>The event queue of a streaming sink is the same kind of object.\<close>

interpretation stream: fifo "\<lambda>s e. (True, push_event e s)" next_event "\<lambda>s. s"
  by unfold_locales (auto simp: push_event_def next_event_def split: list.splits)

lemma try_push_iff:
  "fst (try_push q r) \<longleftrightarrow> \<not> qu_closed q \<and> length (qu_queue q) < qu_capacity q"
  by (simp add: try_push_def)

lemma pop_try_pop: "pop q = Some (Some r, q') \<longleftrightarrow> try_pop q = (Some r, q')"
  by (auto simp: pop_def try_pop_def split: list.splits)

lemma pop_closed: "pop q = Some (None, q') \<longleftrightarrow> q' = q \<and> qu_closed q \<and> qu_queue q = []"
  by (auto simp: pop_def split: list.splits)

lemma pop_blocks: "pop q = None \<longleftrightarrow> qu_queue q = [] \<and> \<not> qu_closed q"
  by (auto simp: pop_def split: list.splits)

text \<open>Load shedding: no run of producers and the consumer exceeds the capacity.\<close>

lemma try_push_frame:
  "try_push q x = (ok, q') \<Longrightarrow> length (qu_queue q) \<le> qu_capacity q \<Longrightarrow>
    length (qu_queue q') \<le> qu_capacity q' \<and> qu_capacity q' = qu_capacity q \<and> qu_closed q' = qu_closed q"
  by (auto simp: try_push_def split: if_splits)

lemma queue_take_frame:
  "queue_take q = Some (x, q') \<Longrightarrow> length (qu_queue q) \<le> qu_capacity q \<Longrightarrow>
    length (qu_queue q') \<le> qu_capacity q' \<and> qu_capacity q' = qu_capacity q \<and> qu_closed q' = qu_closed q"
  by (auto simp: queue_take_def try_pop_def split: list.splits)

lemma fifo_run_bounded:
  assumes "length (qu_queue q) \<le> qu_capacity q"
  shows "length (qu_queue (fst (fifo_run try_push queue_take ops q))) \<le> qu_capacity q \<and>
    qu_capacity (fst (fifo_run try_push queue_take ops q)) = qu_capacity q \<and>
    qu_closed (fst (fifo_run try_push queue_take ops q)) = qu_closed q"
  using assms
proof (induction ops arbitrary: q)
  case Nil
  then show ?case by simp
next
  case (Cons op ops)
  show ?case
  proof (cases op)
    case (Put x)
    obtain ok q1 where p: "try_push q x = (ok, q1)" by (cases "try_push q x")
    from try_push_frame [OF p Cons.prems] Cons.IH [of q1] show ?thesis
      by (auto simp: Put p split: prod.splits)
  next
    case Get
    show ?thesis
    proof (cases "queue_take q")
      case None
      with Cons.IH [OF Cons.prems] Get show ?thesis by simp
    next
      case (Some y)
      obtain x q1 where y: "y = (x, q1)" by (cases y)
      from queue_take_frame [OF Some [unfolded y] Cons.prems] Cons.IH [of q1] show ?thesis
        by (auto simp: Get Some y split: prod.splits)
    qed
  qed
qed

section \<open>The queue as the scheduler thread sees it\<close>

text \<open>
  Between two accesses of the scheduler thread the other threads act on the queue. Their
  actions are a script: one list of actions per access. A blocking \<open>pop\<close> goes on through
  the script until it can return; a script that ends first is a wait that never ends.
\<close>

datatype queue_action = TryPush Request | Close

text \<open>\<open>qw_accepted\<close> is the log of the requests that \<open>try_push\<close> has accepted.\<close>

record queue_world =
  qw_queue :: RequestQueue
  qw_script :: "queue_action list list"
  qw_accepted :: "Request list"

fun queue_act :: "queue_action \<Rightarrow> queue_world \<Rightarrow> queue_world" where
  "queue_act (TryPush r) w =
     (let (ok, q) = try_push (qw_queue w) r in
      w\<lparr>qw_queue := q, qw_accepted := (if ok then qw_accepted w @ [r] else qw_accepted w)\<rparr>)"
| "queue_act Close w = w\<lparr>qw_queue := close (qw_queue w)\<rparr>"

definition env_turn :: "queue_world \<Rightarrow> queue_world" where
  "env_turn w =
     (case qw_script w of
        [] \<Rightarrow> w
      | acts # rest \<Rightarrow> fold queue_act acts (w\<lparr>qw_script := rest\<rparr>))"

definition world_try_pop :: "queue_world \<Rightarrow> Request option \<times> queue_world" where
  "world_try_pop w =
     (let w1 = env_turn w; (r, q) = try_pop (qw_queue w1) in (r, w1\<lparr>qw_queue := q\<rparr>))"

fun pop_wait :: "queue_action list list \<Rightarrow> queue_world \<Rightarrow> (Request option \<times> queue_world) option" where
  "pop_wait script w =
     (case pop (qw_queue w) of
        Some (r, q) \<Rightarrow> Some (r, w\<lparr>qw_queue := q, qw_script := script\<rparr>)
      | None \<Rightarrow> (case script of
          [] \<Rightarrow> None
        | acts # rest \<Rightarrow> pop_wait rest (fold queue_act acts w)))"

declare pop_wait.simps [simp del]

definition world_pop :: "queue_world \<Rightarrow> (Request option \<times> queue_world) option" where
  "world_pop w = (let w1 = env_turn w in pop_wait (qw_script w1) w1)"

definition world_push_front :: "queue_world \<Rightarrow> Request \<Rightarrow> bool \<times> queue_world" where
  "world_push_front w r =
     (let w1 = env_turn w; (ok, q) = push_front (qw_queue w1) r in (ok, w1\<lparr>qw_queue := q\<rparr>))"

text \<open>
  A request keeps its identity, its specification and its enqueue stamp wherever it goes;
  \<open>ticket\<close> is what the conservation of requests is stated on. \<open>outside w M\<close>: the
  accepted requests that are no longer in the queue are \<open>M\<close>. Other threads leave it
  alone; a pop adds what it returns; \<open>push_front\<close> takes back.
\<close>

type_synonym ticket = "RequestId \<times> RequestSpec \<times> TimePoint"

definition ticket :: "Request \<Rightarrow> ticket" where
  "ticket r = (rq_id r, rq_spec r, tm_enqueued (rq_timing r))"

definition tickets :: "Request list \<Rightarrow> ticket multiset" where
  "tickets rs = mset (map ticket rs)"

lemma tickets_simps [simp]:
  "tickets [] = {#}" "tickets (r # rs) = add_mset (ticket r) (tickets rs)"
  "tickets (rs @ rs') = tickets rs + tickets rs'"
  by (simp_all add: tickets_def)

definition outside :: "queue_world \<Rightarrow> ticket multiset \<Rightarrow> bool" where
  "outside w M \<longleftrightarrow> tickets (qw_accepted w) = tickets (qu_queue (qw_queue w)) + M"

definition opt_tickets :: "Request option \<Rightarrow> ticket multiset" where
  "opt_tickets r = (case r of None \<Rightarrow> {#} | Some x \<Rightarrow> {#ticket x#})"

lemma opt_tickets_simps [simp]: "opt_tickets None = {#}" "opt_tickets (Some x) = {#ticket x#}"
  by (simp_all add: opt_tickets_def)

lemma queue_act_outside [simp]: "outside (queue_act a w) M \<longleftrightarrow> outside w M"
  by (cases a) (auto simp: outside_def try_push_def close_def)

lemma queue_acts_outside [simp]: "outside (fold queue_act acts w) M \<longleftrightarrow> outside w M"
  by (induction acts arbitrary: w) simp_all

lemma env_turn_outside [simp]: "outside (env_turn w) M \<longleftrightarrow> outside w M"
  by (cases "qw_script w") (simp_all add: env_turn_def, simp add: outside_def)

lemma try_pop_outside:
  "outside w M \<Longrightarrow> try_pop (qw_queue w) = (r, q) \<Longrightarrow> outside (w\<lparr>qw_queue := q\<rparr>) (M + opt_tickets r)"
  by (auto simp: outside_def try_pop_def split: list.splits)

lemma world_try_pop_outside:
  "outside w M \<Longrightarrow> world_try_pop w = (r, w') \<Longrightarrow> outside w' (M + opt_tickets r)"
  by (auto simp: world_try_pop_def Let_def split: prod.splits dest!: try_pop_outside [rotated])

lemma pop_wait_outside:
  "outside w M \<Longrightarrow> pop_wait script w = Some (r, w') \<Longrightarrow> outside w' (M + opt_tickets r)"
proof (induction script arbitrary: w)
  case Nil
  then show ?case
    by (auto simp: pop_wait.simps [of "[]"] outside_def pop_def split: option.splits list.splits if_splits)
next
  case (Cons acts script)
  show ?case
  proof (cases "pop (qw_queue w)")
    case None
    with Cons.prems Cons.IH [of "fold queue_act acts w"] show ?thesis
      by (simp add: pop_wait.simps [of "acts # script"])
  next
    case (Some a)
    with Cons.prems show ?thesis
      by (auto simp: pop_wait.simps [of "acts # script"] outside_def pop_def split: list.splits if_splits)
  qed
qed

lemma world_pop_outside:
  "outside w M \<Longrightarrow> world_pop w = Some (r, w') \<Longrightarrow> outside w' (M + opt_tickets r)"
  using pop_wait_outside [of "env_turn w" M "qw_script (env_turn w)" r w']
  by (simp add: world_pop_def Let_def)

lemma world_push_front_outside:
  assumes "outside w (add_mset (ticket r) M)" and "world_push_front w r = (ok, w')"
  shows "outside w' (if ok then M else add_mset (ticket r) M)"
proof -
  from assms(1) have "outside (env_turn w) (add_mset (ticket r) M)" by simp
  with assms(2) show ?thesis
    by (auto simp: world_push_front_def push_front_def outside_def Let_def split: if_splits)
qed

text \<open>
  Every request that may reach the scheduler has a token budget that fits its 32-bit
  field; so has whatever a pop returns.
\<close>

definition request_ok :: "Request \<Rightarrow> bool" where
  "request_ok r \<longleftrightarrow> max_tokens (rq_spec r) < 4294967296"

text \<open>A predicate on requests, of everything that the queue holds or may still be given.\<close>

fun action_all :: "(Request \<Rightarrow> bool) \<Rightarrow> queue_action \<Rightarrow> bool" where
  "action_all P (TryPush r) = P r"
| "action_all P Close = True"

definition world_all :: "(Request \<Rightarrow> bool) \<Rightarrow> queue_world \<Rightarrow> bool" where
  "world_all P w \<longleftrightarrow> list_all P (qu_queue (qw_queue w)) \<and> list_all (list_all (action_all P)) (qw_script w)"

abbreviation action_ok :: "queue_action \<Rightarrow> bool" where
  "action_ok \<equiv> action_all request_ok"

abbreviation world_ok :: "queue_world \<Rightarrow> bool" where
  "world_ok \<equiv> world_all request_ok"

lemma queue_act_ok: "action_all P a \<Longrightarrow> world_all P w \<Longrightarrow> world_all P (queue_act a w)"
  by (cases a) (auto simp: world_all_def try_push_def close_def)

lemma queue_acts_ok: "list_all (action_all P) acts \<Longrightarrow> world_all P w \<Longrightarrow> world_all P (fold queue_act acts w)"
  by (induction acts arbitrary: w) (simp_all add: queue_act_ok)

lemma env_turn_ok: "world_all P w \<Longrightarrow> world_all P (env_turn w)"
  using queue_acts_ok [of P "hd (qw_script w)" "w\<lparr>qw_script := tl (qw_script w)\<rparr>"]
  by (cases "qw_script w") (auto simp: env_turn_def world_all_def)

lemma world_try_pop_ok:
  "world_all P w \<Longrightarrow> world_try_pop w = (r, w') \<Longrightarrow> world_all P w' \<and> (\<forall>x. r = Some x \<longrightarrow> P x)"
  using env_turn_ok [of P w]
  by (auto simp: world_try_pop_def Let_def try_pop_def world_all_def split: list.splits)

lemma pop_wait_ok:
  "world_all P w \<Longrightarrow> list_all (list_all (action_all P)) script \<Longrightarrow> pop_wait script w = Some (r, w') \<Longrightarrow>
    world_all P w' \<and> (\<forall>x. r = Some x \<longrightarrow> P x)"
proof (induction script arbitrary: w)
  case Nil
  then show ?case
    by (auto simp: pop_wait.simps [of "[]"] world_all_def pop_def split: option.splits list.splits if_splits)
next
  case (Cons acts script)
  show ?case
  proof (cases "pop (qw_queue w)")
    case None
    with Cons.prems Cons.IH [of "fold queue_act acts w"] queue_acts_ok [of P acts w] show ?thesis
      by (simp add: pop_wait.simps [of "acts # script"])
  next
    case (Some a)
    with Cons.prems show ?thesis
      by (auto simp: pop_wait.simps [of "acts # script"] world_all_def pop_def split: list.splits if_splits)
  qed
qed

lemma world_pop_ok:
  "world_all P w \<Longrightarrow> world_pop w = Some (r, w') \<Longrightarrow> world_all P w' \<and> (\<forall>x. r = Some x \<longrightarrow> P x)"
  using pop_wait_ok [of P "env_turn w" "qw_script (env_turn w)" r w'] env_turn_ok [of P w]
  by (simp add: world_pop_def Let_def) (simp add: world_all_def)

text \<open>The scheduler thread wakes up whenever there is work or the queue is closed.\<close>

lemma world_pop_prompt:
  "qu_queue (qw_queue (env_turn w)) \<noteq> [] \<or> qu_closed (qw_queue (env_turn w)) \<Longrightarrow> world_pop w \<noteq> None"
  by (auto simp: world_pop_def pop_wait.simps [of "qw_script (env_turn w)"] pop_def Let_def split: list.splits)

lemma pop_wait_closed:
  "pop_wait script w = Some (None, w') \<Longrightarrow> qu_closed (qw_queue w') \<and> qu_queue (qw_queue w') = []"
proof (induction script arbitrary: w)
  case Nil
  then show ?case
    by (auto simp: pop_wait.simps [of "[]"] pop_def split: option.splits list.splits if_splits)
next
  case (Cons acts script)
  then show ?case
    by (auto simp: pop_wait.simps [of "acts # script"] pop_def split: option.splits list.splits if_splits)
qed

section \<open>Work left in the world\<close>

text \<open>
  Every request that can still come out of the queue, and whether the queue is or will be
  closed. Taking a request leaves less work; a world that closes never leaves a blocking
  \<open>pop\<close> waiting.
\<close>

fun is_push :: "queue_action \<Rightarrow> bool" where
  "is_push (TryPush r) = True"
| "is_push Close = False"

definition work :: "queue_world \<Rightarrow> nat" where
  "work w = length (qu_queue (qw_queue w)) + length (filter is_push (concat (qw_script w)))"

definition closes :: "queue_world \<Rightarrow> bool" where
  "closes w \<longleftrightarrow> qu_closed (qw_queue w) \<or> Close \<in> set (concat (qw_script w))"

lemma queue_acts_effect:
  "length (qu_queue (qw_queue (fold queue_act acts w))) \<le> length (qu_queue (qw_queue w)) + length (filter is_push acts) \<and>
   (qu_closed (qw_queue (fold queue_act acts w)) \<longleftrightarrow> qu_closed (qw_queue w) \<or> Close \<in> set acts) \<and>
   qw_script (fold queue_act acts w) = qw_script w"
proof (induction acts arbitrary: w)
  case Nil
  then show ?case by simp
next
  case (Cons a acts)
  have "length (qu_queue (qw_queue (queue_act a w))) \<le> length (qu_queue (qw_queue w)) + (if is_push a then 1 else 0) \<and>
      (qu_closed (qw_queue (queue_act a w)) \<longleftrightarrow> qu_closed (qw_queue w) \<or> a = Close) \<and> qw_script (queue_act a w) = qw_script w"
    by (cases a) (auto simp: try_push_def close_def Let_def)
  with Cons [of "queue_act a w"] show ?case by (auto split: if_splits)
qed

lemma env_turn_effect: "work (env_turn w) \<le> work w" "closes (env_turn w) \<longleftrightarrow> closes w"
proof -
  have "work (env_turn w) \<le> work w \<and> (closes (env_turn w) \<longleftrightarrow> closes w)"
  proof (cases "qw_script w")
    case Nil
    then show ?thesis by (simp add: env_turn_def)
  next
    case (Cons acts rest)
    with queue_acts_effect [of acts "w\<lparr>qw_script := rest\<rparr>"] show ?thesis
      by (auto simp: env_turn_def work_def closes_def)
  qed
  then show "work (env_turn w) \<le> work w" "closes (env_turn w) \<longleftrightarrow> closes w" by simp_all
qed

lemma pop_effect:
  assumes "pop q = Some (r, q')"
  shows "length (qu_queue q') + (if r = None then 0 else 1) = length (qu_queue q)" and "qu_closed q' = qu_closed q"
  using assms by (auto simp: pop_def split: if_splits list.splits)

lemma world_try_pop_effect:
  assumes "world_try_pop w = (r, w')"
  shows "work w' + (if r = None then 0 else 1) \<le> work w" and "closes w \<Longrightarrow> closes w'"
proof -
  obtain x q where p: "try_pop (qw_queue (env_turn w)) = (x, q)" by (cases "try_pop (qw_queue (env_turn w))")
  have q: "length (qu_queue q) + (if x = None then 0 else 1) = length (qu_queue (qw_queue (env_turn w)))"
      "qu_closed q = qu_closed (qw_queue (env_turn w))"
    using p by (auto simp: try_pop_def split: list.splits)
  from assms p have e: "r = x" "w' = (env_turn w)\<lparr>qw_queue := q\<rparr>" by (simp_all add: world_try_pop_def)
  show "work w' + (if r = None then 0 else 1) \<le> work w"
    using env_turn_effect(1) [of w] q(1) by (simp add: e work_def split: if_splits)
  show "closes w \<Longrightarrow> closes w'" using env_turn_effect(2) [of w] q(2) by (simp add: e closes_def)
qed

lemma pop_wait_effect:
  assumes "pop_wait script w = Some (r, w')"
  shows "work w' + (if r = None then 0 else 1) \<le> length (qu_queue (qw_queue w)) + length (filter is_push (concat script)) \<and>
    (qu_closed (qw_queue w) \<or> Close \<in> set (concat script) \<longrightarrow> closes w')"
  using assms
proof (induction script arbitrary: w)
  case Nil
  then obtain q where "pop (qw_queue w) = Some (r, q)" "w' = w\<lparr>qw_queue := q, qw_script := []\<rparr>"
    by (auto simp: pop_wait.simps [of "[]" w] split: option.splits)
  with pop_effect [OF this(1)] show ?case by (auto simp: work_def closes_def)
next
  case (Cons acts rest)
  show ?case
  proof (cases "pop (qw_queue w)")
    case None
    with Cons.prems have "pop_wait rest (fold queue_act acts w) = Some (r, w')" by (simp add: pop_wait.simps [of "acts # rest" w])
    from Cons.IH [OF this] queue_acts_effect [of acts w] show ?thesis by auto
  next
    case (Some x)
    with Cons.prems obtain q where "pop (qw_queue w) = Some (r, q)" "w' = w\<lparr>qw_queue := q, qw_script := acts # rest\<rparr>"
      by (cases x) (auto simp: pop_wait.simps [of "acts # rest" w])
    with pop_effect [OF this(1)] show ?thesis by (auto simp: work_def closes_def)
  qed
qed

lemma pop_wait_served:
  "qu_closed (qw_queue w) \<or> Close \<in> set (concat script) \<Longrightarrow> pop_wait script w \<noteq> None"
proof (induction script arbitrary: w)
  case Nil
  then show ?case by (auto simp: pop_wait.simps [of "[]" w] pop_blocks split: option.splits)
next
  case (Cons acts rest)
  show ?case
  proof (cases "pop (qw_queue w)")
    case None
    with Cons.IH [of "fold queue_act acts w"] queue_acts_effect [of acts w] Cons.prems show ?thesis
      by (auto simp: pop_wait.simps [of "acts # rest" w])
  next
    case (Some x)
    then show ?thesis by (cases x) (simp add: pop_wait.simps [of "acts # rest" w])
  qed
qed

lemma world_pop_effect:
  assumes "world_pop w = Some (r, w')"
  shows "work w' + (if r = None then 0 else 1) \<le> work w" and "closes w \<Longrightarrow> closes w'"
proof -
  from assms have p: "pop_wait (qw_script (env_turn w)) (env_turn w) = Some (r, w')" by (simp add: world_pop_def Let_def)
  show "work w' + (if r = None then 0 else 1) \<le> work w"
    using pop_wait_effect [OF p] env_turn_effect(1) [of w] by (simp add: work_def)
  show "closes w \<Longrightarrow> closes w'"
    using pop_wait_effect [OF p] env_turn_effect(2) [of w] unfolding closes_def [of "env_turn w"] by blast
qed

lemma world_pop_served: "closes w \<Longrightarrow> world_pop w \<noteq> None"
  using pop_wait_served [of "env_turn w" "qw_script (env_turn w)"] env_turn_effect(2) [of w]
  by (simp add: world_pop_def Let_def closes_def)

section \<open>What can be accepted\<close>

text \<open>
  The requests accepted so far and those the other threads still offer. Every operation
  leaves a subsequence of this list: a refused request drops out, nothing is added.
\<close>

fun pushed :: "queue_action list \<Rightarrow> Request list" where
  "pushed [] = []"
| "pushed (TryPush r # acts) = r # pushed acts"
| "pushed (Close # acts) = pushed acts"

definition offered :: "queue_world \<Rightarrow> Request list" where
  "offered w = qw_accepted w @ pushed (concat (qw_script w))"

lemma pushed_append [simp]: "pushed (xs @ ys) = pushed xs @ pushed ys"
  by (induction xs rule: pushed.induct) simp_all

lemma queue_acts_offered:
  "subseq (qw_accepted (fold queue_act acts w)) (qw_accepted w @ pushed acts) \<and> qw_script (fold queue_act acts w) = qw_script w"
proof (induction acts arbitrary: w rule: pushed.induct)
  case 1
  then show ?case by simp
next
  case (2 r acts)
  let ?w = "queue_act (TryPush r) w"
  have s: "qw_script ?w = qw_script w" by (simp add: Let_def split_beta)
  have "subseq (qw_accepted ?w) (qw_accepted w @ [r])" by (simp add: Let_def split_beta prefix_imp_subseq)
  then have "subseq (qw_accepted ?w @ pushed acts) (qw_accepted w @ r # pushed acts)"
    using list_emb_append_mono [of "(=)" "qw_accepted ?w" "qw_accepted w @ [r]" "pushed acts" "pushed acts"] by simp
  with 2 [of ?w] s show ?case using subseq_order.trans by (simp del: queue_act.simps) blast
next
  case (3 acts)
  from 3 [of "queue_act Close w"] show ?case by simp
qed

lemma env_turn_offered: "subseq (offered (env_turn w)) (offered w)"
proof (cases "qw_script w")
  case Nil
  then show ?thesis by (simp add: env_turn_def)
next
  case (Cons acts rest)
  from queue_acts_offered [of acts "w\<lparr>qw_script := rest\<rparr>"] show ?thesis
    by (simp add: env_turn_def Cons offered_def list_emb_append_mono flip: append_assoc)
qed

lemma pop_wait_offered:
  "pop_wait script w = Some (r, w') \<Longrightarrow> subseq (offered w') (qw_accepted w @ pushed (concat script))"
proof (induction script arbitrary: w)
  case Nil
  then show ?case by (auto simp: pop_wait.simps [of "[]" w] offered_def split: option.splits)
next
  case (Cons acts rest)
  show ?case
  proof (cases "pop (qw_queue w)")
    case None
    with Cons.prems have "pop_wait rest (fold queue_act acts w) = Some (r, w')" by (simp add: pop_wait.simps [of "acts # rest" w])
    note IH = Cons.IH [OF this]
    have "subseq (qw_accepted (fold queue_act acts w) @ pushed (concat rest)) (qw_accepted w @ pushed (concat (acts # rest)))"
      using queue_acts_offered [of acts w] by (simp add: list_emb_append_mono flip: append_assoc)
    with IH show ?thesis using subseq_order.trans by blast
  next
    case (Some x)
    with Cons.prems show ?thesis by (cases x) (auto simp: pop_wait.simps [of "acts # rest" w] offered_def)
  qed
qed

lemma world_pop_offered: "world_pop w = Some (r, w') \<Longrightarrow> subseq (offered w') (offered w)"
  using pop_wait_offered [of "qw_script (env_turn w)" "env_turn w" r w'] env_turn_offered [of w] subseq_order.trans
  by (auto simp: world_pop_def Let_def offered_def)

lemma world_try_pop_offered: "world_try_pop w = (r, w') \<Longrightarrow> subseq (offered w') (offered w)"
  using env_turn_offered [of w] by (auto simp: world_try_pop_def Let_def offered_def split: prod.splits)

end
