(* ===== verification/Mv_Engine.thy ===== *)
theory Mv_Engine
  imports Mv_Types
begin

text \<open>
  \<open>IModelEngine\<close> of \<open>include/microvllm/model_engine.hpp\<close>: the interface between the
  serving system and a tensor backend, as a record of its virtual methods over a state
  \<open>'e\<close>. A method that may throw returns the exception's text: \<open>Some\<close> text for the two
  methods without a result, \<open>Inl\<close> text for \<open>decode\<close>. Tokenisation and detokenisation read
  the vocabulary only. The contract that the interface documents is a locale.
\<close>

record 'e IModelEngine =
  eg_caps :: "'e \<Rightarrow> EngineCaps"
  eg_tokenize :: "'e \<Rightarrow> string \<Rightarrow> bool \<Rightarrow> Token list"
  eg_piece :: "'e \<Rightarrow> Token \<Rightarrow> string"
  eg_begin_sequence :: "'e \<Rightarrow> SeqId \<Rightarrow> SamplingParams \<Rightarrow> string option \<times> 'e"
  eg_decode :: "'e \<Rightarrow> BatchItem list \<Rightarrow> (string + GenStep list) \<times> 'e"
  eg_release_sequence :: "'e \<Rightarrow> SeqId \<Rightarrow> 'e"
  eg_copy_sequence :: "'e \<Rightarrow> SeqId \<Rightarrow> SeqId \<Rightarrow> Pos \<Rightarrow> string option \<times> 'e"

text \<open>\<open>steps.at(k)\<close>: the exception of the standard library where \<open>k\<close> is out of range.\<close>

definition range_error :: string where
  "range_error = ''vector::_M_range_check''"

definition at_step :: "GenStep list \<Rightarrow> nat \<Rightarrow> string + GenStep" where
  "at_step steps k = (if k < length steps then Inr (steps ! k) else Inl range_error)"

text \<open>
  The documented contract: a successful \<open>decode\<close> returns one step per sampling item, in
  the items' order; a sequence is live from \<open>begin_sequence\<close> to \<open>release_sequence\<close>, which
  is idempotent; \<open>copy_sequence\<close> and \<open>decode\<close> neither create nor end a sequence.
\<close>

locale model_engine =
  fixes E :: "'e IModelEngine" and live :: "'e \<Rightarrow> SeqId set"
  assumes begin_live: "eg_begin_sequence E e s p = (None, e') \<Longrightarrow> live e' = insert s (live e)"
    and release_live: "live (eg_release_sequence E e s) = live e - {s}"
    and release_twice: "live (eg_release_sequence E (eg_release_sequence E e s) s) =
      live (eg_release_sequence E e s)"
    and copy_live: "eg_copy_sequence E e s d n = (x, e') \<Longrightarrow> live e' = live e"
    and decode_live: "eg_decode E e items = (r, e') \<Longrightarrow> live e' = live e"
    and decode_steps: "eg_decode E e items = (Inr steps, e') \<Longrightarrow>
      (\<forall>it\<in>set items. it_sample it \<longrightarrow> it_tokens it \<noteq> []) \<Longrightarrow>
      map gs_seq steps = map it_seq (filter it_sample items)"
begin

text \<open>What the callers rely on: \<open>steps.at(k)\<close> is in range for every sampling sequence.\<close>

lemma at_step_in_range:
  assumes "eg_decode E e items = (Inr steps, e')"
    and "\<forall>it\<in>set items. it_sample it \<longrightarrow> it_tokens it \<noteq> []"
    and "map it_seq (filter it_sample items) = seqs" and "k < length seqs"
  shows "\<exists>st. at_step steps k = Inr st \<and> gs_seq st = seqs ! k"
proof -
  from decode_steps [OF assms(1,2)] assms(3) have "map gs_seq steps = seqs" by simp
  with assms(4) show ?thesis by (auto simp: at_step_def)
qed

lemma released_then_begun:
  "eg_begin_sequence E (eg_release_sequence E e s) s p = (None, e') \<Longrightarrow> live e' = insert s (live e)"
  using begin_live release_live by auto

end

text \<open>Engines that promise more: the capacities are fixed and only \<open>decode\<close> throws.\<close>

locale fixed_engine = model_engine +
  assumes begin_ok: "fst (eg_begin_sequence E e s p) = None"
    and copy_ok: "fst (eg_copy_sequence E e s d n) = None"
    and caps_fixed: "eg_caps E (snd (eg_begin_sequence E e s p)) = eg_caps E e"
      "eg_caps E (snd (eg_copy_sequence E e s d n)) = eg_caps E e"
      "eg_caps E (snd (eg_decode E e items)) = eg_caps E e"
      "eg_caps E (eg_release_sequence E e s) = eg_caps E e"
begin

lemma begun_is_live: "s \<in> live (snd (eg_begin_sequence E e s p))"
  using begin_live [of e s p "snd (eg_begin_sequence E e s p)"] begin_ok [of e s p]
  by (metis insertI1 prod.collapse)

end

end
