(* ===== verification/Mv_Scheduler.thy ===== *)
theory Mv_Scheduler
  imports Mv_BlockTable Mv_PrefixCache Mv_SequenceState Mv_RequestQueue Mv_Engine
begin

text \<open>
  The \<open>Scheduler\<close> class of \<open>include/microvllm/scheduler.hpp\<close> and
  \<open>src/core/scheduler.cpp\<close>: configuration, state, construction and the operations that
  both batching modes share. The members of the class are the fields of one record; the
  engine reference is the backend state \<open>sd_engine\<close> together with the method table that
  every operation takes as an argument. \<open>sd_fulfilled\<close> is the ledger of the promises that
  have been fulfilled, each with its request, its result and the calls its sink received.
\<close>

section \<open>Configuration and statistics\<close>

datatype BatchingMode = kStatic | kContinuous

record SchedulerConfig =
  cf_max_batch_size :: nat
  cf_mode :: BatchingMode
  cf_kv_blocks :: nat
  cf_block_size :: nat
  cf_prefix_donors :: nat
  cf_prefix_caching :: bool
  cf_prefill_chunk :: nat

definition SchedulerConfig_default :: SchedulerConfig where
  "SchedulerConfig_default =
     \<lparr>cf_max_batch_size = 8, cf_mode = kContinuous, cf_kv_blocks = 0, cf_block_size = 16,
      cf_prefix_donors = 4, cf_prefix_caching = True, cf_prefill_chunk = 128\<rparr>"

record Stats =
  sx_admitted :: nat
  sx_completed :: nat
  sx_preemptions :: nat
  sx_deferred :: nat
  sx_prefix_hits :: nat
  sx_prefix_tokens_saved :: nat
  sx_donors_retained :: nat
  sx_donor_evictions :: nat
  sx_donors_held :: nat
  sx_prompt_tokens :: nat
  sx_completion_tokens :: nat
  sx_kv_blocks_total :: nat
  sx_kv_blocks_used :: nat

definition Stats_default :: Stats where
  "Stats_default =
     \<lparr>sx_admitted = 0, sx_completed = 0, sx_preemptions = 0, sx_deferred = 0, sx_prefix_hits = 0,
      sx_prefix_tokens_saved = 0, sx_donors_retained = 0, sx_donor_evictions = 0, sx_donors_held = 0,
      sx_prompt_tokens = 0, sx_completion_tokens = 0, sx_kv_blocks_total = 0, sx_kv_blocks_used = 0\<rparr>"

section \<open>Jobs\<close>

text \<open>
  \<open>jb_blocks\<close> is a null pointer until the job gets its page table. The job's sink object
  is the call log inside its sequence state.
\<close>

record Job =
  jb_request :: Request
  jb_state :: SequenceState
  jb_blocks :: "BlockTable option"

definition job_seq :: "Job \<Rightarrow> SeqId" where
  "job_seq j = sq_seq (jb_state j)"

definition job_table :: "Job \<Rightarrow> BlockTable" where
  "job_table j = (case jb_blocks j of None \<Rightarrow> BlockTable_new | Some t \<Rightarrow> t)"

definition job_done :: "Job \<Rightarrow> bool" where
  "job_done j = sq_finished (jb_state j)"

section \<open>State\<close>

record 'e Scheduler =
  sd_engine :: 'e
  sd_queue :: queue_world
  sd_config :: SchedulerConfig
  sd_blocks :: BlockAllocator
  sd_prefix_cache :: PrefixCache
  sd_stats :: Stats
  sd_ttft_hist :: LatencyHistogram
  sd_e2e_hist :: LatencyHistogram
  sd_ticks :: nat
  sd_fulfilled :: "(Request \<times> GenResult \<times> sink_call list) list"

text \<open>
  What the scheduler reads from outside: the clock, and whether a request's client has
  cancelled. Each read gets the next index (\<open>sd_ticks\<close>), so the two functions describe
  any behaviour of the clock and the clients.
\<close>

record outer =
  xt_clock :: "nat \<Rightarrow> TimePoint"
  xt_cancelled :: "RequestId \<Rightarrow> nat \<Rightarrow> bool"

definition clock_now :: "outer \<Rightarrow> ('e, 'm) Scheduler_scheme \<Rightarrow> TimePoint \<times> ('e, 'm) Scheduler_scheme" where
  "clock_now X s = (xt_clock X (sd_ticks s), s\<lparr>sd_ticks := Suc (sd_ticks s)\<rparr>)"

section \<open>Construction\<close>

definition clamp_batch :: "EngineCaps \<Rightarrow> SchedulerConfig \<Rightarrow> SchedulerConfig" where
  "clamp_batch caps config =
     (if n_seq_max caps > 0 \<and> cf_max_batch_size config > n_seq_max caps
      then config\<lparr>cf_max_batch_size := n_seq_max caps\<rparr> else config)"

definition pool_size :: "EngineCaps \<Rightarrow> nat \<Rightarrow> nat \<Rightarrow> nat" where
  "pool_size caps block_size kv_blocks =
     (if kv_blocks = 0
      then let cells = (if n_ctx caps > 0 then n_ctx caps else 4096) in
        u32 (cells + block_size - 1) div block_size
      else kv_blocks)"

definition clamp_donors :: "EngineCaps \<Rightarrow> SchedulerConfig \<Rightarrow> nat" where
  "clamp_donors caps config =
     (let donors = (if cf_prefix_caching config then cf_prefix_donors config else 0) in
      if donors > 0
      then let batch = u32 (cf_max_batch_size config);
               room = (if n_seq_max caps > batch then n_seq_max caps - batch else 0)
           in if donors > room then room else donors
      else donors)"

definition Scheduler_new :: "'e IModelEngine \<Rightarrow> 'e \<Rightarrow> queue_world \<Rightarrow> SchedulerConfig \<Rightarrow> 'e Scheduler" where
  "Scheduler_new E e queue config =
     (let caps = eg_caps E e;
          config1 = clamp_batch caps config;
          block_size = (if cf_block_size config1 = 0 then 16 else cf_block_size config1);
          pool = pool_size caps block_size (cf_kv_blocks config1);
          config2 = config1\<lparr>cf_block_size := block_size, cf_kv_blocks := pool\<rparr>;
          donors = clamp_donors caps config2;
          config3 = config2\<lparr>cf_prefix_donors := donors\<rparr>;
          cache = configure_donors PrefixCache_new (i32 (int (cf_max_batch_size config3))) donors;
          config4 = (if cf_max_batch_size config3 = 0 then config3\<lparr>cf_max_batch_size := 1\<rparr> else config3)
      in \<lparr>sd_engine = e, sd_queue = queue, sd_config = config4,
          sd_blocks = BlockAllocator_new pool block_size, sd_prefix_cache = cache,
          sd_stats = Stats_default\<lparr>sx_kv_blocks_total := pool\<rparr>,
          sd_ttft_hist = LatencyHistogram_new, sd_e2e_hist = LatencyHistogram_new,
          sd_ticks = 0, sd_fulfilled = []\<rparr>)"

section \<open>Making and delivering jobs\<close>

definition job_result :: "Job \<Rightarrow> GenResult" where
  "job_result job =
     \<lparr>gr_text = emitted_text (jb_state job), gr_reason = sq_reason (jb_state job),
      gr_usage = sq_usage (jb_state job),
      gr_error = (if sq_reason (jb_state job) = kError \<or> sq_reason (jb_state job) = kContextOverflow
                  then sq_error (jb_state job) else []),
      gr_timing = rq_timing (jb_request job)\<rparr>"

definition deliver :: "outer \<Rightarrow> ('e, 'm) Scheduler_scheme \<Rightarrow> Job \<Rightarrow> ('e, 'm) Scheduler_scheme" where
  "deliver X s job =
     (let result0 = job_result job;
          (result, s1) =
            (if tm_finished (gr_timing result0) = None
             then let (t, s1) = clock_now X s in
               (result0\<lparr>gr_timing := (gr_timing result0)\<lparr>tm_finished := Some t\<rparr>\<rparr>, s1)
             else (result0, s));
          st = sd_stats s1
      in s1\<lparr>sd_stats := st\<lparr>sx_prompt_tokens := u64 (sx_prompt_tokens st + prompt_tokens (gr_usage result)),
                          sx_completion_tokens := u64 (sx_completion_tokens st + completion_tokens (gr_usage result))\<rparr>,
            sd_ttft_hist := (if tm_first_token (gr_timing result) \<noteq> None
                             then observe (ttft_ms (gr_timing result)) (sd_ttft_hist s1)
                             else sd_ttft_hist s1),
            sd_e2e_hist := observe (total_ms (gr_timing result)) (sd_e2e_hist s1),
            sd_fulfilled := sd_fulfilled s1 @ [(jb_request job, result, sq_sink (jb_state job))]\<rparr>)"

text \<open>The entry that \<open>deliver\<close> adds to the ledger, its clock reading being number \<open>n\<close>.\<close>

definition delivery :: "outer \<Rightarrow> nat \<Rightarrow> Job \<Rightarrow> Request \<times> GenResult \<times> sink_call list" where
  "delivery X n job =
     (jb_request job,
      (if tm_finished (rq_timing (jb_request job)) = None
       then (job_result job)\<lparr>gr_timing := (rq_timing (jb_request job))\<lparr>tm_finished := Some (xt_clock X n)\<rparr>\<rparr>
       else job_result job),
      sq_sink (jb_state job))"

lemma deliver_fulfilled: "sd_fulfilled (deliver X s job) = sd_fulfilled s @ [delivery X (sd_ticks s) job]"
  by (simp add: deliver_def Let_def clock_now_def delivery_def job_result_def)

lemma delivery_request [simp]: "fst (delivery X n job) = jb_request job"
  by (simp add: delivery_def)

lemma delivery_blocks [simp]: "delivery X n (job\<lparr>jb_blocks := t\<rparr>) = delivery X n job"
  by (simp add: delivery_def job_result_def)

definition overflow_message :: "nat \<Rightarrow> nat \<Rightarrow> string" where
  "overflow_message needed limit =
     ''request needs '' @ nat_str needed @
     '' tokens (prompt + max_tokens) but the per-request context holds '' @ nat_str limit @
     ''; raise --ctx or lower max_tokens''"

text \<open>The engine call comes last; what it throws leaves the function.\<close>

definition make_job ::
  "'e IModelEngine \<Rightarrow> 'e \<Rightarrow> Request \<Rightarrow> SeqId \<Rightarrow> string option \<times> Job \<times> 'e" where
  "make_job E e req seq =
     (let sink = (case rq_sink req of Some calls \<Rightarrow> calls | None \<Rightarrow> []);
          toks = eg_tokenize E e (prompt (rq_spec req)) True;
          state0 = SequenceState_new seq (rq_spec req) sink toks;
          caps = eg_caps E e;
          needed = u32 (prompt_tokens (sq_usage state0) + max_tokens (rq_spec req));
          state = (if n_ctx_seq caps > 0 \<and> needed > n_ctx_seq caps
                   then fail state0 (overflow_message needed (n_ctx_seq caps)) kContextOverflow
                   else state0);
          (err, e') = eg_begin_sequence E e seq (sampling (rq_spec req))
      in (err, \<lparr>jb_request = req, jb_state = state, jb_blocks = None\<rparr>, e'))"

text \<open>
  \<open>reclaim\<close> moves the request out of a job: the promise, the cancel flag and the sink
  travel with it; a sink that the caller supplied is the one the job has been writing to.
\<close>

definition reclaim :: "Job \<Rightarrow> Request" where
  "reclaim job =
     (let r = jb_request job in
      r\<lparr>rq_sink := map_option (\<lambda>_. sq_sink (jb_state job)) (rq_sink r),
        rq_timing := (rq_timing r)\<lparr>tm_admitted := None, tm_first_token := None\<rparr>\<rparr>)"

section \<open>Retained prefixes\<close>

definition release_donor ::
  "'e IModelEngine \<Rightarrow> ('e, 'm) Scheduler_scheme \<Rightarrow> Entry \<Rightarrow> ('e, 'm) Scheduler_scheme" where
  "release_donor E s donor =
     s\<lparr>sd_blocks := free (sd_blocks s) (en_blocks donor),
       sd_engine := eg_release_sequence E (sd_engine s) (en_seq donor),
       sd_stats := (sd_stats s)\<lparr>sx_donor_evictions := u64 (sx_donor_evictions (sd_stats s) + 1),
                               sx_donors_held := donors_held (sd_prefix_cache s)\<rparr>\<rparr>"

definition reclaim_donor_blocks ::
  "'e IModelEngine \<Rightarrow> ('e, 'm) Scheduler_scheme \<Rightarrow> bool \<times> ('e, 'm) Scheduler_scheme" where
  "reclaim_donor_blocks E s =
     (case evict_lru_retained (sd_prefix_cache s) of
        (None, c) \<Rightarrow> (False, s\<lparr>sd_prefix_cache := c\<rparr>)
      | (Some victim, c) \<Rightarrow> (True, release_donor E (s\<lparr>sd_prefix_cache := c\<rparr>) victim))"

text \<open>The slot for a new donor: a free one, or the one of the least recently used donor.\<close>

definition donor_slot ::
  "'e IModelEngine \<Rightarrow> ('e, 'm) Scheduler_scheme \<Rightarrow> SeqId option \<times> ('e, 'm) Scheduler_scheme" where
  "donor_slot E s =
     (case take_donor_slot (sd_prefix_cache s) of
        (Some slot, c) \<Rightarrow> (Some slot, s\<lparr>sd_prefix_cache := c\<rparr>)
      | (None, c) \<Rightarrow>
          (case reclaim_donor_blocks E (s\<lparr>sd_prefix_cache := c\<rparr>) of
             (False, s1) \<Rightarrow> (None, s1)
           | (True, s1) \<Rightarrow>
               let (slot, c1) = take_donor_slot (sd_prefix_cache s1) in
               (slot, s1\<lparr>sd_prefix_cache := c1\<rparr>)))"

definition prefix_tokens :: "('e, 'm) Scheduler_scheme \<Rightarrow> Job \<Rightarrow> nat" where
  "prefix_tokens s job =
     u32 (length (sq_prompt (jb_state job))) div cf_block_size (sd_config s) * cf_block_size (sd_config s)"

definition donate ::
  "'e IModelEngine \<Rightarrow> ('e, 'm) Scheduler_scheme \<Rightarrow> Job \<Rightarrow> nat \<Rightarrow> SeqId \<Rightarrow> ('e, 'm) Scheduler_scheme" where
  "donate E s job n_tokens slot =
     (let nb = n_tokens div cf_block_size (sd_config s);
          (err1, e1) = eg_begin_sequence E (sd_engine s) slot SamplingParams_default;
          (err, e2) = (if err1 \<noteq> None then (err1, e1)
                       else eg_copy_sequence E e1 (job_seq job) slot (i32 (int n_tokens)))
      in if err \<noteq> None
         then s\<lparr>sd_engine := eg_release_sequence E e2 slot,
                sd_prefix_cache := evict_sequence (sd_prefix_cache s) slot\<rparr>
         else
           let blocks = take nb (bt_blocks (job_table job));
               cache = retain (sd_prefix_cache s) (hash_prefix (sq_prompt (jb_state job)) n_tokens)
                         slot n_tokens blocks
           in s\<lparr>sd_engine := e2,
                sd_blocks := fold (\<lambda>b p. incref p b) blocks (sd_blocks s),
                sd_prefix_cache := cache,
                sd_stats := (sd_stats s)\<lparr>sx_donors_retained := u64 (sx_donors_retained (sd_stats s) + 1),
                                        sx_donors_held := donors_held cache\<rparr>\<rparr>)"

definition retain_prefix ::
  "'e IModelEngine \<Rightarrow> ('e, 'm) Scheduler_scheme \<Rightarrow> Job \<Rightarrow> ('e, 'm) Scheduler_scheme" where
  "retain_prefix E s job =
     (if \<not> cf_prefix_caching (sd_config s) \<or> pc_donor_capacity (sd_prefix_cache s) = 0 \<or> jb_blocks job = None
      then s
      else
        let n_tokens = prefix_tokens s job in
        if n_tokens = 0 then s
        else if n_tokens div cf_block_size (sd_config s) > n_blocks (job_table job) then s
        else
          (case donor_slot E s of
             (None, s1) \<Rightarrow> s1
           | (Some slot, s1) \<Rightarrow> donate E s1 job n_tokens slot))"

section \<open>Retiring a job\<close>

definition retire ::
  "outer \<Rightarrow> 'e IModelEngine \<Rightarrow> ('e, 'm) Scheduler_scheme \<Rightarrow> Job \<Rightarrow> ('e, 'm) Scheduler_scheme" where
  "retire X E s job =
     (let job1 = job\<lparr>jb_state := finish (jb_state job)\<rparr>;
          s1 = s\<lparr>sd_prefix_cache := evict_sequence (sd_prefix_cache s) (job_seq job1)\<rparr>;
          s2 = retain_prefix E s1 job1;
          (a, job2) = (case jb_blocks job1 of
                         None \<Rightarrow> (sd_blocks s2, job1)
                       | Some t \<Rightarrow> let (a, t') = release (sd_blocks s2) t in (a, job1\<lparr>jb_blocks := Some t'\<rparr>));
          s3 = s2\<lparr>sd_blocks := a, sd_engine := eg_release_sequence E (sd_engine s2) (job_seq job2),
                  sd_stats := (sd_stats s2)\<lparr>sx_completed := u64 (sx_completed (sd_stats s2) + 1)\<rparr>\<rparr>
      in deliver X s3 job2)"

end
