(* ===== verification/Mv_Continuous.thy ===== *)
theory Mv_Continuous
  imports Mv_Scheduler
begin

text \<open>
  \<open>Scheduler::run_continuous\<close> of \<open>src/core/scheduler.cpp\<close>: the batch is rebuilt every
  step. The local variables of the loop extend the scheduler record; one definition per
  phase, and \<open>iteration\<close> composes one turn of \<open>while (true)\<close>. A \<open>Job*\<close> of an active job
  is its sequence id, which is unique among the active jobs.
\<close>

section \<open>State of the loop\<close>

record 'e Loop = "'e Scheduler" +
  lp_free_slots :: "SeqId list"
  lp_active :: "Job list"
  lp_pending :: "Request list"

definition job_at :: "SeqId \<Rightarrow> Job list \<Rightarrow> Job option" where
  "job_at q active = find (\<lambda>j. job_seq j = q) active"

definition put_job :: "Job \<Rightarrow> Job list \<Rightarrow> Job list" where
  "put_job j active = map (\<lambda>x. if job_seq x = job_seq j then j else x) active"

text \<open>The locals on entry to the function.\<close>

definition loop_start :: "'e Scheduler \<Rightarrow> 'e Loop" where
  "loop_start s = Scheduler.extend s
     \<lparr>lp_free_slots = map (\<lambda>i. i32 (int i)) (push_down (cf_max_batch_size (sd_config s))),
      lp_active = [], lp_pending = []\<rparr>"

section \<open>1. Taking work from the queue\<close>

text \<open>\<open>None\<close>: the blocking \<open>pop\<close> never returns.\<close>

definition take_one :: "('e, 'm) Loop_scheme \<Rightarrow> (Request option \<times> ('e, 'm) Loop_scheme) option" where
  "take_one s =
     (if lp_active s = [] \<and> lp_pending s = []
      then map_option (\<lambda>(r, w). (r, s\<lparr>sd_queue := w\<rparr>)) (world_pop (sd_queue s))
      else let (r, w) = world_try_pop (sd_queue s) in Some (r, s\<lparr>sd_queue := w\<rparr>))"

lemma take_one_frame:
  assumes "take_one s = Some (r, s')"
  shows "lp_pending s' = lp_pending s" "lp_active s' = lp_active s" "sd_config s' = sd_config s"
    "lp_free_slots s' = lp_free_slots s" "sd_blocks s' = sd_blocks s" "sd_prefix_cache s' = sd_prefix_cache s"
    "sd_fulfilled s' = sd_fulfilled s" "sd_engine s' = sd_engine s"
  using assms by (auto simp: take_one_def split: if_splits prod.splits)

lemma take_one_smaller:
  assumes "take_one s = Some (r, s1)"
    and "length (lp_pending s) + length (lp_active s) < cf_max_batch_size (sd_config s)"
  shows "cf_max_batch_size (sd_config s1) - Suc (length (lp_pending s1) + length (lp_active s1)) <
    cf_max_batch_size (sd_config s) - (length (lp_pending s) + length (lp_active s))"
  using take_one_frame [OF assms(1)] assms(2) by simp

function take_work :: "('e, 'm) Loop_scheme \<Rightarrow> ('e, 'm) Loop_scheme option" where
  "take_work s =
     (if length (lp_pending s) + length (lp_active s) < cf_max_batch_size (sd_config s)
      then (case take_one s of
              None \<Rightarrow> None
            | Some (None, s1) \<Rightarrow> Some s1
            | Some (Some req, s1) \<Rightarrow> take_work (s1\<lparr>lp_pending := lp_pending s1 @ [req]\<rparr>))
      else Some s)"
  by pat_completeness auto

termination
  by (relation "measure (\<lambda>s. cf_max_batch_size (sd_config s) - (length (lp_pending s) + length (lp_active s)))")
     (auto intro: take_one_smaller)

declare take_work.simps [simp del]

section \<open>2. Admission\<close>

text \<open>\<open>while (free_blocks() < limit && reclaim_donor_blocks()) {}\<close>\<close>

lemma evict_lru_shorter:
  assumes "evict_lru_retained c = (Some v, c')"
  shows "length (pc_entries c') < length (pc_entries c)"
proof -
  from assms obtain h r where s: "lru_scan (pc_entries c) None = Some (h, r)"
    and e: "pc_entries c' = AList.delete h (pc_entries c)"
    by (auto simp: evict_lru_retained_def split: option.splits prod.splits)
  from lru_scan_min [OF s] have "(h, r) \<in> set (pc_entries c)" by simp
  then show ?thesis unfolding e AList.delete_eq by (intro length_filter_less) auto
qed

lemma reclaim_donor_shorter:
  assumes "reclaim_donor_blocks E s = (True, s')"
  shows "length (pc_entries (sd_prefix_cache s')) < length (pc_entries (sd_prefix_cache s))"
  using assms evict_lru_shorter [of "sd_prefix_cache s"]
  by (auto simp: reclaim_donor_blocks_def release_donor_def split: prod.splits option.splits)

function reclaim_until :: "'e IModelEngine \<Rightarrow> nat \<Rightarrow> ('e, 'm) Scheduler_scheme \<Rightarrow> ('e, 'm) Scheduler_scheme" where
  "reclaim_until E limit s =
     (if free_blocks (sd_blocks s) < limit
      then (case reclaim_donor_blocks E s of
              (True, s1) \<Rightarrow> reclaim_until E limit s1
            | (False, s1) \<Rightarrow> s1)
      else s)"
  by pat_completeness auto

termination
  by (relation "measure (\<lambda>(E, limit, s). length (pc_entries (sd_prefix_cache s)))")
     (auto intro: reclaim_donor_shorter)

declare reclaim_until.simps [simp del]

definition headroom :: "('e, 'm) Loop_scheme \<Rightarrow> nat" where
  "headroom s = (if lp_active s = [] then 0 else u32 (u32 (length (lp_active s)) + 1))"

text \<open>
  The job has its (empty) page table; does it fit the pool? A job that failed in
  \<open>make_job\<close> needs no block.
\<close>

definition admit_fits ::
  "('e, 'm) Loop_scheme \<Rightarrow> Job \<Rightarrow> nat \<Rightarrow> bool \<times> Job \<times> ('e, 'm) Loop_scheme" where
  "admit_fits s job limit =
     (if job_done job then (True, job, s)
      else if free_blocks (sd_blocks s) \<ge> limit
      then let (ok, a, t) = ensure_capacity (sd_blocks s) (job_table job)
                              (prompt_tokens (sq_usage (jb_state job)))
           in (ok, job\<lparr>jb_blocks := Some t\<rparr>, s\<lparr>sd_blocks := a\<rparr>)
      else (False, job, s))"

definition pool_message :: "string \<Rightarrow> nat \<Rightarrow> string \<Rightarrow> nat \<Rightarrow> string" where
  "pool_message who need mid pool = who @ nat_str need @ mid @ nat_str pool"

definition reject_job :: "outer \<Rightarrow> 'e IModelEngine \<Rightarrow> ('e, 'm) Loop_scheme \<Rightarrow> Job \<Rightarrow> ('e, 'm) Loop_scheme" where
  "reject_job X E s job =
     (let st = finish (fail (jb_state job)
                 (pool_message ''KV cache exhausted: prompt needs ''
                    (blocks_for (sd_blocks s) (prompt_tokens (sq_usage (jb_state job))))
                    '' blocks but the pool holds '' (ba_total (sd_blocks s))) kContextOverflow)
      in deliver X
           (s\<lparr>sd_engine := eg_release_sequence E (sd_engine s) (job_seq job),
              lp_pending := tl (lp_pending s)\<rparr>)
           (job\<lparr>jb_state := st\<rparr>))"

definition defer_job :: "'e IModelEngine \<Rightarrow> ('e, 'm) Loop_scheme \<Rightarrow> Job \<Rightarrow> ('e, 'm) Loop_scheme" where
  "defer_job E s job =
     s\<lparr>sd_engine := eg_release_sequence E (sd_engine s) (job_seq job),
       lp_pending := reclaim job # tl (lp_pending s),
       sd_stats := (sd_stats s)\<lparr>sx_deferred := u64 (sx_deferred (sd_stats s) + 1)\<rparr>\<rparr>"

text \<open>Prefix sharing; \<open>Inl\<close> is an exception of \<open>copy_sequence\<close>.\<close>

definition share_prefix ::
  "'e IModelEngine \<Rightarrow> ('e, 'm) Loop_scheme \<Rightarrow> Job \<Rightarrow> string + (Job \<times> ('e, 'm) Loop_scheme)" where
  "share_prefix E s job =
     (if cf_prefix_caching (sd_config s) \<and> \<not> job_done job
      then let (hit, c) = find_longest (sd_prefix_cache s) (sq_prompt (jb_state job)) (ba_block_size (sd_blocks s));
               s1 = s\<lparr>sd_prefix_cache := c\<rparr>
           in case hit of
                None \<Rightarrow> Inr (job, s1)
              | Some e \<Rightarrow>
                  if en_seq e \<noteq> job_seq job
                  then (case eg_copy_sequence E (sd_engine s1) (en_seq e) (job_seq job) (i32 (int (en_n_tokens e))) of
                          (Some x, _) \<Rightarrow> Inl x
                        | (None, eng) \<Rightarrow>
                            let (a, t) = adopt_shared_prefix (sd_blocks s1) (job_table job) (en_blocks e) (en_n_tokens e);
                                st = sd_stats s1
                            in Inr (job\<lparr>jb_blocks := Some t, jb_state := adopt_cached_prefix (jb_state job) (en_n_tokens e)\<rparr>,
                                    s1\<lparr>sd_engine := eng, sd_blocks := a,
                                       sd_stats := st\<lparr>sx_prefix_hits := u64 (sx_prefix_hits st + 1),
                                                     sx_prefix_tokens_saved := u64 (sx_prefix_tokens_saved st + en_n_tokens e)\<rparr>\<rparr>))
                  else Inr (job, s1)
      else Inr (job, s))"

definition enter_job :: "outer \<Rightarrow> ('e, 'm) Loop_scheme \<Rightarrow> Job \<Rightarrow> ('e, 'm) Loop_scheme" where
  "enter_job X s job =
     (let (t, s1) = clock_now X s;
          req = (jb_request job)\<lparr>rq_timing := (rq_timing (jb_request job))\<lparr>tm_admitted := Some t\<rparr>\<rparr>
      in s1\<lparr>lp_pending := tl (lp_pending s1), lp_free_slots := butlast (lp_free_slots s1),
            sd_stats := (sd_stats s1)\<lparr>sx_admitted := u64 (sx_admitted (sd_stats s1) + 1)\<rparr>,
            lp_active := lp_active s1 @ [job\<lparr>jb_request := req\<rparr>]\<rparr>)"

text \<open>One turn of the admission loop; the flag says whether the loop goes on.\<close>

definition admit_one ::
  "outer \<Rightarrow> 'e IModelEngine \<Rightarrow> ('e, 'm) Loop_scheme \<Rightarrow> string + (bool \<times> ('e, 'm) Loop_scheme)" where
  "admit_one X E s =
     (case make_job E (sd_engine s) (hd (lp_pending s)) (last (lp_free_slots s)) of
        (Some x, _, _) \<Rightarrow> Inl x
      | (None, job0, eng) \<Rightarrow>
          let s0 = s\<lparr>sd_engine := eng\<rparr>;
              job = job0\<lparr>jb_blocks := Some BlockTable_new\<rparr>;
              limit = u32 (blocks_for (sd_blocks s0) (prompt_tokens (sq_usage (jb_state job))) + headroom s0);
              s1 = reclaim_until E limit s0;
              (fits, job2, s2) = admit_fits s1 job limit
          in if \<not> fits then
               (if lp_active s2 = [] then Inr (True, reject_job X E s2 job2)
                else Inr (False, defer_job E s2 job2))
             else (case share_prefix E s2 job2 of
                     Inl x \<Rightarrow> Inl x
                   | Inr (job3, s3) \<Rightarrow> Inr (True, enter_job X s3 job3)))"

lemma reclaim_until_frame:
  "lp_pending (reclaim_until E limit s) = lp_pending s \<and> lp_active (reclaim_until E limit s) = lp_active s \<and>
   lp_free_slots (reclaim_until E limit s) = lp_free_slots s \<and> sd_config (reclaim_until E limit s) = sd_config s \<and>
   sd_queue (reclaim_until E limit s) = sd_queue s \<and> sd_fulfilled (reclaim_until E limit s) = sd_fulfilled s"
proof (induction E limit s rule: reclaim_until.induct)
  case (1 E limit s)
  have r: "lp_pending s1 = lp_pending s \<and> lp_active s1 = lp_active s \<and> lp_free_slots s1 = lp_free_slots s \<and>
      sd_config s1 = sd_config s \<and> sd_queue s1 = sd_queue s \<and> sd_fulfilled s1 = sd_fulfilled s"
    if "reclaim_donor_blocks E s = (b, s1)" for b s1
    using that by (auto simp: reclaim_donor_blocks_def release_donor_def split: prod.splits option.splits)
  show ?case
  proof (cases "free_blocks (sd_blocks s) < limit")
    case True
    obtain b s1 where b: "reclaim_donor_blocks E s = (b, s1)" by (cases "reclaim_donor_blocks E s")
    from r [OF b] 1 [OF True b [symmetric]] show ?thesis
      by (cases b) (simp_all add: reclaim_until.simps [of E limit s] True b)
  next
    case False
    then show ?thesis by (simp add: reclaim_until.simps [of E limit s])
  qed
qed

lemma deliver_frame [simp]:
  "lp_pending (deliver X s j) = lp_pending s" "lp_active (deliver X s j) = lp_active s"
  "lp_free_slots (deliver X s j) = lp_free_slots s"
  by (simp_all add: deliver_def Let_def clock_now_def split: prod.splits)

lemma admit_one_pending:
  assumes "admit_one X E s = Inr (go, s')"
  shows "lp_pending s' = (if go then tl (lp_pending s) else lp_pending s')"
    and "\<not> go \<Longrightarrow> length (lp_pending s') = Suc (length (tl (lp_pending s)))"
  using assms
  by (auto simp: admit_one_def admit_fits_def share_prefix_def reject_job_def defer_job_def enter_job_def
      clock_now_def Let_def reclaim_until_frame split: prod.splits option.splits if_splits sum.splits)

function admit_loop ::
  "outer \<Rightarrow> 'e IModelEngine \<Rightarrow> ('e, 'm) Loop_scheme \<Rightarrow> string + ('e, 'm) Loop_scheme" where
  "admit_loop X E s =
     (if lp_pending s = [] \<or> lp_free_slots s = [] then Inr s
      else case admit_one X E s of
             Inl x \<Rightarrow> Inl x
           | Inr (True, s1) \<Rightarrow> admit_loop X E s1
           | Inr (False, s1) \<Rightarrow> Inr s1)"
  by pat_completeness auto

termination
  by (relation "measure (\<lambda>(X, E, s). length (lp_pending s))") (auto dest!: admit_one_pending(1))

declare admit_loop.simps [simp del]

section \<open>3. Building the mixed batch\<close>

text \<open>Decodes first, one token each, in the order of the active list.\<close>

fun build_decodes :: "Job list \<Rightarrow> nat \<Rightarrow> BatchItem list \<times> SeqId list \<times> nat" where
  "build_decodes [] budget = ([], [], budget)"
| "build_decodes (j # js) budget =
     (if job_done j \<or> prefilling (jb_state j) then build_decodes js budget
      else if budget = 0 then ([], [], budget)
      else let (items, sampling, b) = build_decodes js (budget - 1) in
        (decode_item (jb_state j) # items, job_seq j # sampling, b))"

text \<open>Prefills share the budget that remains; the jobs come back with their progress.\<close>

fun build_prefills :: "nat \<Rightarrow> Job list \<Rightarrow> nat \<Rightarrow> Job list \<times> BatchItem list \<times> SeqId list" where
  "build_prefills chunk_cap [] budget = ([], [], [])"
| "build_prefills chunk_cap (j # js) budget =
     (let tk = min budget (min chunk_cap (prefill_remaining (jb_state j))) in
      if job_done j \<or> \<not> prefilling (jb_state j) \<or> budget = 0 \<or> tk = 0
      then let (js', items, sampling) = build_prefills chunk_cap js budget in (j # js', items, sampling)
      else
        let (item, st) = take_prefill_chunk (jb_state j) tk;
            (js', items, sampling) = build_prefills chunk_cap js (budget - length (it_tokens item))
        in (j\<lparr>jb_state := st\<rparr> # js', item # items,
            (if it_sample item then job_seq j # sampling else sampling)))"

definition build_batch :: "nat \<Rightarrow> nat \<Rightarrow> Job list \<Rightarrow> Job list \<times> BatchItem list \<times> SeqId list" where
  "build_batch nb prefill_chunk active =
     (let (items1, sampling1, budget) = build_decodes active nb;
          chunk_cap = (if prefill_chunk = 0 then nb else prefill_chunk);
          (active', items2, sampling2) = build_prefills chunk_cap active budget
      in (active', items1 @ items2, sampling1 @ sampling2))"

section \<open>4. Accepting the sampled tokens\<close>

text \<open>Publishing a sequence's prompt prefix once its prefill is done.\<close>

definition publish_prefix :: "('e, 'm) Loop_scheme \<Rightarrow> Job \<Rightarrow> ('e, 'm) Loop_scheme" where
  "publish_prefix s job =
     (if cf_prefix_caching (sd_config s) \<and> \<not> prefilling (jb_state job)
      then let bs = ba_block_size (sd_blocks s);
               nb = u32 (length (sq_prompt (jb_state job)) div bs)
           in if nb > 0 \<and> n_blocks (job_table job) \<ge> nb
              then let n_tokens = u32 (nb * bs);
                       entry = \<lparr>en_seq = job_seq job, en_n_tokens = n_tokens,
                                en_blocks = take nb (bt_blocks (job_table job)), en_retained = False\<rparr>
                   in s\<lparr>sd_prefix_cache :=
                        insert_entry (sd_prefix_cache s) (hash_prefix (sq_prompt (jb_state job)) n_tokens) entry\<rparr>
              else s
      else s)"

definition stamp_first_token :: "outer \<Rightarrow> ('e, 'm) Scheduler_scheme \<Rightarrow> Job \<Rightarrow> Job \<times> ('e, 'm) Scheduler_scheme" where
  "stamp_first_token X s job =
     (if tm_first_token (rq_timing (jb_request job)) = None
      then let (t, s1) = clock_now X s;
               req = (jb_request job)\<lparr>rq_timing := (rq_timing (jb_request job))\<lparr>tm_first_token := Some t\<rparr>\<rparr>
           in (job\<lparr>jb_request := req\<rparr>, s1)
      else (job, s))"

text \<open>\<open>accept\<close> on a job, with the cancellation flag read at this moment.\<close>

definition accept_job ::
  "outer \<Rightarrow> 'e IModelEngine \<Rightarrow> ('e, 'm) Scheduler_scheme \<Rightarrow> Job \<Rightarrow> GenStep \<Rightarrow> bool \<times> Job \<times> ('e, 'm) Scheduler_scheme" where
  "accept_job X E s job step =
     (let (go, st) = accept (eg_piece E (sd_engine s))
                       (xt_cancelled X (rq_id (jb_request job)) (sd_ticks s)) (jb_state job) step
      in (go, job\<lparr>jb_state := st\<rparr>, s\<lparr>sd_ticks := Suc (sd_ticks s)\<rparr>))"

text \<open>The tokens a sequence holds after a step, as the 32-bit sum of the source.\<close>

definition tokens_needed :: "Job \<Rightarrow> nat" where
  "tokens_needed job =
     u32 (prompt_tokens (sq_usage (jb_state job)) + completion_tokens (sq_usage (jb_state job)))"

text \<open>
  One turn of the accept loop for the sampling job \<open>q\<close>: an exception, or the new state
  and whether the sequence could not grow.
\<close>

definition accept_one ::
  "outer \<Rightarrow> 'e IModelEngine \<Rightarrow> GenStep list \<Rightarrow> nat \<Rightarrow> SeqId \<Rightarrow> ('e, 'm) Loop_scheme \<Rightarrow>
   string option \<times> bool \<times> ('e, 'm) Loop_scheme" where
  "accept_one X E steps k q s =
     (case job_at q (lp_active s) of
        None \<Rightarrow> (None, False, s)
      | Some job \<Rightarrow>
          let (job1, s1) = stamp_first_token X s job in
          case at_step steps k of
            Inl x \<Rightarrow> (Some x, False, s1\<lparr>lp_active := put_job job1 (lp_active s1)\<rparr>)
          | Inr step \<Rightarrow>
              let (go, job2, s2) = accept_job X E s1 job1 step in
              if \<not> go
              then (None, False,
                    s2\<lparr>lp_active := put_job (job2\<lparr>jb_state := finish (jb_state job2)\<rparr>) (lp_active s2)\<rparr>)
              else
                let (ok, a, t) = ensure_capacity (sd_blocks s2) (job_table job2) (tokens_needed job2);
                    job3 = job2\<lparr>jb_blocks := Some t\<rparr>;
                    s3 = s2\<lparr>sd_blocks := a, lp_active := put_job job3 (lp_active s2)\<rparr>
                in if \<not> ok then (None, True, s3) else (None, False, publish_prefix s3 job3))"

text \<open>The loop over the sampling jobs, with \<open>grew_short\<close> as its result.\<close>

fun accept_loop ::
  "outer \<Rightarrow> 'e IModelEngine \<Rightarrow> GenStep list \<Rightarrow> nat \<Rightarrow> SeqId list \<Rightarrow> ('e, 'm) Loop_scheme \<Rightarrow>
   string option \<times> SeqId list \<times> ('e, 'm) Loop_scheme" where
  "accept_loop X E steps k [] s = (None, [], s)"
| "accept_loop X E steps k (q # qs) s =
     (case accept_one X E steps k q s of
        (Some x, _, s1) \<Rightarrow> (Some x, [], s1)
      | (None, short, s1) \<Rightarrow>
          let (x, shorts, s2) = accept_loop X E steps (Suc k) qs s1 in
          (x, (if short then q # shorts else shorts), s2))"

definition fail_all :: "string \<Rightarrow> Job list \<Rightarrow> Job list" where
  "fail_all message active =
     map (\<lambda>j. if job_done j then j else j\<lparr>jb_state := fail (jb_state j) message kError\<rparr>) active"

text \<open>The \<open>try\<close> block of one step, with its handler.\<close>

definition decode_phase ::
  "outer \<Rightarrow> 'e IModelEngine \<Rightarrow> nat \<Rightarrow> ('e, 'm) Loop_scheme \<Rightarrow> SeqId list \<times> ('e, 'm) Loop_scheme" where
  "decode_phase X E nb s =
     (let (active, items, sampling) = build_batch nb (cf_prefill_chunk (sd_config s)) (lp_active s);
          s1 = s\<lparr>lp_active := active\<rparr>
      in if items = [] then ([], s1)
         else
           let (r, eng) = eg_decode E (sd_engine s1) items;
               s2 = s1\<lparr>sd_engine := eng\<rparr>;
               (x, shorts, s3) =
                 (case r of
                    Inl x \<Rightarrow> (Some x, [], s2)
                  | Inr steps \<Rightarrow> accept_loop X E steps 0 sampling s2)
           in case x of
                None \<Rightarrow> (shorts, s3)
              | Some msg \<Rightarrow> (shorts, s3\<lparr>lp_active := fail_all msg (lp_active s3)\<rparr>))"

section \<open>5. Retiring\<close>

fun sweep_loop ::
  "outer \<Rightarrow> 'e IModelEngine \<Rightarrow> Job list \<Rightarrow> Job list \<Rightarrow> ('e, 'm) Loop_scheme \<Rightarrow> ('e, 'm) Loop_scheme" where
  "sweep_loop X E [] kept s = s\<lparr>lp_active := kept\<rparr>"
| "sweep_loop X E (j # js) kept s =
     (if job_done j
      then sweep_loop X E js kept
             (retire X E (s\<lparr>lp_free_slots := lp_free_slots s @ [job_seq j]\<rparr>) j)
      else sweep_loop X E js (kept @ [j]) s)"

definition sweep :: "outer \<Rightarrow> 'e IModelEngine \<Rightarrow> ('e, 'm) Loop_scheme \<Rightarrow> ('e, 'm) Loop_scheme" where
  "sweep X E s = sweep_loop X E (lp_active s) [] s"

section \<open>6. Cache exhaustion\<close>

fun erase_first :: "('a \<Rightarrow> bool) \<Rightarrow> 'a list \<Rightarrow> 'a list" where
  "erase_first P [] = []"
| "erase_first P (x # xs) = (if P x then xs else x # erase_first P xs)"

text \<open>LIFO: the last active job that is neither finished nor \<open>except\<close>.\<close>

definition preemptible :: "SeqId \<Rightarrow> Job \<Rightarrow> bool" where
  "preemptible except j \<longleftrightarrow> \<not> job_done j \<and> job_seq j \<noteq> except"

definition preempt_one ::
  "'e IModelEngine \<Rightarrow> SeqId \<Rightarrow> ('e, 'm) Loop_scheme \<Rightarrow> bool \<times> ('e, 'm) Loop_scheme" where
  "preempt_one E except s =
     (case find (preemptible except) (rev (lp_active s)) of
        None \<Rightarrow> (False, s)
      | Some job \<Rightarrow>
          (True,
           s\<lparr>sd_prefix_cache := evict_sequence (sd_prefix_cache s) (job_seq job),
             sd_blocks := fst (release (sd_blocks s) (job_table job)),
             sd_engine := eg_release_sequence E (sd_engine s) (job_seq job),
             lp_free_slots := lp_free_slots s @ [job_seq job],
             lp_active := rev (erase_first (preemptible except) (rev (lp_active s))),
             lp_pending := reclaim job # lp_pending s,
             sd_stats := (sd_stats s)\<lparr>sx_preemptions := u64 (sx_preemptions (sd_stats s) + 1)\<rparr>\<rparr>))"

text \<open>\<open>starved->blocks->ensure_capacity(needed)\<close>\<close>

definition grow_job :: "SeqId \<Rightarrow> nat \<Rightarrow> ('e, 'm) Loop_scheme \<Rightarrow> bool \<times> ('e, 'm) Loop_scheme" where
  "grow_job q needed s =
     (case job_at q (lp_active s) of
        None \<Rightarrow> (False, s)
      | Some job \<Rightarrow>
          let (ok, a, t) = ensure_capacity (sd_blocks s) (job_table job) needed in
          (ok, s\<lparr>sd_blocks := a, lp_active := put_job (job\<lparr>jb_blocks := Some t\<rparr>) (lp_active s)\<rparr>))"

lemma grow_job_frame:
  assumes "grow_job q needed s = (ok, s')"
  shows "sd_prefix_cache s' = sd_prefix_cache s" "length (lp_active s') = length (lp_active s)"
    "lp_pending s' = lp_pending s" "lp_free_slots s' = lp_free_slots s" "sd_config s' = sd_config s"
    "sd_queue s' = sd_queue s" "sd_fulfilled s' = sd_fulfilled s"
  using assms by (auto simp: grow_job_def put_job_def split: option.splits prod.splits)

lemma reclaim_for_smaller:
  assumes "grow_job q needed s = (b, s1)" and "reclaim_donor_blocks E s1 = (True, s2)"
  shows "length (pc_entries (sd_prefix_cache s2)) < length (pc_entries (sd_prefix_cache s))"
  using reclaim_donor_shorter [OF assms(2)] grow_job_frame(1) [OF assms(1)] by simp

function reclaim_for :: "'e IModelEngine \<Rightarrow> SeqId \<Rightarrow> nat \<Rightarrow> ('e, 'm) Loop_scheme \<Rightarrow> ('e, 'm) Loop_scheme" where
  "reclaim_for E q needed s =
     (case grow_job q needed s of
        (True, s1) \<Rightarrow> s1
      | (False, s1) \<Rightarrow>
          (case reclaim_donor_blocks E s1 of
             (True, s2) \<Rightarrow> reclaim_for E q needed s2
           | (False, s2) \<Rightarrow> s2))"
  by pat_completeness auto

termination
  by (relation "measure (\<lambda>(E, q, needed, s). length (pc_entries (sd_prefix_cache s)))")
     (auto intro: reclaim_for_smaller [OF sym sym])

declare reclaim_for.simps [simp del]

lemma length_erase_first: "find P xs = Some x \<Longrightarrow> Suc (length (erase_first P xs)) = length xs"
  by (induction xs) (auto split: if_splits)

lemma preempt_one_smaller:
  "preempt_one E except s = (True, s') \<Longrightarrow> length (lp_active s') < length (lp_active s)"
  using length_erase_first [of "preemptible except" "rev (lp_active s)"]
  by (fastforce simp: preempt_one_def split: option.splits)

lemma preempt_for_smaller:
  assumes "grow_job q needed s = (b, s1)" and "preempt_one E q s1 = (True, s2)"
  shows "length (lp_active s2) < length (lp_active s)"
  using preempt_one_smaller [OF assms(2)] grow_job_frame(2) [OF assms(1)] by simp

function preempt_for :: "'e IModelEngine \<Rightarrow> SeqId \<Rightarrow> nat \<Rightarrow> ('e, 'm) Loop_scheme \<Rightarrow> ('e, 'm) Loop_scheme" where
  "preempt_for E q needed s =
     (case grow_job q needed s of
        (True, s1) \<Rightarrow> s1
      | (False, s1) \<Rightarrow>
          (case preempt_one E q s1 of
             (True, s2) \<Rightarrow> preempt_for E q needed s2
           | (False, s2) \<Rightarrow> s2))"
  by pat_completeness auto

termination
  by (relation "measure (\<lambda>(E, q, needed, s). length (lp_active s))") (auto intro: preempt_for_smaller [OF sym sym])

declare preempt_for.simps [simp del]

definition resolve_one :: "'e IModelEngine \<Rightarrow> SeqId \<Rightarrow> ('e, 'm) Loop_scheme \<Rightarrow> ('e, 'm) Loop_scheme" where
  "resolve_one E q s =
     (case job_at q (lp_active s) of
        None \<Rightarrow> s
      | Some job \<Rightarrow>
          let needed = tokens_needed job in
          if blocks_for (sd_blocks s) needed > ba_total (sd_blocks s)
          then s\<lparr>lp_active := put_job (job\<lparr>jb_state := finish (fail (jb_state job)
                   (pool_message ''KV cache exhausted: sequence needs '' (blocks_for (sd_blocks s) needed)
                      '' blocks but the pool holds only '' (ba_total (sd_blocks s))) kContextOverflow)\<rparr>)
                   (lp_active s)\<rparr>
          else preempt_for E q needed (reclaim_for E q needed s))"

definition resolve :: "'e IModelEngine \<Rightarrow> SeqId list \<Rightarrow> ('e, 'm) Loop_scheme \<Rightarrow> ('e, 'm) Loop_scheme" where
  "resolve E grew_short s = fold (resolve_one E) grew_short s"

section \<open>One turn of the loop\<close>

definition publish_usage :: "('e, 'm) Scheduler_scheme \<Rightarrow> ('e, 'm) Scheduler_scheme" where
  "publish_usage s = s\<lparr>sd_stats := (sd_stats s)\<lparr>sx_kv_blocks_used := used_blocks (sd_blocks s)\<rparr>\<rparr>"

definition batch_step :: "outer \<Rightarrow> 'e IModelEngine \<Rightarrow> nat \<Rightarrow> ('e, 'm) Loop_scheme \<Rightarrow> ('e, 'm) Loop_scheme" where
  "batch_step X E nb s =
     (let (grew_short, s1) = decode_phase X E nb s in
      publish_usage (sweep X E (resolve E grew_short (sweep X E s1))))"

text \<open>
  How a turn ends: the thread waits forever for work, an exception leaves \<open>run\<close>, the
  function returns, or the loop goes on.
\<close>

datatype 's turn = Waits | Throws string | Returns 's | Goes_on 's

definition iteration :: "outer \<Rightarrow> 'e IModelEngine \<Rightarrow> nat \<Rightarrow> ('e, 'm) Loop_scheme \<Rightarrow> ('e, 'm) Loop_scheme turn" where
  "iteration X E nb s =
     (case take_work s of
        None \<Rightarrow> Waits
      | Some s1 \<Rightarrow>
          if lp_active s1 = [] \<and> lp_pending s1 = [] then Returns s1
          else (case admit_loop X E s1 of
                  Inl x \<Rightarrow> Throws x
                | Inr s2 \<Rightarrow>
                    if lp_active s2 = [] then Goes_on s2 else Goes_on (batch_step X E nb s2)))"

text \<open>
  \<open>run_continuous\<close> with fuel for the turns: the outer \<open>None\<close> means that the fuel ran out
  before the loop ended.
\<close>

primrec run_loop :: "nat \<Rightarrow> outer \<Rightarrow> 'e IModelEngine \<Rightarrow> nat \<Rightarrow> ('e, 'm) Loop_scheme \<Rightarrow> ('e, 'm) Loop_scheme turn option" where
  "run_loop 0 X E nb s = None"
| "run_loop (Suc fuel) X E nb s =
     (case iteration X E nb s of Goes_on s1 \<Rightarrow> run_loop fuel X E nb s1 | t \<Rightarrow> Some t)"

definition run_continuous :: "nat \<Rightarrow> outer \<Rightarrow> 'e IModelEngine \<Rightarrow> 'e Scheduler \<Rightarrow> 'e Loop turn option" where
  "run_continuous fuel X E s = run_loop fuel X E (n_batch (eg_caps E (sd_engine s))) (loop_start s)"

end
