(* ===== verification/Mv_KvAccounting.thy ===== *)
theory Mv_KvAccounting
  imports Mv_BlockTable Mv_PrefixCache
begin

text \<open>
  Who holds which KV block: the accounting that the scheduler must keep between the block
  pool, the prefix cache and the page tables of the running sequences. \<open>held\<close> lists the
  running sequences with their blocks. Every reference count of the pool is explained by
  a running sequence, by a retained prefix, or by \<open>lost\<close>: donors whose cache entry was
  overwritten, so that neither their slot nor their blocks can ever be given back. Each
  lemma is the effect of one step that the scheduler takes.
\<close>

section \<open>The accounting invariant\<close>

type_synonym holders = "(SeqId \<times> BlockId list) list"

definition held_refs :: "holders \<Rightarrow> BlockId multiset" where
  "held_refs held = mset (concat (map snd held))"

definition donor_refs :: "PrefixCache \<Rightarrow> BlockId multiset" where
  "donor_refs c = (\<Sum>e\<in>#donors c. mset (en_blocks e))"

definition lost_refs :: "(SeqId \<times> BlockId list) multiset \<Rightarrow> BlockId multiset" where
  "lost_refs L = (\<Sum>x\<in>#L. mset (snd x))"

definition donor_slots :: "nat \<Rightarrow> PrefixCache \<Rightarrow> SeqId multiset" where
  "donor_slots n c = mset (map (\<lambda>i. int n + int i) [0..<pc_donor_capacity c])"

definition kv_acc ::
  "nat \<Rightarrow> BlockAllocator \<Rightarrow> PrefixCache \<Rightarrow> holders \<Rightarrow> (SeqId \<times> BlockId list) multiset \<Rightarrow> bool" where
  "kv_acc n a c held L \<longleftrightarrow>
     refs_of a (held_refs held + donor_refs c + lost_refs L) \<and>
     keys_ok c \<and> n + pc_donor_capacity c < 2147483648 \<and>
     mset (pc_free_donor_slots c) + image_mset en_seq (donors c) + image_mset fst L = donor_slots n c \<and>
     distinct (map fst held) \<and> (\<forall>x\<in>set held. 0 \<le> fst x \<and> fst x < int n \<and> distinct (snd x)) \<and>
     (\<forall>e\<in>#donors c. distinct (en_blocks e)) \<and> (\<forall>x\<in>#L. distinct (snd x)) \<and>
     (\<forall>h e. entry_at c h = Some e \<longrightarrow> \<not> en_retained e \<longrightarrow>
        (\<exists>bs. (en_seq e, bs) \<in> set held \<and> prefix (en_blocks e) bs))"

lemma held_refs_simps [simp]:
  "held_refs [] = {#}" "held_refs (x # xs) = mset (snd x) + held_refs xs"
  "held_refs (xs @ ys) = held_refs xs + held_refs ys"
  by (simp_all add: held_refs_def)

lemma lost_refs_simps [simp]:
  "lost_refs {#} = {#}" "lost_refs (add_mset x L) = mset (snd x) + lost_refs L"
  "lost_refs (L + M) = lost_refs L + lost_refs M"
  by (simp_all add: lost_refs_def)

lemma kv_accD:
  assumes "kv_acc n a c held L"
  shows "refs_of a (held_refs held + donor_refs c + lost_refs L)" and "keys_ok c"
    and "n + pc_donor_capacity c < 2147483648"
    and "mset (pc_free_donor_slots c) + image_mset en_seq (donors c) + image_mset fst L = donor_slots n c"
    and "distinct (map fst held)" and "\<And>x. x \<in> set held \<Longrightarrow> 0 \<le> fst x \<and> fst x < int n \<and> distinct (snd x)"
    and "\<And>e. e \<in># donors c \<Longrightarrow> distinct (en_blocks e)" and "\<And>x. x \<in># L \<Longrightarrow> distinct (snd x)"
    and "\<And>h e. entry_at c h = Some e \<Longrightarrow> \<not> en_retained e \<Longrightarrow>
      \<exists>bs. (en_seq e, bs) \<in> set held \<and> prefix (en_blocks e) bs"
  using assms by (auto simp: kv_acc_def)

lemma kv_accI:
  assumes "refs_of a (held_refs held + donor_refs c + lost_refs L)" and "keys_ok c"
    and "n + pc_donor_capacity c < 2147483648"
    and "mset (pc_free_donor_slots c) + image_mset en_seq (donors c) + image_mset fst L = donor_slots n c"
    and "distinct (map fst held)" and "\<And>x. x \<in> set held \<Longrightarrow> 0 \<le> fst x \<and> fst x < int n \<and> distinct (snd x)"
    and "\<And>e. e \<in># donors c \<Longrightarrow> distinct (en_blocks e)" and "\<And>x. x \<in># L \<Longrightarrow> distinct (snd x)"
    and "\<And>h e. entry_at c h = Some e \<Longrightarrow> \<not> en_retained e \<Longrightarrow>
      \<exists>bs. (en_seq e, bs) \<in> set held \<and> prefix (en_blocks e) bs"
  shows "kv_acc n a c held L"
  using assms unfolding kv_acc_def by blast

lemma kv_acc_wf: "kv_acc n a c held L \<Longrightarrow> pool_wf a"
  by (rule refs_of_wf) (rule kv_accD)

subsection \<open>Counting holders\<close>

lemma count_mset_distinct_le: "distinct xs \<Longrightarrow> count (mset xs) b \<le> 1"
  by (simp add: distinct_count_atmost_1)

lemma count_held_le: "(\<And>x. x \<in> set held \<Longrightarrow> distinct (snd x)) \<Longrightarrow> count (held_refs held) b \<le> length held"
proof (induction held)
  case Nil
  then show ?case by simp
next
  case (Cons x held)
  have "count (mset (snd x)) b \<le> 1" using Cons.prems by (intro count_mset_distinct_le) simp
  moreover have "count (held_refs held) b \<le> length held" using Cons by simp
  ultimately show ?case by simp
qed

lemma count_sum_le:
  "(\<And>x. x \<in># M \<Longrightarrow> distinct (f x)) \<Longrightarrow> count (\<Sum>x\<in>#M. mset (f x)) b \<le> size M"
proof (induction M)
  case empty
  then show ?case by simp
next
  case (add x M)
  have "count (mset (f x)) b \<le> 1" using add.prems by (intro count_mset_distinct_le) simp
  moreover have "count (\<Sum>x\<in>#M. mset (f x)) b \<le> size M" using add by simp
  ultimately show ?case by simp
qed

lemma held_length_le:
  assumes "kv_acc n a c held L"
  shows "length held \<le> n"
proof -
  have "set (map fst held) \<subseteq> int ` {..<n}"
    using kv_accD(6) [OF assms] by (auto simp: image_iff) (metis lessThan_iff nat_0_le nat_less_iff)
  then have "card (set (map fst held)) \<le> n"
    using card_mono [of "int ` {..<n}" "set (map fst held)"] card_image_le [of "{..<n}" int] by simp
  then show ?thesis using kv_accD(5) [OF assms] by (metis distinct_card length_map)
qed

lemma donors_and_lost_le:
  assumes "kv_acc n a c held L"
  shows "length (pc_free_donor_slots c) + size (donors c) + size L = pc_donor_capacity c"
  using arg_cong [OF kv_accD(4) [OF assms], of size] by (simp add: donor_slots_def)

lemma kv_count_le:
  assumes "kv_acc n a c held L"
  shows "count (held_refs held + donor_refs c + lost_refs L) b \<le> length held + size (donors c) + size L"
  using count_held_le [of held b] count_sum_le [of "donors c" en_blocks b] count_sum_le [of L snd b]
    kv_accD(6,7,8) [OF assms]
  by (simp add: donor_refs_def lost_refs_def)

lemma kv_count_bound:
  assumes "kv_acc n a c held L"
  shows "count (held_refs held + donor_refs c + lost_refs L) b < 4294967295"
  using kv_count_le [OF assms, of b] held_length_le [OF assms] donors_and_lost_le [OF assms] kv_accD(3) [OF assms]
  by linarith

section \<open>Running sequences\<close>

lemma kv_add_empty:
  assumes acc: "kv_acc n a c held L" and q: "q \<notin> fst ` set held" "0 \<le> q" "q < int n"
  shows "kv_acc n a c (held @ [(q, [])]) L"
proof -
  note D = kv_accD [OF acc]
  have hs: "0 \<le> fst x \<and> fst x < int n \<and> distinct (snd x)" if "x \<in> set (held @ [(q, [])])" for x
    using that D(6) [of x] q by auto
  have live: "\<exists>bs. (en_seq e, bs) \<in> set (held @ [(q, [])]) \<and> prefix (en_blocks e) bs"
    if "entry_at c h = Some e" "\<not> en_retained e" for h e
    using D(9) [OF that] by auto
  show ?thesis by (rule kv_accI [OF _ D(2-4) _ hs D(7,8) live]) (use D(1,5) q in auto)
qed

text \<open>A page table grows, or the pool refuses and nothing changes.\<close>

lemma table_ok_held:
  assumes "kv_acc n a c held L" and "(q, bt_blocks t) \<in> set held"
  shows "table_ok (held_refs held + donor_refs c + lost_refs L) t"
proof -
  obtain xs ys where "held = xs @ (q, bt_blocks t) # ys" using assms(2) by (meson split_list)
  moreover have "distinct (bt_blocks t)" using kv_accD(6) [OF assms] by simp
  ultimately show ?thesis by (simp add: table_ok_def)
qed

lemma kv_grow:
  assumes acc: "kv_acc n a c (xs @ (q, bt_blocks t) # ys) L"
    and run: "ensure_capacity a t k = (r, a', t')"
  shows "kv_acc n a' c (xs @ (q, bt_blocks t') # ys) L" and "prefix (bt_blocks t) (bt_blocks t')"
    and "\<not> r \<Longrightarrow> a' = a \<and> t' = t"
proof -
  let ?held = "xs @ (q, bt_blocks t) # ys"
  note D = kv_accD [OF acc]
  have ok: "table_ok (held_refs ?held + donor_refs c + lost_refs L) t"
    by (rule table_ok_held [OF acc, of q]) simp
  obtain bs where bs: "bt_blocks t' = bt_blocks t @ bs"
    "refs_of a' (held_refs ?held + donor_refs c + lost_refs L + mset bs)"
    "table_ok (held_refs ?held + donor_refs c + lost_refs L + mset bs) t'"
    "\<not> r \<Longrightarrow> bs = [] \<and> a' = a \<and> t' = t"
    by (rule ensure_capacity_refs [OF D(1) ok run]) blast
  show pre: "prefix (bt_blocks t) (bt_blocks t')" by (simp add: bs(1))
  show "\<not> r \<Longrightarrow> a' = a \<and> t' = t" using bs(4) by blast
  have refs: "refs_of a' (held_refs (xs @ (q, bt_blocks t') # ys) + donor_refs c + lost_refs L)"
    using bs(2) by (simp add: bs(1) ac_simps)
  have dist: "distinct (bt_blocks t')" using bs(3) by (simp add: table_ok_def)
  have live: "\<exists>bs. (en_seq e, bs) \<in> set (xs @ (q, bt_blocks t') # ys) \<and> prefix (en_blocks e) bs"
    if "entry_at c h = Some e" "\<not> en_retained e" for h e
    using D(9) [OF that] pre by (auto intro: prefix_order.trans)
  have hs: "0 \<le> fst x \<and> fst x < int n \<and> distinct (snd x)" if "x \<in> set (xs @ (q, bt_blocks t') # ys)" for x
    using that D(6) [of x] D(6) [of "(q, bt_blocks t)"] dist by auto
  have ds: "distinct (map fst (xs @ (q, bt_blocks t') # ys))" using D(5) by simp
  show "kv_acc n a' c (xs @ (q, bt_blocks t') # ys) L"
    by (rule kv_accI [OF refs D(2-4) ds hs D(7,8) live])
qed

text \<open>Its sequence is evicted from the cache, then its blocks go back: a job is gone.\<close>

lemma kv_evict_gen:
  assumes acc: "kv_acc n a c held L" and nd: "\<And>e. e \<in># donors c \<Longrightarrow> en_seq e \<noteq> q"
  shows "kv_acc n a (evict_sequence c q) held L"
    and "\<And>h e. entry_at (evict_sequence c q) h = Some e \<Longrightarrow> en_seq e \<noteq> q \<and> entry_at c h = Some e"
    and "donors (evict_sequence c q) = donors c"
proof -
  note D = kv_accD [OF acc]
  have same: "donors (evict_sequence c q) = donors c"
    unfolding donors_evict using nd by (intro filter_mset_eq_conv [THEN iffD2]) auto
  have slots: "pc_free_donor_slots (evict_sequence c q) = pc_free_donor_slots c"
  proof -
    have "filter_mset (\<lambda>e. en_seq e = q) (donors c) = {#}" using nd by (intro filter_mset_eq_conv [THEN iffD2]) auto
    then show ?thesis by (simp add: evict_sequence_slots)
  qed
  show "donors (evict_sequence c q) = donors c" by (rule same)
  show "\<And>h e. entry_at (evict_sequence c q) h = Some e \<Longrightarrow> en_seq e \<noteq> q \<and> entry_at c h = Some e"
    using pcache.look_evictD [OF D(2)] by blast
  have live: "\<exists>bs. (en_seq e, bs) \<in> set held \<and> prefix (en_blocks e) bs"
    if "entry_at (evict_sequence c q) h = Some e" "\<not> en_retained e" for h e
    using D(9) [of h e] pcache.look_evictD [OF D(2) that(1)] that(2) by blast
  have refs: "refs_of a (held_refs held + donor_refs (evict_sequence c q) + lost_refs L)"
    using D(1) by (simp add: donor_refs_def same)
  have sl: "mset (pc_free_donor_slots (evict_sequence c q)) + image_mset en_seq (donors (evict_sequence c q)) +
      image_mset fst L = donor_slots n (evict_sequence c q)"
    using D(4) by (simp add: same slots donor_slots_def evict_sequence_frame)
  show "kv_acc n a (evict_sequence c q) held L"
    by (rule kv_accI [OF refs evict_sequence_keys [OF D(2)] _ sl D(5,6) _ D(8) live])
       (simp_all add: D(3) evict_sequence_frame same D(7))
qed

lemma kv_donor_slot_range:
  assumes acc: "kv_acc n a c held L" and "e \<in># donors c"
  shows "en_seq e \<ge> int n"
proof -
  have "en_seq e \<in># donor_slots n c" using assms(2) kv_accD(4) [OF acc] by (metis image_eqI set_image_mset union_iff)
  then show ?thesis by (auto simp: donor_slots_def)
qed

lemma kv_evict:
  assumes acc: "kv_acc n a c held L" and q: "q < int n"
  shows "kv_acc n a (evict_sequence c q) held L"
    and "\<And>h e. entry_at (evict_sequence c q) h = Some e \<Longrightarrow> en_seq e \<noteq> q \<and> entry_at c h = Some e"
    and "donors (evict_sequence c q) = donors c"
proof -
  have "en_seq e \<noteq> q" if "e \<in># donors c" for e using kv_donor_slot_range [OF acc that] q by linarith
  note G = kv_evict_gen [OF acc this]
  show "kv_acc n a (evict_sequence c q) held L" "donors (evict_sequence c q) = donors c"
    "\<And>h e. entry_at (evict_sequence c q) h = Some e \<Longrightarrow> en_seq e \<noteq> q \<and> entry_at c h = Some e"
    using G by blast+
qed

text \<open>Evicting a slot that is lost finds nothing: the slot stays lost.\<close>

lemma kv_evict_lost:
  assumes acc: "kv_acc n a c held (add_mset (slot, bs) L)"
  shows "kv_acc n a (evict_sequence c slot) held (add_mset (slot, bs) L)"
    and "\<And>h e. entry_at (evict_sequence c slot) h = Some e \<Longrightarrow> entry_at c h = Some e"
proof -
  have d: "count (donor_slots n c) slot \<le> 1"
    using distinct_count_atmost_1 [of "map (\<lambda>i. int n + int i) [0..<pc_donor_capacity c]"]
    by (auto simp: donor_slots_def distinct_map inj_on_def)
  have "en_seq e \<noteq> slot" if "e \<in># donors c" for e
  proof
    assume "en_seq e = slot"
    then have "slot \<in># image_mset en_seq (donors c)" using that by auto
    then have "1 \<le> count (image_mset en_seq (donors c)) slot" by (simp add: Suc_le_eq)
    moreover have "count (donor_slots n c) slot \<ge> count (image_mset en_seq (donors c)) slot + 1"
      using arg_cong [OF kv_accD(4) [OF acc], of "\<lambda>M. count M slot"] by simp
    ultimately show False using d by linarith
  qed
  note G = kv_evict_gen [OF acc this]
  show "kv_acc n a (evict_sequence c slot) held (add_mset (slot, bs) L)"
    "\<And>h e. entry_at (evict_sequence c slot) h = Some e \<Longrightarrow> entry_at c h = Some e"
    using G by blast+
qed

lemma kv_release:
  assumes acc: "kv_acc n a c (xs @ (q, bs) # ys) L"
    and out: "\<And>h e. entry_at c h = Some e \<Longrightarrow> en_seq e \<noteq> q"
  shows "kv_acc n (free a bs) c (xs @ ys) L"
proof -
  note D = kv_accD [OF acc]
  have "refs_of a (held_refs (xs @ ys) + donor_refs c + lost_refs L + mset bs)"
    using D(1) by (simp add: ac_simps)
  from pool.release_holder [OF this]
  have refs: "refs_of (free a bs) (held_refs (xs @ ys) + donor_refs c + lost_refs L)" .
  have live: "\<exists>bs'. (en_seq e, bs') \<in> set (xs @ ys) \<and> prefix (en_blocks e) bs'"
    if "entry_at c h = Some e" "\<not> en_retained e" for h e
    using D(9) [OF that] out [OF that(1)] by auto
  have hs: "0 \<le> fst x \<and> fst x < int n \<and> distinct (snd x)" if "x \<in> set (xs @ ys)" for x
    using that by (intro D(6)) auto
  have ds: "distinct (map fst (xs @ ys))" using D(5) by auto
  show ?thesis by (rule kv_accI [OF refs D(2-4) ds hs D(7,8) live])
qed

section \<open>The cache\<close>

text \<open>A lookup only moves time stamps.\<close>

lemma kv_find:
  assumes acc: "kv_acc n a c held L" and run: "find_longest c tokens bs = (res, c')"
  shows "kv_acc n a c' held L"
  using acc find_longest_frame [OF kv_accD(2) [OF acc] run]
  by (simp add: kv_acc_def donor_refs_def donor_slots_def)

text \<open>The blocks of a cached entry are referenced by whoever holds them.\<close>

lemma kv_entry_blocks:
  assumes acc: "kv_acc n a c held L" and "entry_at c h = Some e"
  shows "distinct (en_blocks e)" and "mset (en_blocks e) \<subseteq># held_refs held + donor_refs c"
proof -
  note D = kv_accD [OF acc]
  have "distinct (en_blocks e) \<and> mset (en_blocks e) \<subseteq># held_refs held + donor_refs c"
  proof (cases "en_retained e")
    case True
    with assms(2) D(2) have e: "e \<in># donors c" by (auto simp: donors_iff)
    then obtain M where "donors c = add_mset e M" by (meson multi_member_split)
    then show ?thesis using D(7) [OF e] by (simp add: donor_refs_def)
  next
    case False
    from D(9) [OF assms(2) False] obtain bs where bs: "(en_seq e, bs) \<in> set held" "prefix (en_blocks e) bs" by blast
    then obtain xs ys zs where "held = xs @ (en_seq e, bs) # ys" "bs = en_blocks e @ zs"
      by (meson prefixE split_list)
    then show ?thesis using D(6) [OF bs(1)] by (simp add: ac_simps)
  qed
  then show "distinct (en_blocks e)" "mset (en_blocks e) \<subseteq># held_refs held + donor_refs c" by auto
qed

text \<open>Dropping the least recently used donor gives its blocks and its slot back.\<close>

lemma kv_donor_release:
  assumes acc: "kv_acc n a c held L" and ev: "evict_lru_retained c = (Some e, c')"
  shows "kv_acc n (free a (en_blocks e)) c' held L"
proof -
  note D = kv_accD [OF acc]
  note V = evict_lru_Some [OF D(2) ev]
  have "refs_of a (held_refs held + donor_refs c' + lost_refs L + mset (en_blocks e))"
    using D(1) by (simp add: donor_refs_def V(1) ac_simps)
  from pool.release_holder [OF this]
  have refs: "refs_of (free a (en_blocks e)) (held_refs held + donor_refs c' + lost_refs L)" .
  have slots: "mset (pc_free_donor_slots c') + image_mset en_seq (donors c') + image_mset fst L = donor_slots n c'"
    using D(4) by (simp add: V donor_slots_def)
  show ?thesis
    by (rule kv_accI [OF refs V(3) _ slots D(5,6) _ D(8) D(9) [OF V(7)]])
       (simp_all add: V(6) D(3) D(7) [unfolded V(1)])
qed

text \<open>
  Taking a donor slot: until a prefix is retained in it, the slot counts as lost (with no
  block), and if the copy into it fails it stays so.
\<close>

lemma kv_take_slot:
  assumes acc: "kv_acc n a c held L" and tk: "take_donor_slot c = (Some slot, c')"
  shows "kv_acc n a c' held (add_mset (slot, []) L)" and "slot \<ge> int n"
proof -
  note D = kv_accD [OF acc]
  note F = take_donor_slot_frame [OF tk]
  have m: "mset (pc_free_donor_slots c) = add_mset slot (mset (pc_free_donor_slots c'))"
    using tk by (cases rule: take_donor_slot_cases [of c]) auto
  have refs: "refs_of a (held_refs held + donor_refs c' + lost_refs (add_mset (slot, []) L))"
    using D(1) by (simp add: donor_refs_def F(5))
  have sl: "mset (pc_free_donor_slots c') + image_mset en_seq (donors c') +
      image_mset fst (add_mset (slot, []) L) = donor_slots n c'"
    using D(4) by (simp add: F m donor_slots_def)
  show "kv_acc n a c' held (add_mset (slot, []) L)"
    by (rule kv_accI [OF refs _ _ sl D(5,6) _ _ D(9) [folded F(6)]]) (auto simp: F D(2,3,7) dest: D(8))
  have "slot \<in># donor_slots n c" using D(4) by (simp add: m) (metis union_single_eq_member)
  then show "slot \<ge> int n" by (auto simp: donor_slots_def)
qed

text \<open>
  Writing an entry into the cache. Whatever retained entry was stored under the same hash
  is lost from then on: this is the one way a donor leaks.
\<close>

definition overwritten :: "PrefixCache \<Rightarrow> 64 word \<Rightarrow> (SeqId \<times> BlockId list) multiset" where
  "overwritten c h = image_mset (\<lambda>e. (en_seq e, en_blocks e)) (filter_mset en_retained (opt_mset (entry_at c h)))"

lemma overwritten_cases:
  "overwritten c h = {#} \<or> (\<exists>e. entry_at c h = Some e \<and> en_retained e \<and> overwritten c h = {#(en_seq e, en_blocks e)#})"
  by (cases "entry_at c h") (auto simp: overwritten_def)

lemma donor_split:
  assumes "keys_ok c" and "donors c' + filter_mset en_retained (opt_mset (entry_at c h)) = donors c + M"
  shows "donor_refs c' + lost_refs (overwritten c h) = donor_refs c + (\<Sum>e\<in>#M. mset (en_blocks e))"
    and "image_mset en_seq (donors c') + image_mset fst (overwritten c h) = image_mset en_seq (donors c) + image_mset en_seq M"
proof -
  from arg_cong [OF assms(2), of "\<lambda>D. (\<Sum>e\<in>#D. mset (en_blocks e))"]
  show "donor_refs c' + lost_refs (overwritten c h) = donor_refs c + (\<Sum>e\<in>#M. mset (en_blocks e))"
    by (simp add: donor_refs_def lost_refs_def overwritten_def image_mset.compositionality comp_def)
  from arg_cong [OF assms(2), of "image_mset en_seq"]
  show "image_mset en_seq (donors c') + image_mset fst (overwritten c h) = image_mset en_seq (donors c) + image_mset en_seq M"
    by (simp add: overwritten_def image_mset.compositionality comp_def)
qed

lemma overwritten_distinct:
  assumes "kv_acc n a c held L" and "x \<in># overwritten c h"
  shows "distinct (snd x)"
  using overwritten_cases [of c h] assms(2) kv_entry_blocks(1) [OF assms(1)] by auto

lemma kv_publish:
  assumes acc: "kv_acc n a c held L" and "(q, bs) \<in> set held" and "prefix (en_blocks e) bs"
    and "en_seq e = q" and "\<not> en_retained e"
  shows "kv_acc n a (insert_entry c h e) held (L + overwritten c h)"
proof -
  note D = kv_accD [OF acc]
  have ins: "donors (insert_entry c h e) + filter_mset en_retained (opt_mset (entry_at c h)) = donors c + {#}"
    using donors_insert [OF D(2), of h e] assms(5) by simp
  note S = donor_split [OF D(2) ins]
  have sub: "donors (insert_entry c h e) \<subseteq># donors c" using ins by (metis add.right_neutral mset_subset_eq_add_left)
  have refs: "refs_of a (held_refs held + donor_refs (insert_entry c h e) + lost_refs (L + overwritten c h))"
    using D(1) S(1) by (simp add: ac_simps)
  have slots: "mset (pc_free_donor_slots (insert_entry c h e)) + image_mset en_seq (donors (insert_entry c h e)) +
      image_mset fst (L + overwritten c h) = donor_slots n (insert_entry c h e)"
    using D(4) S(2) by (simp add: insert_entry_frame donor_slots_def ac_simps)
  have live: "\<exists>bs. (en_seq e', bs) \<in> set held \<and> prefix (en_blocks e') bs"
    if "entry_at (insert_entry c h e) h' = Some e'" "\<not> en_retained e'" for h' e'
    using that D(9) [of h' e'] assms(2-4) by (auto simp: entry_at_insert split: if_splits)
  show ?thesis
    by (rule kv_accI [OF refs insert_entry_keys [OF D(2)] _ slots D(5,6) _ _ live])
       (use D(3) D(7) [OF mset_subset_eqD [OF sub]] D(8) overwritten_distinct [OF acc] in \<open>auto simp: insert_entry_frame\<close>)
qed

lemma kv_retain:
  assumes acc: "kv_acc n a c held (add_mset (slot, []) L)" and "(q, bs) \<in> set held"
    and a': "a' = fold (\<lambda>b p. incref p b) (take nb bs) a"
  shows "kv_acc n a' (retain c h slot k (take nb bs)) held (L + overwritten c h)"
proof -
  note D = kv_accD [OF acc]
  let ?e = "\<lparr>en_seq = slot, en_n_tokens = k, en_blocks = take nb bs, en_retained = True\<rparr>"
  let ?c = "insert_entry c h ?e"
  have ins: "donors ?c + filter_mset en_retained (opt_mset (entry_at c h)) = donors c + {#?e#}"
    using donors_insert [OF D(2), of h ?e] by simp
  note S = donor_split [OF D(2) ins]
  obtain xs ys where held: "held = xs @ (q, bs) # ys" using assms(2) by (meson split_list)
  have dist: "distinct (take nb bs)" using D(6) [OF assms(2)] by simp
  have sub: "set (take nb bs) \<subseteq> set_mset (held_refs held + donor_refs c + lost_refs (add_mset (slot, []) L))"
    using set_take_subset [of nb bs] by (auto simp: held)
  have "refs_of a' (held_refs held + donor_refs c + lost_refs (add_mset (slot, []) L) + mset (take nb bs))"
    unfolding a' using pool.share_list_refs [OF D(1) dist sub] kv_count_bound [OF acc] by blast
  then have refs: "refs_of a' (held_refs held + donor_refs ?c + lost_refs (L + overwritten c h))"
    using S(1) by (simp add: ac_simps)
  have slots: "mset (pc_free_donor_slots ?c) + image_mset en_seq (donors ?c) +
      image_mset fst (L + overwritten c h) = donor_slots n ?c"
    using D(4) S(2) by (simp add: insert_entry_frame donor_slots_def ac_simps)
  have live: "\<exists>bs. (en_seq e', bs) \<in> set held \<and> prefix (en_blocks e') bs"
    if "entry_at ?c h' = Some e'" "\<not> en_retained e'" for h' e'
    using that D(9) [of h' e'] by (auto simp: entry_at_insert split: if_splits)
  have dd: "distinct (en_blocks e')" if "e' \<in># donors ?c" for e'
  proof -
    have "e' \<in># donors c + {#?e#}" using that ins by (metis union_iff)
    then show ?thesis using D(7) dist by auto
  qed
  show ?thesis
    unfolding retain_def
    by (rule kv_accI [OF refs insert_entry_keys [OF D(2)] _ slots D(5,6) dd _ live])
       (use D(3) D(8) overwritten_distinct [OF acc] in \<open>auto simp: insert_entry_frame\<close>)
qed

text \<open>A new sequence: fresh blocks, then the shared blocks of the entry it hits.\<close>

lemma kv_admit:
  assumes acc: "kv_acc n a c held L" and new: "ensure_capacity a BlockTable_new k = (r, a1, t1)"
    and hit: "entry_at c h = Some e" and ad: "adopt_shared_prefix a1 t1 (en_blocks e) m = (a2, t2)"
    and q: "q \<notin> fst ` set held" "0 \<le> q" "q < int n"
  shows "kv_acc n a2 c (held @ [(q, bt_blocks t2)]) L"
proof -
  note D = kv_accD [OF acc]
  let ?H = "held_refs held + donor_refs c + lost_refs L"
  obtain bs where bs: "bt_blocks t1 = bs" "refs_of a1 (?H + mset bs)" "distinct bs" "set bs \<inter> set_mset ?H = {}"
    by (rule ensure_capacity_refs [OF D(1) _ new]) (auto simp: BlockTable_new_def table_ok_def)
  note B = kv_entry_blocks [OF acc hit]
  have sub: "set (en_blocks e) \<subseteq> set_mset ?H"
    using set_mset_mono [OF B(2)] by auto
  have acc1: "kv_acc n a1 c (held @ [(q, bt_blocks t1)]) L"
    using kv_grow(1) [of n a c held q BlockTable_new "[]" L, OF _ new] kv_add_empty [OF acc q]
    by (simp add: BlockTable_new_def)
  have bound: "count (?H + mset bs) b < 4294967295" for b
    using kv_count_bound [OF acc1, of b] by (simp add: bs(1) ac_simps)
  note A = adopt_shared_prefix_refs [OF bs(2) B(1) _ bound ad]
  have refs: "refs_of a2 (?H + mset bs + mset (en_blocks e))" and t2: "bt_blocks t2 = bs @ en_blocks e"
    using A sub bs(1) by auto
  have dist: "distinct (bt_blocks t2)" using bs(3,4) B(1) sub by (auto simp: t2)
  have refs2: "refs_of a2 (held_refs (held @ [(q, bt_blocks t2)]) + donor_refs c + lost_refs L)"
    using refs by (simp add: t2 ac_simps)
  have hs: "0 \<le> fst x \<and> fst x < int n \<and> distinct (snd x)" if "x \<in> set (held @ [(q, bt_blocks t2)])" for x
    using that D(6) [of x] dist q by auto
  have live: "\<exists>bs. (en_seq e', bs) \<in> set (held @ [(q, bt_blocks t2)]) \<and> prefix (en_blocks e') bs"
    if "entry_at c h' = Some e'" "\<not> en_retained e'" for h' e'
    using D(9) [OF that] by auto
  show ?thesis
    by (rule kv_accI [OF refs2 D(2-4) _ hs D(7,8) live]) (use D(5) q in auto)
qed

section \<open>What the accounting gives\<close>

text \<open>
  When nothing runs, nothing is retained and no donor was lost, the pool is whole again.
\<close>

lemma kv_all_returned:
  assumes "kv_acc n a c [] L" and "donors c = {#}" and "L = {#}"
  shows "free_blocks a = ba_total a"
proof -
  have "refs_of a {#}" using kv_accD(1) [OF assms(1)] by (simp add: donor_refs_def assms)
  then show ?thesis using free_blocks_refs [of a "{#}"] by simp
qed

lemma kv_no_donors:
  assumes "kv_acc n a c held L" and "pc_donor_capacity c = 0"
  shows "donors c = {#}" and "L = {#}"
  using donors_and_lost_le [OF assms(1)] assms(2) by auto

end
