(* ===== verification/Mv_ContinuousInv.thy ===== *)
theory Mv_ContinuousInv
  imports Mv_Continuous Mv_KvAccounting
begin

text \<open>
  The invariant of the continuous-batching loop and its preservation by every phase, for
  any engine, clock, clients and queue traffic: requests are conserved, slots are neither
  shared nor lost, every block reference is accounted for, every job and every fulfilled
  promise is well formed.
\<close>

section \<open>The invariant\<close>

definition holders_of :: "Job list \<Rightarrow> holders" where
  "holders_of active = map (\<lambda>j. (job_seq j, bt_blocks (job_table j))) active"

text \<open>What the sink of a request had received before the job existed.\<close>

definition sink_base :: "Request \<Rightarrow> sink_call list" where
  "sink_base r = (case rq_sink r of Some calls \<Rightarrow> calls | None \<Rightarrow> [])"

definition job_ok :: "Job \<Rightarrow> bool" where
  "job_ok j \<longleftrightarrow> seq_inv (sink_base (jb_request j)) (jb_state j) \<and>
     sq_spec (jb_state j) = rq_spec (jb_request j) \<and> request_ok (jb_request j)"

text \<open>A fulfilled promise carries the outcome of a sequence that has told its sink.\<close>

definition delivered_ok :: "Request \<times> GenResult \<times> sink_call list \<Rightarrow> bool" where
  "delivered_ok d \<longleftrightarrow> (case d of (r, g, calls) \<Rightarrow>
     \<exists>st. seq_inv (sink_base r) st \<and> sq_notified st \<and> sq_spec st = rq_spec r \<and> calls = sq_sink st \<and>
       gr_text g = emitted_text st \<and> gr_reason g = sq_reason st \<and> gr_usage g = sq_usage st \<and>
       tm_finished (gr_timing g) \<noteq> None)"

definition pool_is :: "SchedulerConfig \<Rightarrow> BlockAllocator \<Rightarrow> bool" where
  "pool_is cf a \<longleftrightarrow> ba_total a = cf_kv_blocks cf \<and> ba_block_size a = cf_block_size cf"

definition slots_of :: "SchedulerConfig \<Rightarrow> SeqId multiset" where
  "slots_of cf = mset (map int [0..<cf_max_batch_size cf])"

definition inv_core ::
  "SchedulerConfig \<Rightarrow> queue_world \<Rightarrow> BlockAllocator \<Rightarrow> PrefixCache \<Rightarrow> SeqId list \<Rightarrow> Job list \<Rightarrow>
   Request list \<Rightarrow> (Request \<times> GenResult \<times> sink_call list) list \<Rightarrow> bool" where
  "inv_core cf w a c fs active pend ful \<longleftrightarrow>
     mset fs + mset (map job_seq active) = slots_of cf \<and>
     length pend + length active \<le> cf_max_batch_size cf \<and>
     outside w (tickets pend + tickets (map jb_request active) + tickets (map fst ful)) \<and>
     (\<exists>L. kv_acc (cf_max_batch_size cf) a c (holders_of active) L) \<and> pool_is cf a \<and>
     list_all job_ok active \<and> list_all request_ok pend \<and> world_ok w \<and> list_all delivered_ok ful"

definition loop_inv :: "('e, 'm) Loop_scheme \<Rightarrow> bool" where
  "loop_inv s = inv_core (sd_config s) (sd_queue s) (sd_blocks s) (sd_prefix_cache s)
     (lp_free_slots s) (lp_active s) (lp_pending s) (sd_fulfilled s)"

lemma holders_of_simps [simp]:
  "holders_of [] = []" "holders_of (j # js) = (job_seq j, bt_blocks (job_table j)) # holders_of js"
  "holders_of (js @ js') = holders_of js @ holders_of js'"
  by (simp_all add: holders_of_def)

lemma fst_holders [simp]: "map fst (holders_of active) = map job_seq active"
  "fst ` set (holders_of active) = job_seq ` set active"
  by (simp_all add: holders_of_def comp_def image_image)

lemma inv_coreD:
  assumes "inv_core cf w a c fs active pend ful"
  shows "mset fs + mset (map job_seq active) = slots_of cf"
    and "length pend + length active \<le> cf_max_batch_size cf"
    and "outside w (tickets pend + tickets (map jb_request active) + tickets (map fst ful))"
    and "\<exists>L. kv_acc (cf_max_batch_size cf) a c (holders_of active) L" and "pool_is cf a"
    and "list_all job_ok active" and "list_all request_ok pend" and "world_ok w" and "list_all delivered_ok ful"
  using assms by (simp_all add: inv_core_def)

lemma inv_coreI:
  assumes "mset fs + mset (map job_seq active) = slots_of cf"
    and "length pend + length active \<le> cf_max_batch_size cf"
    and "outside w (tickets pend + tickets (map jb_request active) + tickets (map fst ful))"
    and "kv_acc (cf_max_batch_size cf) a c (holders_of active) L" and "pool_is cf a"
    and "list_all job_ok active" and "list_all request_ok pend" and "world_ok w" and "list_all delivered_ok ful"
  shows "inv_core cf w a c fs active pend ful"
  using assms by (auto simp: inv_core_def)

lemma slots_facts:
  assumes "mset fs + mset (map job_seq active) = slots_of cf"
  shows "distinct (map job_seq active)" and "distinct fs" and "set fs \<inter> job_seq ` set active = {}"
    and "\<And>q. q \<in> set fs \<or> q \<in> job_seq ` set active \<longleftrightarrow> 0 \<le> q \<and> q < int (cf_max_batch_size cf)"
    and "length fs + length active = cf_max_batch_size cf"
proof -
  have m: "mset (fs @ map job_seq active) = mset (map int [0..<cf_max_batch_size cf])"
    using assms by (simp add: slots_of_def)
  have "distinct (fs @ map job_seq active)"
    using mset_eq_imp_distinct_iff [OF m] by (simp add: distinct_map)
  then show "distinct (map job_seq active)" "distinct fs" "set fs \<inter> job_seq ` set active = {}" by auto
  have "set (fs @ map job_seq active) = int ` {0..<cf_max_batch_size cf}"
    using mset_eq_setD [OF m] by simp
  then have s: "set fs \<union> job_seq ` set active = int ` {0..<cf_max_batch_size cf}" by simp
  show "\<And>q. q \<in> set fs \<or> q \<in> job_seq ` set active \<longleftrightarrow> 0 \<le> q \<and> q < int (cf_max_batch_size cf)"
  proof -
    fix q
    have "q \<in> set fs \<or> q \<in> job_seq ` set active \<longleftrightarrow> q \<in> int ` {0..<cf_max_batch_size cf}" using s by blast
    also have "\<dots> \<longleftrightarrow> 0 \<le> q \<and> q < int (cf_max_batch_size cf)"
      by (auto simp: image_iff intro: bexI [of _ "nat q"])
    finally show "q \<in> set fs \<or> q \<in> job_seq ` set active \<longleftrightarrow> 0 \<le> q \<and> q < int (cf_max_batch_size cf)" .
  qed
  show "length fs + length active = cf_max_batch_size cf"
    using arg_cong [OF m, of size] by simp
qed

section \<open>Replacing one job\<close>

lemma job_at_Some: "job_at q active = Some j \<Longrightarrow> j \<in> set active \<and> job_seq j = q"
  by (auto simp: job_at_def find_Some_iff)

lemma put_job_split:
  assumes "distinct (map job_seq active)" and "job_at q active = Some j"
  obtains xs ys where "active = xs @ j # ys" "\<And>j'. job_seq j' = q \<Longrightarrow> put_job j' active = xs @ j' # ys"
proof -
  from job_at_Some [OF assms(2)] obtain xs ys where a: "active = xs @ j # ys" and q: "job_seq j = q"
    by (meson split_list)
  have ne: "job_seq x \<noteq> q" if "x \<in> set xs \<union> set ys" for x
    using assms(1) that q by (auto simp: a dest: rev_image_eqI [OF _ sym])
  have "put_job j' active = xs @ j' # ys" if "job_seq j' = q" for j'
    using ne that q by (auto simp: a put_job_def intro!: map_idI)
  with a that show thesis by blast
qed

lemma put_job_seqs [simp]: "map job_seq (put_job j active) = map job_seq active"
  by (simp add: put_job_def comp_def)

lemma put_job_length [simp]: "length (put_job j active) = length active"
  by (simp add: put_job_def)

text \<open>
  The step that most of the loop takes: one job changes its state or its page table, and
  the pool and the cache change with it.
\<close>

lemma replace_job:
  assumes inv: "inv_core cf w a c fs active pend ful" and j: "job_at q active = Some j"
    and j': "job_ok j'" "job_seq j' = q" "ticket (jb_request j') = ticket (jb_request j)"
    and pool: "pool_is cf a'"
    and kv: "\<And>xs ys L. active = xs @ j # ys \<Longrightarrow>
      kv_acc (cf_max_batch_size cf) a c (holders_of xs @ (q, bt_blocks (job_table j)) # holders_of ys) L \<Longrightarrow>
      \<exists>L'. kv_acc (cf_max_batch_size cf) a' c' (holders_of xs @ (q, bt_blocks (job_table j')) # holders_of ys) L'"
  shows "inv_core cf w a' c' fs (put_job j' active) pend ful"
proof -
  note D = inv_coreD [OF inv]
  obtain xs ys where a: "active = xs @ j # ys" and p: "put_job j' active = xs @ j' # ys"
    using put_job_split [OF slots_facts(1) [OF D(1)] j] j'(2) by metis
  have q: "job_seq j = q" using job_at_Some [OF j] by simp
  obtain L where "kv_acc (cf_max_batch_size cf) a c (holders_of active) L" using D(4) by blast
  then have "kv_acc (cf_max_batch_size cf) a c (holders_of xs @ (q, bt_blocks (job_table j)) # holders_of ys) L"
    by (simp add: a q)
  from kv [OF a this] obtain L' where L': "kv_acc (cf_max_batch_size cf) a' c' (holders_of (put_job j' active)) L'"
    by (auto simp: p j'(2))
  show ?thesis
    by (rule inv_coreI [OF _ _ _ L' pool _ D(7-9)]) (use D(1-3,6) in \<open>simp_all add: a p [unfolded a] q j'\<close>)
qed

lemma job_table_upd [simp]: "job_table (j\<lparr>jb_blocks := Some t\<rparr>) = t"
  "job_table (j\<lparr>jb_state := st\<rparr>) = job_table j" "job_table (j\<lparr>jb_request := r\<rparr>) = job_table j"
  by (simp_all add: job_table_def)

lemma job_seq_upd [simp]: "job_seq (j\<lparr>jb_blocks := t\<rparr>) = job_seq j" "job_seq (j\<lparr>jb_request := r\<rparr>) = job_seq j"
  "job_seq (j\<lparr>jb_state := st\<rparr>) = sq_seq st"
  by (simp_all add: job_seq_def)

lemma job_ok_blocks [simp]: "job_ok (j\<lparr>jb_blocks := t\<rparr>) = job_ok j"
  by (simp add: job_ok_def)

lemma job_ok_at: "list_all job_ok active \<Longrightarrow> job_at q active = Some j \<Longrightarrow> job_ok j"
  using job_at_Some by (fastforce simp: list_all_iff)

text \<open>A job keeps being well formed when only its state machine moves.\<close>

lemma job_ok_state:
  "job_ok j \<Longrightarrow> seq_inv (sink_base (jb_request j)) st \<Longrightarrow> sq_spec st = sq_spec (jb_state j) \<Longrightarrow>
    job_ok (j\<lparr>jb_state := st\<rparr>)"
  by (simp add: job_ok_def)

lemma accept_inv_any: "seq_inv base s \<Longrightarrow> seq_inv base (snd (accept piece cxl s step))"
  using accept_inv [of base s piece cxl step] by (cases "sq_notified s") (auto simp: seq_inv_def accept_def)

lemma fail_frame [simp]:
  "sq_seq (fail s m r) = sq_seq s" "sq_spec (fail s m r) = sq_spec s" "sq_finished (fail s m r)"
  "sq_prompt (fail s m r) = sq_prompt s" "sq_usage (fail s m r) = sq_usage s"
  by (simp_all add: fail_def)

section \<open>Donors\<close>

lemma free_pool_is: "pool_is cf a \<Longrightarrow> pool_is cf (free a bs)"
  by (simp add: pool_is_def free_frame)

lemma ensure_pool_is: "pool_is cf a \<Longrightarrow> ensure_capacity a t n = (r, a', t') \<Longrightarrow> pool_is cf a'"
  using ensure_capacity_frame [of a t n r a' t'] by (simp add: pool_is_def)

lemma incref_pool_is: "pool_is cf a \<Longrightarrow> pool_is cf (fold (\<lambda>b p. incref p b) bs a)"
  by (simp add: pool_is_def fold_incref_frame)

lemma reclaim_donor_acc:
  assumes "kv_acc n (sd_blocks s) (sd_prefix_cache s) held L" and "reclaim_donor_blocks E s = (b, s')"
  shows "kv_acc n (sd_blocks s') (sd_prefix_cache s') held L"
proof (cases "evict_lru_retained (sd_prefix_cache s)")
  case (Pair v c)
  show ?thesis
  proof (cases v)
    case None
    with Pair have "c = sd_prefix_cache s" using evict_lru_None [of "sd_prefix_cache s" c] by simp
    with assms Pair None show ?thesis by (auto simp: reclaim_donor_blocks_def)
  next
    case (Some e)
    with assms(2) Pair kv_donor_release [OF assms(1), of e c] show ?thesis
      by (auto simp: reclaim_donor_blocks_def release_donor_def)
  qed
qed

lemma reclaim_donor_frame:
  assumes "reclaim_donor_blocks E s = (b, s')"
  shows "sd_config s' = sd_config s" "sd_queue s' = sd_queue s" "sd_fulfilled s' = sd_fulfilled s"
    "pool_is cf (sd_blocks s) \<Longrightarrow> pool_is cf (sd_blocks s')" "Scheduler.more s' = Scheduler.more s"
    "sd_ticks s' = sd_ticks s"
  using assms by (auto simp: reclaim_donor_blocks_def release_donor_def free_pool_is split: prod.splits option.splits)

lemma loop_inv_frame:
  assumes "loop_inv s" and "sd_config s' = sd_config s" and "sd_queue s' = sd_queue s"
    and "sd_fulfilled s' = sd_fulfilled s" and "lp_free_slots s' = lp_free_slots s"
    and "lp_active s' = lp_active s" and "lp_pending s' = lp_pending s"
    and "pool_is (sd_config s) (sd_blocks s')"
    and "\<And>L. kv_acc (cf_max_batch_size (sd_config s)) (sd_blocks s) (sd_prefix_cache s) (holders_of (lp_active s)) L \<Longrightarrow>
      \<exists>L'. kv_acc (cf_max_batch_size (sd_config s)) (sd_blocks s') (sd_prefix_cache s') (holders_of (lp_active s)) L'"
  shows "loop_inv s'"
  using assms by (auto simp: loop_inv_def inv_core_def)

lemma lp_more:
  assumes "Scheduler.more s' = Scheduler.more s"
  shows "lp_free_slots s' = lp_free_slots s" "lp_active s' = lp_active s" "lp_pending s' = lp_pending s"
  using assms by (cases s, cases s', simp)+

lemma reclaim_donor_inv:
  assumes inv: "loop_inv s" and run: "reclaim_donor_blocks E s = (b, s')"
  shows "loop_inv s'"
  using inv reclaim_donor_frame(1-3) [OF run] lp_more [OF reclaim_donor_frame(5) [OF run]]
proof (rule loop_inv_frame)
  show "pool_is (sd_config s) (sd_blocks s')"
    using inv by (intro reclaim_donor_frame(4) [OF run]) (simp add: loop_inv_def inv_core_def)
qed (use reclaim_donor_acc [OF _ run] in blast)

lemma reclaim_until_inv: "loop_inv s \<Longrightarrow> loop_inv (reclaim_until E limit s)"
proof (induction E limit s rule: reclaim_until.induct)
  case (1 E limit s)
  show ?case
  proof (cases "free_blocks (sd_blocks s) < limit")
    case True
    obtain b s1 where b: "reclaim_donor_blocks E s = (b, s1)" by (cases "reclaim_donor_blocks E s")
    from reclaim_donor_inv [OF 1(2) b] 1(1) [OF True b [symmetric]] show ?thesis
      by (cases b) (simp_all add: reclaim_until.simps [of E limit s] True b)
  next
    case False
    with 1(2) show ?thesis by (simp add: reclaim_until.simps [of E limit s])
  qed
qed

section \<open>Taking work\<close>

lemma inv_core_take:
  assumes inv: "inv_core cf w a c fs active pend ful"
    and out: "\<And>M. outside w M \<Longrightarrow> outside w' (M + opt_tickets r)"
    and ok: "world_ok w' \<and> (\<forall>x. r = Some x \<longrightarrow> request_ok x)"
    and "length pend + length active < cf_max_batch_size cf"
  shows "inv_core cf w' a c fs active (pend @ (case r of None \<Rightarrow> [] | Some x \<Rightarrow> [x])) ful"
proof -
  note D = inv_coreD [OF inv]
  obtain L where L: "kv_acc (cf_max_batch_size cf) a c (holders_of active) L" using D(4) by blast
  show ?thesis
    by (rule inv_coreI [OF D(1) _ _ L D(5,6) _ _ D(9)])
       (use out [OF D(3)] ok D(7) assms(4) in \<open>auto simp: ac_simps split: option.splits\<close>)
qed

lemma take_one_inv:
  assumes inv: "loop_inv s" and run: "take_one s = Some (r, s')"
    and room: "length (lp_pending s) + length (lp_active s) < cf_max_batch_size (sd_config s)"
  shows "loop_inv (s'\<lparr>lp_pending := lp_pending s' @ (case r of None \<Rightarrow> [] | Some x \<Rightarrow> [x])\<rparr>)"
proof -
  from run obtain w' where s': "s' = s\<lparr>sd_queue := w'\<rparr>"
    and w: "world_pop (sd_queue s) = Some (r, w') \<or> world_try_pop (sd_queue s) = (r, w')"
    by (auto simp: take_one_def split: if_splits prod.splits)
  have "world_ok (sd_queue s)" using inv by (simp add: loop_inv_def inv_core_def)
  then have "world_ok w' \<and> (\<forall>x. r = Some x \<longrightarrow> request_ok x)"
    using w world_pop_ok world_try_pop_ok by blast
  moreover have "outside w' (M + opt_tickets r)" if "outside (sd_queue s) M" for M
    using w world_pop_outside [OF that] world_try_pop_outside [OF that] by blast
  ultimately show ?thesis
    using inv_core_take [OF inv [unfolded loop_inv_def] _ _ room, of w' r] by (simp add: loop_inv_def s')
qed

lemma take_work_inv: "loop_inv s \<Longrightarrow> take_work s = Some s' \<Longrightarrow> loop_inv s'"
proof (induction s arbitrary: s' rule: take_work.induct)
  case (1 s)
  show ?case
  proof (cases "length (lp_pending s) + length (lp_active s) < cf_max_batch_size (sd_config s)")
    case True
    from 1(3) True obtain r s1 where t: "take_one s = Some (r, s1)"
      by (cases "take_one s") (auto simp: take_work.simps [of s])
    note inv = take_one_inv [OF 1(2) t True]
    show ?thesis
    proof (cases r)
      case None
      with inv 1(3) True t show ?thesis by (simp add: take_work.simps [of s])
    next
      case (Some x)
      with 1(3) True t have "take_work (s1\<lparr>lp_pending := lp_pending s1 @ [x]\<rparr>) = Some s'"
        by (simp add: take_work.simps [of s])
      with 1(1) [OF True t [unfolded Some] refl refl] inv Some show ?thesis by simp
    qed
  next
    case False
    with 1(2,3) show ?thesis by (simp add: take_work.simps [of s])
  qed
qed

text \<open>If the loop finds nothing to do, the queue is closed and drained.\<close>

lemma world_pop_closed:
  "world_pop w = Some (None, w') \<Longrightarrow> qu_closed (qw_queue w') \<and> qu_queue (qw_queue w') = []"
  by (auto simp: world_pop_def Let_def dest: pop_wait_closed)

section \<open>Delivery\<close>

lemma delivery_ok: "job_ok j \<Longrightarrow> sq_notified (jb_state j) \<Longrightarrow> delivered_ok (delivery X n j)"
  by (auto simp: delivery_def delivered_ok_def job_ok_def job_result_def)

lemma deliver_same [simp]:
  "sd_config (deliver X s j) = sd_config s" "sd_queue (deliver X s j) = sd_queue s"
  "sd_blocks (deliver X s j) = sd_blocks s" "sd_prefix_cache (deliver X s j) = sd_prefix_cache s"
  "sd_engine (deliver X s j) = sd_engine s"
  by (simp_all add: deliver_def Let_def clock_now_def split: prod.splits)

section \<open>Admission\<close>

lemma make_job_ok:
  assumes "make_job E e r q = (x, job, e')" and "request_ok r"
  shows "job_ok job" and "job_seq job = q" and "jb_request job = r"
    and "\<not> job_done job \<Longrightarrow> \<not> sq_notified (jb_state job)" and "job_done job \<Longrightarrow> sq_reason (jb_state job) = kContextOverflow"
proof -
  let ?st = "SequenceState_new q (rq_spec r) (sink_base r) (eg_tokenize E e (prompt (rq_spec r)) True)"
  have new: "seq_inv (sink_base r) ?st"
    using assms(2) by (intro seq_inv_new) (simp add: request_ok_def)
  have nf: "\<not> sq_finished ?st" "sq_spec ?st = rq_spec r" "sq_seq ?st = q" "\<not> sq_notified ?st"
    by (simp_all add: SequenceState_new_def)
  from assms(1) have r: "jb_request job = r" and "\<exists>b m. jb_state job = (if b then fail ?st m kContextOverflow else ?st)"
    by (fastforce simp: make_job_def Let_def sink_base_def split: prod.splits)+
  then have job: "jb_request job = r" "jb_state job = ?st \<or> (\<exists>m. jb_state job = fail ?st m kContextOverflow)"
    by (auto split: if_splits)
  then show "job_ok job" "job_seq job = q" "jb_request job = r"
    "\<not> job_done job \<Longrightarrow> \<not> sq_notified (jb_state job)" "job_done job \<Longrightarrow> sq_reason (jb_state job) = kContextOverflow"
    using new nf assms(2) fail_inv [OF new nf(1), of kContextOverflow]
    by (auto simp: job_ok_def job_seq_def job_done_def fail_def)
qed

lemma admit_fits_cases:
  assumes run: "admit_fits s job limit = (fits, job2, s2)" and tab: "job_table job = BlockTable_new"
    and acc: "kv_acc n (sd_blocks s) (sd_prefix_cache s) held L"
  obtains (failed) "job_done job" "fits" "job2 = job" "s2 = s"
  | (fits) a t where "\<not> job_done job" "fits"
      "ensure_capacity (sd_blocks s) BlockTable_new (prompt_tokens (sq_usage (jb_state job))) = (True, a, t)"
      "job2 = job\<lparr>jb_blocks := Some t\<rparr>" "s2 = s\<lparr>sd_blocks := a\<rparr>"
  | (short) "\<not> job_done job" "\<not> fits" "s2 = s" "jb_state job2 = jb_state job" "jb_request job2 = jb_request job"
proof (cases "job_done job")
  case True
  with run show thesis by (intro failed) (simp_all add: admit_fits_def)
next
  case nd: False
  obtain ok a t where e: "ensure_capacity (sd_blocks s) BlockTable_new (prompt_tokens (sq_usage (jb_state job))) = (ok, a, t)"
    by (metis prod_cases3)
  have tok: "table_ok H BlockTable_new" for H by simp
  show thesis
  proof (cases "free_blocks (sd_blocks s) \<ge> limit \<and> ok")
    case True
    with run nd e tab show thesis by (intro fits [of a t]) (auto simp: admit_fits_def)
  next
    case False
    have "a = sd_blocks s" if "\<not> ok"
      using ensure_capacity_cases [OF kv_accD(1) [OF acc] tok e] that by metis
    with False run nd e tab show thesis by (intro short) (auto simp: admit_fits_def split: if_splits)
  qed
qed

lemma share_prefix_kv:
  assumes run: "share_prefix E s2 job2 = Inr (job3, s3)"
    and e: "ensure_capacity a BlockTable_new k = (True, sd_blocks s2, job_table job2)"
    and acc: "kv_acc n a (sd_prefix_cache s2) held L"
    and q: "job_seq job2 \<notin> fst ` set held" "0 \<le> job_seq job2" "job_seq job2 < int n"
  shows "kv_acc n (sd_blocks s3) (sd_prefix_cache s3) (held @ [(job_seq job2, bt_blocks (job_table job3))]) L"
proof -
  have grown: "kv_acc n (sd_blocks s2) c (held @ [(job_seq job2, bt_blocks (job_table job2))]) L"
    if "kv_acc n a c held L" for c
    using kv_grow(1) [of n a c held "job_seq job2" BlockTable_new "[]" L, OF _ e] kv_add_empty [OF that q]
    by (simp add: BlockTable_new_def)
  show ?thesis
  proof (cases "cf_prefix_caching (sd_config s2) \<and> \<not> job_done job2")
    case False
    with run grown [OF acc] show ?thesis by (auto simp: share_prefix_def)
  next
    case True
    obtain hit c where f: "find_longest (sd_prefix_cache s2) (sq_prompt (jb_state job2)) (ba_block_size (sd_blocks s2)) = (hit, c)"
      by fastforce
    note acc' = kv_find [OF acc f]
    show ?thesis
    proof (cases hit)
      case None
      with run True f grown [OF acc'] show ?thesis by (auto simp: share_prefix_def)
    next
      case (Some en)
      from find_longest_entry [OF f [unfolded Some]] find_longest_frame(5) [OF kv_accD(2) [OF acc] f]
      obtain h where h: "entry_at c h = Some en" by auto
      obtain a2 t2 where ad: "adopt_shared_prefix (sd_blocks s2) (job_table job2) (en_blocks en) (en_n_tokens en) = (a2, t2)"
        by fastforce
      from kv_admit [OF acc' e h ad q] run True f Some ad grown [OF acc'] show ?thesis
        by (auto simp: share_prefix_def Let_def split: if_splits prod.splits option.splits)
    qed
  qed
qed

lemma share_prefix_frame:
  assumes run: "share_prefix E s2 job2 = Inr (job3, s3)" and ok: "job_ok job2"
  shows "job_ok job3" and "job_seq job3 = job_seq job2" and "jb_request job3 = jb_request job2"
    and "sd_config s3 = sd_config s2" "sd_queue s3 = sd_queue s2" "sd_fulfilled s3 = sd_fulfilled s2"
    and "lp_active s3 = lp_active s2" "lp_pending s3 = lp_pending s2" "lp_free_slots s3 = lp_free_slots s2"
    and "pool_is cf (sd_blocks s2) \<Longrightarrow> pool_is cf (sd_blocks s3)"
  using run ok
  by (auto simp: share_prefix_def Let_def job_ok_def adopt_cached_prefix_inv adopt_shared_prefix_eq incref_pool_is job_seq_def
      split: if_splits prod.splits option.splits)

lemma enter_job_inv:
  assumes inv: "inv_core (sd_config s) (sd_queue s) a c (lp_free_slots s) (lp_active s) (r # rest) (sd_fulfilled s)"
    and p: "lp_pending s = r # rest" and fs: "lp_free_slots s \<noteq> []"
    and job: "job_ok job" "job_seq job = last (lp_free_slots s)" "jb_request job = r"
    and pool: "pool_is (sd_config s) (sd_blocks s)"
    and kv: "kv_acc (cf_max_batch_size (sd_config s)) (sd_blocks s) (sd_prefix_cache s)
      (holders_of (lp_active s) @ [(job_seq job, bt_blocks (job_table job))]) L"
  shows "loop_inv (enter_job X s job)"
proof -
  note D = inv_coreD [OF inv]
  obtain t where e: "enter_job X s job =
      s\<lparr>sd_ticks := Suc (sd_ticks s), lp_pending := rest, lp_free_slots := butlast (lp_free_slots s),
        sd_stats := (sd_stats s)\<lparr>sx_admitted := u64 (sx_admitted (sd_stats s) + 1)\<rparr>,
        lp_active := lp_active s @ [job\<lparr>jb_request := r\<lparr>rq_timing := (rq_timing r)\<lparr>tm_admitted := Some t\<rparr>\<rparr>\<rparr>]\<rparr>"
    by (simp add: enter_job_def clock_now_def p job(3))
  let ?j = "job\<lparr>jb_request := r\<lparr>rq_timing := (rq_timing r)\<lparr>tm_admitted := Some t\<rparr>\<rparr>\<rparr>"
  have m: "mset (lp_free_slots s) = add_mset (job_seq job) (mset (butlast (lp_free_slots s)))"
    using mset_butlast [OF fs] job(2) by simp
  have ok: "job_ok ?j" using job(1,3) by (simp add: job_ok_def sink_base_def request_ok_def)
  have tk: "ticket (jb_request ?j) = ticket r" by (simp add: ticket_def)
  have kv': "kv_acc (cf_max_batch_size (sd_config s)) (sd_blocks s) (sd_prefix_cache s) (holders_of (lp_active s @ [?j])) L"
    using kv by simp
  have "inv_core (sd_config s) (sd_queue s) (sd_blocks s) (sd_prefix_cache s) (butlast (lp_free_slots s))
      (lp_active s @ [?j]) rest (sd_fulfilled s)"
    by (rule inv_coreI [OF _ _ _ kv' pool _ _ D(8,9)]) (use D(1-3,6,7) ok tk m in simp_all)
  then show ?thesis by (simp add: loop_inv_def e)
qed

lemma fulfil_inv:
  assumes inv: "inv_core cf w a c fs active (r # rest) ful" and d: "delivered_ok d" "ticket (fst d) = ticket r"
  shows "inv_core cf w a c fs active rest (ful @ [d])"
proof -
  note D = inv_coreD [OF inv]
  obtain L where L: "kv_acc (cf_max_batch_size cf) a c (holders_of active) L" using D(4) by blast
  show ?thesis by (rule inv_coreI [OF D(1) _ _ L D(5,6) _ D(8)]) (use D(2,3,7,9) d in \<open>simp_all add: ac_simps\<close>)
qed

lemma reject_job_inv:
  assumes inv: "loop_inv s" and p: "lp_pending s = r # rest"
    and job: "job_ok job" "jb_request job = r" "\<not> job_done job"
  shows "loop_inv (reject_job X E s job)"
proof -
  from job(1,3) have "seq_inv (sink_base (jb_request job)) (fail (jb_state job) m kContextOverflow)" for m
    by (intro fail_inv) (simp_all add: job_ok_def job_done_def)
  then have fin: "seq_inv (sink_base (jb_request job)) (finish (fail (jb_state job) m kContextOverflow))" for m
    by (intro finish_inv) simp_all
  define st where "st = finish (fail (jb_state job) (pool_message ''KV cache exhausted: prompt needs ''
    (blocks_for (sd_blocks s) (prompt_tokens (sq_usage (jb_state job))))
    '' blocks but the pool holds '' (ba_total (sd_blocks s))) kContextOverflow)"
  have ok: "job_ok (job\<lparr>jb_state := st\<rparr>)" "sq_notified (jb_state (job\<lparr>jb_state := st\<rparr>))"
    using job(1) fin by (simp_all add: job_ok_def st_def)
  define d where "d = delivery X (sd_ticks s) (job\<lparr>jb_state := st\<rparr>)"
  have d: "sd_fulfilled (reject_job X E s job) = sd_fulfilled s @ [d]" "fst d = r" "delivered_ok d"
    using delivery_ok [OF ok, of X "sd_ticks s"] by (simp_all add: reject_job_def deliver_fulfilled d_def st_def job(2))
  from fulfil_inv [OF inv [unfolded loop_inv_def p] d(3)] d show ?thesis
    by (simp add: loop_inv_def) (simp add: reject_job_def p)
qed

lemma reclaim_ticket [simp]: "ticket (reclaim job) = ticket (jb_request job)"
  by (simp add: reclaim_def ticket_def Let_def)

lemma reclaim_ok: "job_ok job \<Longrightarrow> request_ok (reclaim job)"
  by (simp add: reclaim_def request_ok_def job_ok_def Let_def)

lemma defer_job_inv:
  assumes inv: "loop_inv s" and p: "lp_pending s = r # rest" and job: "job_ok job" "jb_request job = r"
  shows "loop_inv (defer_job E s job)"
  using inv job reclaim_ok [OF job(1)]
  by (auto simp: loop_inv_def inv_core_def defer_job_def p)

lemma admit_one_inv:
  assumes inv: "loop_inv s" and ne: "lp_pending s \<noteq> []" "lp_free_slots s \<noteq> []"
    and run: "admit_one X E s = Inr (go, s')"
  shows "loop_inv s'"
proof -
  let ?q = "last (lp_free_slots s)"
  obtain r rest where p: "lp_pending s = r # rest" using ne(1) by (cases "lp_pending s") auto
  from run obtain job0 eng where mk: "make_job E (sd_engine s) r ?q = (None, job0, eng)"
    by (auto simp: admit_one_def p split: prod.splits option.splits)
  have "request_ok r" using inv by (simp add: loop_inv_def inv_core_def p)
  note J0 = make_job_ok [OF mk this]
  define job where "job = job0\<lparr>jb_blocks := Some BlockTable_new\<rparr>"
  have J: "job_ok job" "job_seq job = ?q" "jb_request job = r" "job_table job = BlockTable_new"
    using J0 by (simp_all add: job_def)
  define s0 where "s0 = s\<lparr>sd_engine := eng\<rparr>"
  define limit where "limit = u32 (blocks_for (sd_blocks s0) (prompt_tokens (sq_usage (jb_state job))) + headroom s0)"
  define s1 where "s1 = reclaim_until E limit s0"
  obtain fits job2 s2 where fit: "admit_fits s1 job limit = (fits, job2, s2)" by (metis prod_cases3)
  have inv1: "loop_inv s1" using inv unfolding s1_def s0_def by (intro reclaim_until_inv) (simp add: loop_inv_def)
  have F1: "lp_pending s1 = r # rest" "lp_active s1 = lp_active s" "lp_free_slots s1 = lp_free_slots s"
    using reclaim_until_frame [of E limit s0] by (simp_all add: s1_def s0_def p)
  have step: "admit_one X E s =
      (if \<not> fits then (if lp_active s2 = [] then Inr (True, reject_job X E s2 job2) else Inr (False, defer_job E s2 job2))
       else (case share_prefix E s2 job2 of Inl x \<Rightarrow> Inl x | Inr (job3, s3) \<Rightarrow> Inr (True, enter_job X s3 job3)))"
    by (simp only: admit_one_def p list.sel mk prod.case option.case Let_def fit
        s0_def [symmetric] job_def [symmetric] limit_def [symmetric] s1_def [symmetric])
  note D = inv_coreD [OF inv1 [unfolded loop_inv_def]]
  obtain L where acc: "kv_acc (cf_max_batch_size (sd_config s1)) (sd_blocks s1) (sd_prefix_cache s1) (holders_of (lp_active s1)) L"
    using D(4) by blast
  have q: "job_seq job \<notin> fst ` set (holders_of (lp_active s1))" "0 \<le> job_seq job"
    "job_seq job < int (cf_max_batch_size (sd_config s1))"
    using slots_facts(3,4) [OF D(1)] last_in_set [OF ne(2)] by (auto simp: J(2) F1 simp del: image_iff)
  from fit J(4) acc show ?thesis
  proof (cases rule: admit_fits_cases)
    case failed
    with run step have s': "s' = enter_job X s1 job" and "share_prefix E s1 job = Inr (job, s1)"
      by (auto simp: share_prefix_def)
    have "kv_acc (cf_max_batch_size (sd_config s1)) (sd_blocks s1) (sd_prefix_cache s1)
        (holders_of (lp_active s1) @ [(job_seq job, bt_blocks (job_table job))]) L"
      using kv_add_empty [OF acc q] by (simp add: J(4) BlockTable_new_def)
    with inv1 J show ?thesis
      unfolding s' by (intro enter_job_inv) (simp_all add: loop_inv_def F1 ne D(5))
  next
    case (fits a t)
    from run step fits obtain job3 s3 where sh: "share_prefix E s2 job2 = Inr (job3, s3)" and s': "s' = enter_job X s3 job3"
      by (auto split: sum.splits prod.splits)
    have ok2: "job_ok job2" "job_seq job2 = ?q" "jb_request job2 = r" "job_table job2 = t" using J by (simp_all add: fits(4))
    note F = share_prefix_frame [OF sh ok2(1)]
    have kv: "kv_acc (cf_max_batch_size (sd_config s1)) (sd_blocks s3) (sd_prefix_cache s3)
        (holders_of (lp_active s1) @ [(job_seq job2, bt_blocks (job_table job3))]) L"
      by (rule share_prefix_kv [OF sh, of "sd_blocks s1"]) (use acc q fits(3) ok2 J(2) in \<open>simp_all add: fits(5)\<close>)
    have "pool_is (sd_config s1) (sd_blocks s3)"
      using ensure_pool_is [OF D(5) fits(3)] by (intro F(10)) (simp add: fits(5))
    with inv1 F kv ok2 show ?thesis
      unfolding s' by (intro enter_job_inv [where L = L]) (simp_all add: loop_inv_def fits(5) F1 ne)
  next
    case short
    have ok2: "job_ok job2" "jb_request job2 = r" "\<not> job_done job2"
      using J short by (simp_all add: job_ok_def job_done_def)
    from run step short(2) have "s' = reject_job X E s1 job2 \<or> s' = defer_job E s1 job2"
      by (auto simp: short(3) split: if_splits)
    then show ?thesis using reject_job_inv [OF inv1 F1(1) ok2] defer_job_inv [OF inv1 F1(1) ok2(1,2)] by blast
  qed
qed

lemma admit_loop_inv: "loop_inv s \<Longrightarrow> admit_loop X E s = Inr s' \<Longrightarrow> loop_inv s'"
proof (induction X E s arbitrary: s' rule: admit_loop.induct)
  case (1 X E s)
  show ?case
  proof (cases "lp_pending s = [] \<or> lp_free_slots s = []")
    case True
    with 1 show ?thesis by (simp add: admit_loop.simps [of X E s])
  next
    case False
    with 1(3) obtain go s1 where o: "admit_one X E s = Inr (go, s1)"
      by (cases "admit_one X E s") (auto simp: admit_loop.simps [of X E s])
    have inv1: "loop_inv s1" using admit_one_inv [OF 1(2) _ _ o] False by blast
    show ?thesis
    proof (cases go)
      case True
      with 1(3) False o have "admit_loop X E s1 = Inr s'" by (simp add: admit_loop.simps [of X E s])
      with 1(1) [OF False o refl] True inv1 show ?thesis by simp
    next
      case go: False
      with 1(3) False o inv1 show ?thesis by (simp add: admit_loop.simps [of X E s])
    qed
  qed
qed

end
