(* ===== verification/Mv_ContinuousStep.thy ===== *)
theory Mv_ContinuousStep
  imports Mv_ContinuousInv
begin

text \<open>
  Preservation of the loop invariant by the phases that follow admission: building the
  batch, decoding and accepting, retiring, resolving cache exhaustion; then the theorems
  about whole turns and whole runs of \<open>run_continuous\<close>.
\<close>

section \<open>Building the batch\<close>

text \<open>Jobs that moved on without changing hands: same request, slot and page table.\<close>

definition moved :: "Job \<Rightarrow> Job \<Rightarrow> bool" where
  "moved j j' \<longleftrightarrow> jb_request j' = jb_request j \<and> jb_blocks j' = jb_blocks j \<and> job_seq j' = job_seq j \<and>
     (job_ok j \<longrightarrow> job_ok j')"

lemma moved_refl [simp]: "moved j j"
  by (simp add: moved_def)

lemma moved_maps:
  assumes "list_all2 moved js js'"
  shows "map job_seq js' = map job_seq js" "map jb_request js' = map jb_request js"
    "holders_of js' = holders_of js" "list_all job_ok js \<Longrightarrow> list_all job_ok js'"
  using assms by (induction rule: list_all2_induct) (auto simp: moved_def job_table_def)

lemma inv_core_moved:
  assumes inv: "inv_core cf w a c fs active pend ful" and mv: "list_all2 moved active active'"
  shows "inv_core cf w a c fs active' pend ful"
proof -
  note D = inv_coreD [OF inv] and M = moved_maps [OF mv]
  obtain L where L: "kv_acc (cf_max_batch_size cf) a c (holders_of active') L" using D(4) by (auto simp: M(3))
  show ?thesis
    by (rule inv_coreI [OF _ _ _ L D(5) M(4) [OF D(6)] D(7-9)])
       (use D(1-3) list_all2_lengthD [OF mv] in \<open>simp_all only: M(1,2)\<close>)
qed

lemma build_prefills_moved: "list_all2 moved js (fst (build_prefills cap js budget))"
proof (induction js arbitrary: budget)
  case Nil
  then show ?case by simp
next
  case (Cons j js)
  have "moved j (j\<lparr>jb_state := snd (take_prefill_chunk (jb_state j) n)\<rparr>)" for n
    by (auto simp: moved_def job_ok_def take_prefill_chunk_inv job_seq_def)
  with Cons show ?case by (simp add: Let_def split_beta)
qed

lemma build_batch_moved: "list_all2 moved active (fst (build_batch nb chunk active))"
  using build_prefills_moved [of active] by (simp add: build_batch_def Let_def split_beta)

lemma fail_all_moved: "list_all2 moved active (fail_all m active)"
  by (auto simp: fail_all_def list_all2_conv_all_nth moved_def job_ok_def job_seq_def job_done_def fail_inv)

section \<open>Accepting tokens\<close>

lemma stamp_first_token_frame:
  assumes "stamp_first_token X s job = (job1, s1)"
  shows "\<exists>tk. s1 = s\<lparr>sd_ticks := tk\<rparr>" and "job_ok job \<Longrightarrow> job_ok job1" and "jb_state job1 = jb_state job"
    and "job_table job1 = job_table job" and "ticket (jb_request job1) = ticket (jb_request job)"
proof -
  show "\<exists>tk. s1 = s\<lparr>sd_ticks := tk\<rparr>"
    using assms by (auto simp: stamp_first_token_def clock_now_def split: if_splits intro: exI [of _ "sd_ticks s"])
qed (use assms in \<open>auto simp: stamp_first_token_def clock_now_def job_ok_def sink_base_def request_ok_def ticket_def
    job_table_def split: if_splits\<close>)

lemma job_seq_state: "jb_state j' = jb_state j \<Longrightarrow> job_seq j' = job_seq j"
  by (simp add: job_seq_def)

lemma publish_prefix_inv:
  assumes inv: "loop_inv s" and j: "job_at (job_seq job) (lp_active s) = Some job"
  shows "loop_inv (publish_prefix s job)"
proof -
  have held: "(job_seq job, bt_blocks (job_table job)) \<in> set (holders_of (lp_active s))"
    using job_at_Some [OF j] by (auto simp: holders_of_def)
  have p: "\<exists>L'. kv_acc n a (insert_entry c h \<lparr>en_seq = job_seq job, en_n_tokens = k,
        en_blocks = take nb (bt_blocks (job_table job)), en_retained = False\<rparr>) (holders_of (lp_active s)) L'"
    if "kv_acc n a c (holders_of (lp_active s)) L" for n a c L h k nb
    using kv_publish [OF that held, of "\<lparr>en_seq = job_seq job, en_n_tokens = k,
        en_blocks = take nb (bt_blocks (job_table job)), en_retained = False\<rparr>" h]
    by (auto simp: take_is_prefix)
  have pool: "pool_is (sd_config s) (sd_blocks s)" using inv by (simp add: loop_inv_def inv_core_def)
  show ?thesis
    by (rule loop_inv_frame [OF inv]) (use pool p in \<open>auto simp: publish_prefix_def Let_def\<close>)
qed

lemma job_at_put:
  assumes "job_at q active = Some j" and "job_seq j' = q"
  shows "job_at q (put_job j' active) = Some j'"
  using assms by (induction active) (auto simp: job_at_def put_job_def split: if_splits)

lemma accept_one_inv:
  assumes inv: "loop_inv s" and run: "accept_one X E steps k q s = (x, short, s')"
  shows "loop_inv s'"
proof (cases "job_at q (lp_active s)")
  case None
  with run inv show ?thesis by (simp add: accept_one_def)
next
  case (Some job)
  note inv' = inv [unfolded loop_inv_def]
  note D = inv_coreD [OF inv']
  have ok: "job_ok job" "job_seq job = q" using job_ok_at [OF D(6) Some] job_at_Some [OF Some] by simp_all
  obtain job1 s1 where st: "stamp_first_token X s job = (job1, s1)" by fastforce
  note S = stamp_first_token_frame [OF st]
  obtain tk where s1: "s1 = s\<lparr>sd_ticks := tk\<rparr>" using S(1) by blast
  have ok1: "job_ok job1" "job_seq job1 = q" using S(2,3) ok by (simp_all add: job_seq_def)
  have same: "inv_core (sd_config s) (sd_queue s) (sd_blocks s) (sd_prefix_cache s) (lp_free_slots s)
      (put_job j' (lp_active s)) (lp_pending s) (sd_fulfilled s)"
    if "job_ok j'" "job_seq j' = q" "jb_request j' = jb_request job1" "job_table j' = job_table job" for j'
    by (rule replace_job [OF inv' Some that(1,2) _ D(5)]) (use that S(5) in auto)
  show ?thesis
  proof (cases "at_step steps k")
    case (Inl e)
    with run st Some same [OF ok1 refl S(4)] show ?thesis by (auto simp: accept_one_def loop_inv_def s1)
  next
    case (Inr step)
    obtain go job2 s2 where ac: "accept_job X E s1 job1 step = (go, job2, s2)" by (metis prod_cases3)
    let ?acc = "accept (eg_piece E (sd_engine s1)) (xt_cancelled X (rq_id (jb_request job1)) (sd_ticks s1)) (jb_state job1) step"
    have job2: "go = fst ?acc" "job2 = job1\<lparr>jb_state := snd ?acc\<rparr>" "s2 = s\<lparr>sd_ticks := Suc tk\<rparr>"
      using ac by (auto simp: accept_job_def s1 split: prod.splits)
    have seq2: "sq_seq (snd ?acc) = q" "sq_spec (snd ?acc) = sq_spec (jb_state job1)"
      using ok1(2) by (simp_all add: accept_frame job_seq_def)
    have ok2: "job_ok job2" "job_seq job2 = q" "jb_request job2 = jb_request job1" "job_table job2 = job_table job"
      using ok1 seq2 S(4) by (simp_all add: job2 job_ok_state accept_inv_any job_ok_def)
    show ?thesis
    proof (cases go)
      case False
      then have fin: "sq_finished (jb_state job2)" using accept_finished [of "eg_piece E (sd_engine s1)"] job2 by auto
      have "job_ok (job2\<lparr>jb_state := finish (jb_state job2)\<rparr>)"
        using ok2(1) fin by (intro job_ok_state) (simp_all add: job_ok_def finish_inv)
      from same [OF this] ok2 False run st Some Inr ac show ?thesis
        by (auto simp: accept_one_def Let_def loop_inv_def job2(3) job_seq_def)
    next
      case True
      obtain r a t where en: "ensure_capacity (sd_blocks s) (job_table job2) (tokens_needed job2) = (r, a, t)"
        by (metis prod_cases3)
      let ?job3 = "job2\<lparr>jb_blocks := Some t\<rparr>"
      let ?s3 = "s2\<lparr>sd_blocks := a, lp_active := put_job ?job3 (lp_active s2)\<rparr>"
      have "inv_core (sd_config s) (sd_queue s) a (sd_prefix_cache s) (lp_free_slots s)
          (put_job ?job3 (lp_active s)) (lp_pending s) (sd_fulfilled s)"
      proof (rule replace_job [OF inv' Some _ _ _ ensure_pool_is [OF D(5) en]])
        fix xs ys L
        assume "kv_acc (cf_max_batch_size (sd_config s)) (sd_blocks s) (sd_prefix_cache s)
          (holders_of xs @ (q, bt_blocks (job_table job)) # holders_of ys) L"
        from kv_grow(1) [OF this [folded ok2(4)] en]
        show "\<exists>L'. kv_acc (cf_max_batch_size (sd_config s)) a (sd_prefix_cache s)
          (holders_of xs @ (q, bt_blocks (job_table ?job3)) # holders_of ys) L'" by auto
      qed (use ok2 S(5) in simp_all)
      then have inv3: "loop_inv ?s3" by (simp add: loop_inv_def job2(3))
      have "job_at (job_seq ?job3) (lp_active ?s3) = Some ?job3"
        using job_at_put [OF Some, of ?job3] ok2 by (simp add: job2(3))
      note pub = publish_prefix_inv [OF inv3 this]
      have "s' = ?s3 \<or> s' = publish_prefix ?s3 ?job3"
        using run st Some Inr ac True en by (auto simp: accept_one_def Let_def job2(3) split: if_splits)
      with pub inv3 show ?thesis by blast
    qed
  qed
qed

lemma accept_loop_inv: "loop_inv s \<Longrightarrow> loop_inv (snd (snd (accept_loop X E steps k qs s)))"
proof (induction qs arbitrary: k s)
  case Nil
  then show ?case by simp
next
  case (Cons q qs)
  obtain x short s1 where o: "accept_one X E steps k q s = (x, short, s1)" by (metis prod_cases3)
  have inv1: "loop_inv s1" by (rule accept_one_inv [OF Cons.prems o])
  show ?case
  proof (cases x)
    case None
    with Cons.IH [OF inv1, of "Suc k"] o show ?thesis by (simp add: split_beta)
  next
    case (Some e)
    with o inv1 show ?thesis by simp
  qed
qed

lemma decode_phase_inv:
  assumes "loop_inv s"
  shows "loop_inv (snd (decode_phase X E nb s))"
proof -
  obtain active items sampling where b: "build_batch nb (cf_prefill_chunk (sd_config s)) (lp_active s) = (active, items, sampling)"
    by (metis prod_cases3)
  have inv1: "loop_inv (s\<lparr>lp_active := active\<rparr>)"
    using inv_core_moved [OF assms [unfolded loop_inv_def] build_batch_moved [of _ nb "cf_prefill_chunk (sd_config s)"]] b
    by (simp add: loop_inv_def)
  obtain r eng where d: "eg_decode E (sd_engine (s\<lparr>lp_active := active\<rparr>)) items = (r, eng)" by fastforce
  let ?s2 = "s\<lparr>lp_active := active, sd_engine := eng\<rparr>"
  have inv2: "loop_inv ?s2" using inv1 by (simp add: loop_inv_def)
  have fa: "loop_inv (s'\<lparr>lp_active := fail_all m (lp_active s')\<rparr>)" if "loop_inv s'" for s' :: "('a, 'b) Loop_scheme" and m
    using inv_core_moved [OF that [unfolded loop_inv_def] fail_all_moved [of _ m]] by (simp add: loop_inv_def)
  have al: "loop_inv (snd (snd (accept_loop X E steps 0 sampling ?s2)))" for steps by (rule accept_loop_inv [OF inv2])
  show ?thesis
  proof (cases r)
    case (Inl x)
    with b d inv1 fa [OF inv2] show ?thesis by (simp add: decode_phase_def Let_def)
  next
    case (Inr steps)
    obtain x shorts s3 where a: "accept_loop X E steps 0 sampling ?s2 = (x, shorts, s3)" by (metis prod_cases3)
    with al [of steps] have "loop_inv s3" by simp
    with Inr b d inv1 a fa [of s3] show ?thesis by (cases x) (simp_all add: decode_phase_def Let_def)
  qed
qed

section \<open>Retiring\<close>

text \<open>Entries of a cache that are also entries of an earlier one.\<close>

definition entries_from :: "PrefixCache \<Rightarrow> PrefixCache \<Rightarrow> bool" where
  "entries_from c c' \<longleftrightarrow> (\<forall>h e. entry_at c' h = Some e \<longrightarrow> entry_at c h = Some e)"

lemma reclaim_donor_entries:
  assumes "reclaim_donor_blocks E s = (b, s')" and "keys_ok (sd_prefix_cache s)"
  shows "entries_from (sd_prefix_cache s) (sd_prefix_cache s')"
proof (cases "evict_lru_retained (sd_prefix_cache s)")
  case (Pair v c)
  show ?thesis
  proof (cases v)
    case None
    with Pair have "c = sd_prefix_cache s" using evict_lru_None [of "sd_prefix_cache s" c] by simp
    with assms(1) Pair None show ?thesis by (auto simp: reclaim_donor_blocks_def entries_from_def)
  next
    case (Some e)
    with assms(1) Pair evict_lru_Some(7) [OF assms(2), of e c] show ?thesis
      by (auto simp: reclaim_donor_blocks_def release_donor_def entries_from_def)
  qed
qed

lemma donor_slot_kv:
  assumes run: "donor_slot E s = (slot, s1)" and acc: "kv_acc n (sd_blocks s) (sd_prefix_cache s) held L"
  shows "kv_acc n (sd_blocks s1) (sd_prefix_cache s1) held (case slot of None \<Rightarrow> L | Some q \<Rightarrow> add_mset (q, []) L)"
    and "entries_from (sd_prefix_cache s) (sd_prefix_cache s1)" and "\<And>q. slot = Some q \<Longrightarrow> int n \<le> q"
proof -
  have "kv_acc n (sd_blocks s1) (sd_prefix_cache s1) held (case slot of None \<Rightarrow> L | Some q \<Rightarrow> add_mset (q, []) L) \<and>
    entries_from (sd_prefix_cache s) (sd_prefix_cache s1) \<and> (\<forall>q. slot = Some q \<longrightarrow> int n \<le> q)"
  proof (cases "take_donor_slot (sd_prefix_cache s)")
    case (Pair r c)
    note F = take_donor_slot_frame [OF Pair]
    show ?thesis
    proof (cases r)
      case (Some q)
      with run Pair F(6) kv_take_slot [OF acc Pair [unfolded Some]] show ?thesis
        by (auto simp: donor_slot_def entries_from_def)
    next
      case None
      with Pair have c: "c = sd_prefix_cache s" by (simp add: take_donor_slot_def split: if_splits)
      obtain b s2 where b: "reclaim_donor_blocks E s = (b, s2)" by fastforce
      note acc2 = reclaim_donor_acc [OF acc b] and ent = reclaim_donor_entries [OF b kv_accD(2) [OF acc]]
      show ?thesis
      proof (cases b)
        case False
        with run Pair None c b acc2 ent show ?thesis by (auto simp: donor_slot_def)
      next
        case True
        obtain r2 c2 where t: "take_donor_slot (sd_prefix_cache s2) = (r2, c2)" by fastforce
        note F2 = take_donor_slot_frame [OF t]
        have s1: "slot = r2" "s1 = s2\<lparr>sd_prefix_cache := c2\<rparr>"
          using run Pair None c b True t by (auto simp: donor_slot_def)
        show ?thesis
        proof (cases r2)
          case None
          with t have "c2 = sd_prefix_cache s2" by (simp add: take_donor_slot_def split: if_splits)
          with s1 None acc2 ent show ?thesis by simp
        next
          case (Some q)
          with s1 ent F2(6) kv_take_slot [OF acc2 t [unfolded Some]] show ?thesis
            by (auto simp: entries_from_def)
        qed
      qed
    qed
  qed
  then show "kv_acc n (sd_blocks s1) (sd_prefix_cache s1) held (case slot of None \<Rightarrow> L | Some q \<Rightarrow> add_mset (q, []) L)"
    "entries_from (sd_prefix_cache s) (sd_prefix_cache s1)" "\<And>q. slot = Some q \<Longrightarrow> int n \<le> q" by blast+
qed

lemma donate_kv:
  assumes acc: "kv_acc n (sd_blocks s) (sd_prefix_cache s) held (add_mset (slot, []) L)"
    and held: "(job_seq job, bt_blocks (job_table job)) \<in> set held"
  shows "\<exists>L'. kv_acc n (sd_blocks (donate E s job k slot)) (sd_prefix_cache (donate E s job k slot)) held L'"
    and "\<And>h e. entry_at (sd_prefix_cache (donate E s job k slot)) h = Some e \<Longrightarrow>
      entry_at (sd_prefix_cache s) h = Some e \<or> en_seq e = slot"
proof -
  obtain x1 e1 where b: "eg_begin_sequence E (sd_engine s) slot SamplingParams_default = (x1, e1)" by fastforce
  obtain x2 e2 where c: "(if x1 \<noteq> None then (x1, e1)
    else eg_copy_sequence E e1 (job_seq job) slot (i32 (int k))) = (x2, e2)" by fastforce
  let ?bs = "take (k div cf_block_size (sd_config s)) (bt_blocks (job_table job))"
  let ?h = "hash_prefix (sq_prompt (jb_state job)) k"
  have "(\<exists>L'. kv_acc n (sd_blocks (donate E s job k slot)) (sd_prefix_cache (donate E s job k slot)) held L') \<and>
    (\<forall>h e. entry_at (sd_prefix_cache (donate E s job k slot)) h = Some e \<longrightarrow>
      entry_at (sd_prefix_cache s) h = Some e \<or> en_seq e = slot)"
  proof (cases "x2 = None")
    case False
    then have d: "sd_blocks (donate E s job k slot) = sd_blocks s"
      "sd_prefix_cache (donate E s job k slot) = evict_sequence (sd_prefix_cache s) slot"
      by (simp_all only: donate_def Let_def b c prod.case) simp_all
    show ?thesis unfolding d using kv_evict_lost [OF acc] by blast
  next
    case True
    then have d: "sd_blocks (donate E s job k slot) = fold (\<lambda>b p. incref p b) ?bs (sd_blocks s)"
      "sd_prefix_cache (donate E s job k slot) = retain (sd_prefix_cache s) ?h slot k ?bs"
      by (simp_all only: donate_def Let_def b c prod.case) simp_all
    show ?thesis unfolding d
      using kv_retain [OF acc held refl] by (auto simp: retain_def entry_at_insert split: if_splits)
  qed
  then show "\<exists>L'. kv_acc n (sd_blocks (donate E s job k slot)) (sd_prefix_cache (donate E s job k slot)) held L'"
    "\<And>h e. entry_at (sd_prefix_cache (donate E s job k slot)) h = Some e \<Longrightarrow>
      entry_at (sd_prefix_cache s) h = Some e \<or> en_seq e = slot" by blast+
qed

lemma donate_frame:
  "sd_config (donate E s job k slot) = sd_config s" "sd_queue (donate E s job k slot) = sd_queue s"
  "sd_fulfilled (donate E s job k slot) = sd_fulfilled s"
  "Scheduler.more (donate E s job k slot) = Scheduler.more s" "sd_ticks (donate E s job k slot) = sd_ticks s"
  "pool_is cf (sd_blocks s) \<Longrightarrow> pool_is cf (sd_blocks (donate E s job k slot))"
  by (auto simp: donate_def Let_def incref_pool_is split: prod.splits)

lemma donor_slot_frame:
  assumes "donor_slot E s = (slot, s1)"
  shows "sd_config s1 = sd_config s" "sd_queue s1 = sd_queue s" "sd_fulfilled s1 = sd_fulfilled s"
    "Scheduler.more s1 = Scheduler.more s" "sd_ticks s1 = sd_ticks s"
    "pool_is cf (sd_blocks s) \<Longrightarrow> pool_is cf (sd_blocks s1)"
  using assms reclaim_donor_frame [of E "s\<lparr>sd_prefix_cache := snd (take_donor_slot (sd_prefix_cache s))\<rparr>"]
  by (fastforce simp: donor_slot_def split: prod.splits option.splits bool.splits)+

lemma retain_prefix_frame:
  "sd_config (retain_prefix E s job) = sd_config s" "sd_queue (retain_prefix E s job) = sd_queue s"
  "sd_fulfilled (retain_prefix E s job) = sd_fulfilled s"
  "Scheduler.more (retain_prefix E s job) = Scheduler.more s" "sd_ticks (retain_prefix E s job) = sd_ticks s"
  "pool_is cf (sd_blocks s) \<Longrightarrow> pool_is cf (sd_blocks (retain_prefix E s job))"
  using donor_slot_frame [of E s]
  by (auto simp: retain_prefix_def Let_def donate_frame split: prod.splits option.splits)

definition uncached :: "PrefixCache \<Rightarrow> SeqId \<Rightarrow> bool" where
  "uncached c q \<longleftrightarrow> (\<forall>h e. entry_at c h = Some e \<longrightarrow> en_seq e \<noteq> q)"

lemma retain_prefix_kv:
  assumes acc: "kv_acc n (sd_blocks s) (sd_prefix_cache s) held L"
    and held: "(job_seq job, bt_blocks (job_table job)) \<in> set held" and q: "q < int n"
    and out: "uncached (sd_prefix_cache s) q"
  shows "\<exists>L'. kv_acc n (sd_blocks (retain_prefix E s job)) (sd_prefix_cache (retain_prefix E s job)) held L'"
    and "uncached (sd_prefix_cache (retain_prefix E s job)) q"
proof -
  obtain slot s1 where d: "donor_slot E s = (slot, s1)" by fastforce
  note S = donor_slot_kv [OF d acc]
  have r: "retain_prefix E s job = s \<or> slot = None \<and> retain_prefix E s job = s1 \<or>
    (\<exists>sl k. slot = Some sl \<and> retain_prefix E s job = donate E s1 job k sl)"
    using d by (cases slot) (auto simp: retain_prefix_def Let_def)
  have "(\<exists>L'. kv_acc n (sd_blocks (retain_prefix E s job)) (sd_prefix_cache (retain_prefix E s job)) held L') \<and>
    uncached (sd_prefix_cache (retain_prefix E s job)) q"
    using r
  proof (elim disjE exE conjE)
    assume "retain_prefix E s job = s"
    with acc out show ?thesis by auto
  next
    assume "slot = None" "retain_prefix E s job = s1"
    with S out show ?thesis by (auto simp: entries_from_def uncached_def)
  next
    fix sl k assume sl: "slot = Some sl" "retain_prefix E s job = donate E s1 job k sl"
    with S(1) have a: "kv_acc n (sd_blocks s1) (sd_prefix_cache s1) held (add_mset (sl, []) L)" by simp
    have "int n \<le> sl" using S(3) [OF sl(1)] .
    with donate_kv [OF a held, of E k] S(2) out q show ?thesis
      unfolding sl(2) entries_from_def uncached_def by fastforce
  qed
  then show "\<exists>L'. kv_acc n (sd_blocks (retain_prefix E s job)) (sd_prefix_cache (retain_prefix E s job)) held L'"
    "uncached (sd_prefix_cache (retain_prefix E s job)) q" by blast+
qed

text \<open>The state in which \<open>retire\<close> gives the job's blocks back.\<close>

definition retained ::
  "'e IModelEngine \<Rightarrow> ('e, 'm) Scheduler_scheme \<Rightarrow> Job \<Rightarrow> ('e, 'm) Scheduler_scheme" where
  "retained E s j =
     retain_prefix E (s\<lparr>sd_prefix_cache := evict_sequence (sd_prefix_cache s) (job_seq j)\<rparr>)
       (j\<lparr>jb_state := finish (jb_state j)\<rparr>)"

lemma deliver_more [simp]: "Scheduler.more (deliver X s j) = Scheduler.more s"
  by (simp add: deliver_def Let_def clock_now_def split: prod.splits)

lemma retained_frame:
  "sd_config (retained E s j) = sd_config s" "sd_queue (retained E s j) = sd_queue s"
  "sd_fulfilled (retained E s j) = sd_fulfilled s" "Scheduler.more (retained E s j) = Scheduler.more s"
  "pool_is cf (sd_blocks s) \<Longrightarrow> pool_is cf (sd_blocks (retained E s j))"
  by (simp_all add: retained_def retain_prefix_frame)

lemma retire_frame:
  "sd_config (retire X E s j) = sd_config s" "sd_queue (retire X E s j) = sd_queue s"
  "Scheduler.more (retire X E s j) = Scheduler.more s"
  "sd_blocks (retire X E s j) = free (sd_blocks (retained E s j)) (bt_blocks (job_table j))"
  "sd_prefix_cache (retire X E s j) = sd_prefix_cache (retained E s j)"
  using retained_frame(1-4) [of E s j]
  by (auto simp: retire_def Let_def retained_def job_seq_def release_def job_table_def BlockTable_new_def free_def
      split: option.splits prod.splits)

lemma retire_fulfilled:
  "sd_fulfilled (retire X E s j) =
     sd_fulfilled s @ [delivery X (sd_ticks s) (j\<lparr>jb_state := finish (jb_state j)\<rparr>)]"
  by (simp add: retire_def Let_def deliver_fulfilled retain_prefix_frame release_def split: option.splits)

lemma finish_job_ok: "job_ok j \<Longrightarrow> job_done j \<Longrightarrow> job_ok (j\<lparr>jb_state := finish (jb_state j)\<rparr>)"
  by (intro job_ok_state) (simp_all add: job_ok_def job_done_def finish_inv)

lemma retire_inv:
  assumes inv: "inv_core (sd_config s) w (sd_blocks s) (sd_prefix_cache s) fs (xs @ j # ys) pend (sd_fulfilled s)"
    and fin: "job_done j"
  shows "inv_core (sd_config s) w (sd_blocks (retire X E s j)) (sd_prefix_cache (retire X E s j))
    (fs @ [job_seq j]) (xs @ ys) pend (sd_fulfilled (retire X E s j))"
proof -
  let ?n = "cf_max_batch_size (sd_config s)"
  note D = inv_coreD [OF inv]
  have ok: "job_ok j" using D(6) by simp
  have q: "job_seq j < int ?n" using slots_facts(4) [OF D(1), of "job_seq j"] by simp
  obtain L where acc: "kv_acc ?n (sd_blocks s) (sd_prefix_cache s) (holders_of (xs @ j # ys)) L" using D(4) by blast
  note ev = kv_evict [OF acc q]
  let ?s1 = "s\<lparr>sd_prefix_cache := evict_sequence (sd_prefix_cache s) (job_seq j)\<rparr>"
  let ?j1 = "j\<lparr>jb_state := finish (jb_state j)\<rparr>"
  have acc1: "kv_acc ?n (sd_blocks ?s1) (sd_prefix_cache ?s1) (holders_of (xs @ j # ys)) L" using ev(1) by simp
  have held: "(job_seq ?j1, bt_blocks (job_table ?j1)) \<in> set (holders_of (xs @ j # ys))" by (simp add: job_seq_def)
  have out: "uncached (sd_prefix_cache ?s1) (job_seq j)" using ev(2) by (auto simp: uncached_def)
  note R = retain_prefix_kv [OF acc1 held q out, where E = E, folded retained_def]
  obtain L' where "kv_acc ?n (sd_blocks (retained E s j)) (sd_prefix_cache (retained E s j)) (holders_of (xs @ j # ys)) L'"
    using R(1) by blast
  from kv_release [of _ _ _ "holders_of xs" "job_seq j" _ "holders_of ys", OF this [simplified]] R(2)
  have acc2: "kv_acc ?n (sd_blocks (retire X E s j)) (sd_prefix_cache (retire X E s j)) (holders_of (xs @ ys)) L'"
    by (simp add: retire_frame uncached_def)
  have pool: "pool_is (sd_config s) (sd_blocks (retire X E s j))"
    using D(5) by (simp add: retire_frame free_pool_is retained_frame)
  define d where "d = delivery X (sd_ticks s) (j\<lparr>jb_state := finish (jb_state j)\<rparr>)"
  have d: "sd_fulfilled (retire X E s j) = sd_fulfilled s @ [d]" "fst d = jb_request j" "delivered_ok d"
    using delivery_ok [OF finish_job_ok [OF ok fin], of X "sd_ticks s"] by (simp_all add: retire_fulfilled d_def)
  show ?thesis
    by (rule inv_coreI [OF _ _ _ acc2 pool _ D(7,8)]) (use D(1-3,6,9) d in \<open>simp_all add: ac_simps\<close>)
qed

lemma sweep_loop_inv:
  assumes "inv_core (sd_config s) (sd_queue s) (sd_blocks s) (sd_prefix_cache s) (lp_free_slots s)
    (kept @ js) (lp_pending s) (sd_fulfilled s)"
  shows "loop_inv (sweep_loop X E js kept s)"
  using assms
proof (induction js arbitrary: kept s)
  case Nil
  then show ?case by (simp add: loop_inv_def)
next
  case (Cons j js)
  show ?case
  proof (cases "job_done j")
    case True
    let ?s = "s\<lparr>lp_free_slots := lp_free_slots s @ [job_seq j]\<rparr>"
    note F = retire_frame [of X E ?s j] and M = lp_more [OF retire_frame(3) [of X E ?s j]]
    from retire_inv [of ?s "sd_queue s" "lp_free_slots s" kept j js "lp_pending s" X E] Cons.prems True
    have "inv_core (sd_config s) (sd_queue s) (sd_blocks (retire X E ?s j)) (sd_prefix_cache (retire X E ?s j))
      (lp_free_slots s @ [job_seq j]) (kept @ js) (lp_pending s) (sd_fulfilled (retire X E ?s j))" by simp
    with True Cons.IH [of "retire X E ?s j" kept] F(1,2) M show ?thesis by simp
  next
    case False
    with Cons.IH [of s "kept @ [j]"] Cons.prems show ?thesis by simp
  qed
qed

lemma sweep_inv: "loop_inv s \<Longrightarrow> loop_inv (sweep X E s)"
  unfolding sweep_def by (rule sweep_loop_inv) (simp add: loop_inv_def)

lemma sweep_loop_active: "lp_active (sweep_loop X E js kept s) = kept @ filter (\<lambda>j. \<not> job_done j) js"
  by (induction js arbitrary: kept s) simp_all

lemma sweep_active: "lp_active (sweep X E s) = filter (\<lambda>j. \<not> job_done j) (lp_active s)"
  by (simp add: sweep_def sweep_loop_active)

section \<open>Cache exhaustion\<close>

lemma set_erase_first: "set (erase_first P xs) \<subseteq> set xs"
  by (induction xs) auto

lemma erase_first_split:
  "find P xs = Some x \<Longrightarrow> \<exists>us vs. xs = us @ x # vs \<and> erase_first P xs = us @ vs \<and> P x \<and> (\<forall>u\<in>set us. \<not> P u)"
proof (induction xs)
  case Nil
  then show ?case by simp
next
  case (Cons y ys)
  show ?case
  proof (cases "P y")
    case True
    with Cons.prems show ?thesis by (intro exI [of _ "[]"] exI [of _ ys]) simp
  next
    case False
    with Cons obtain us vs where "ys = us @ x # vs" "erase_first P ys = us @ vs" "P x" "\<forall>u\<in>set us. \<not> P u" by auto
    with False show ?thesis by (intro exI [of _ "y # us"] exI [of _ vs]) simp
  qed
qed

lemma preempt_split:
  assumes "preempt_one E q s = (True, s')"
  obtains xs j ys where "lp_active s = xs @ j # ys" "lp_active s' = xs @ ys" "preemptible q j"
    "\<forall>y\<in>set ys. \<not> preemptible q y" "lp_pending s' = reclaim j # lp_pending s"
    "lp_free_slots s' = lp_free_slots s @ [job_seq j]"
    "sd_blocks s' = free (sd_blocks s) (bt_blocks (job_table j))"
    "sd_prefix_cache s' = evict_sequence (sd_prefix_cache s) (job_seq j)"
    "sd_config s' = sd_config s" "sd_queue s' = sd_queue s" "sd_fulfilled s' = sd_fulfilled s"
proof -
  from assms obtain j where f: "find (preemptible q) (rev (lp_active s)) = Some j"
    by (auto simp: preempt_one_def split: option.splits)
  from erase_first_split [OF f] obtain us vs where u: "rev (lp_active s) = us @ j # vs"
    "erase_first (preemptible q) (rev (lp_active s)) = us @ vs" "preemptible q j" "\<forall>y\<in>set us. \<not> preemptible q y" by blast
  have "lp_active s = rev vs @ j # rev us" using u(1) by (metis append.assoc append_Cons append_Nil rev.simps(2) rev_append rev_rev_ident)
  with assms f u that [of "rev vs" j "rev us"] show thesis
    by (auto simp: preempt_one_def release_def)
qed

lemma preempt_one_inv:
  assumes inv: "loop_inv s" and run: "preempt_one E q s = (b, s')"
  shows "loop_inv s'"
proof (cases b)
  case False
  with run inv show ?thesis by (auto simp: preempt_one_def split: option.splits)
next
  case True
  obtain xs j ys where P: "lp_active s = xs @ j # ys" "lp_active s' = xs @ ys"
    "lp_pending s' = reclaim j # lp_pending s" "lp_free_slots s' = lp_free_slots s @ [job_seq j]"
    "sd_blocks s' = free (sd_blocks s) (bt_blocks (job_table j))"
    "sd_prefix_cache s' = evict_sequence (sd_prefix_cache s) (job_seq j)"
    "sd_config s' = sd_config s" "sd_queue s' = sd_queue s" "sd_fulfilled s' = sd_fulfilled s"
    by (rule preempt_split [OF run [unfolded True [THEN eqTrueI]]])
  note D = inv_coreD [OF inv [unfolded loop_inv_def P(1)]]
  let ?n = "cf_max_batch_size (sd_config s)"
  have q: "job_seq j < int ?n" using slots_facts(4) [OF D(1), of "job_seq j"] by simp
  obtain L where acc: "kv_acc ?n (sd_blocks s) (sd_prefix_cache s) (holders_of (xs @ j # ys)) L" using D(4) by blast
  note ev = kv_evict [OF acc q]
  have acc': "kv_acc ?n (sd_blocks s') (sd_prefix_cache s') (holders_of (xs @ ys)) L"
    using kv_release [of _ _ _ "holders_of xs" "job_seq j" _ "holders_of ys", OF ev(1) [simplified]] ev(2)
    by (simp add: P)
  have pool: "pool_is (sd_config s) (sd_blocks s')" using D(5) by (simp add: P free_pool_is)
  have ok: "request_ok (reclaim j)" using D(6) by (simp add: reclaim_ok)
  have "inv_core (sd_config s) (sd_queue s) (sd_blocks s') (sd_prefix_cache s') (lp_free_slots s')
      (xs @ ys) (lp_pending s') (sd_fulfilled s)"
    by (rule inv_coreI [OF _ _ _ acc' pool _ _ D(8,9)]) (use D(1-3,6,7) ok in \<open>simp_all add: P ac_simps\<close>)
  then show ?thesis by (simp add: loop_inv_def P)
qed

lemma grow_job_inv:
  assumes inv: "loop_inv s" and run: "grow_job q needed s = (b, s')"
  shows "loop_inv s'"
proof (cases "job_at q (lp_active s)")
  case None
  with run inv show ?thesis by (simp add: grow_job_def)
next
  case (Some job)
  note inv' = inv [unfolded loop_inv_def] and D = inv_coreD [OF inv [unfolded loop_inv_def]]
  obtain r a t where en: "ensure_capacity (sd_blocks s) (job_table job) needed = (r, a, t)" by (metis prod_cases3)
  have "inv_core (sd_config s) (sd_queue s) a (sd_prefix_cache s) (lp_free_slots s)
      (put_job (job\<lparr>jb_blocks := Some t\<rparr>) (lp_active s)) (lp_pending s) (sd_fulfilled s)"
  proof (rule replace_job [OF inv' Some _ _ _ ensure_pool_is [OF D(5) en]])
    fix xs ys L
    assume "kv_acc (cf_max_batch_size (sd_config s)) (sd_blocks s) (sd_prefix_cache s)
      (holders_of xs @ (q, bt_blocks (job_table job)) # holders_of ys) L"
    from kv_grow(1) [OF this en]
    show "\<exists>L'. kv_acc (cf_max_batch_size (sd_config s)) a (sd_prefix_cache s)
      (holders_of xs @ (q, bt_blocks (job_table (job\<lparr>jb_blocks := Some t\<rparr>))) # holders_of ys) L'" by auto
  qed (use job_ok_at [OF D(6) Some] job_at_Some [OF Some] in simp_all)
  with run Some en show ?thesis by (auto simp: grow_job_def loop_inv_def)
qed

lemma reclaim_for_inv: "loop_inv s \<Longrightarrow> loop_inv (reclaim_for E q needed s)"
proof (induction E q needed s rule: reclaim_for.induct)
  case (1 E q needed s)
  obtain b s1 where g: "grow_job q needed s = (b, s1)" by fastforce
  note inv1 = grow_job_inv [OF 1(2) g]
  obtain r s2 where d: "reclaim_donor_blocks E s1 = (r, s2)" by fastforce
  note inv2 = reclaim_donor_inv [OF inv1 d]
  show ?case
    using inv1 inv2 1(1) [OF g [symmetric] _ d [symmetric]] g d
    by (cases b; cases r) (simp_all add: reclaim_for.simps [of E q needed s])
qed

lemma preempt_for_inv: "loop_inv s \<Longrightarrow> loop_inv (preempt_for E q needed s)"
proof (induction E q needed s rule: preempt_for.induct)
  case (1 E q needed s)
  obtain b s1 where g: "grow_job q needed s = (b, s1)" by fastforce
  note inv1 = grow_job_inv [OF 1(2) g]
  obtain r s2 where d: "preempt_one E q s1 = (r, s2)" by fastforce
  note inv2 = preempt_one_inv [OF inv1 d]
  show ?case
    using inv1 inv2 1(1) [OF g [symmetric] _ d [symmetric]] g d
    by (cases b; cases r) (simp_all add: preempt_for.simps [of E q needed s])
qed

text \<open>A job that failed to grow is sampled once, so it is resolved once.\<close>

lemma build_decodes_sampling:
  "subseq (fst (snd (build_decodes js b))) (map job_seq (filter (\<lambda>j. \<not> prefilling (jb_state j)) js))"
  by (induction js b rule: build_decodes.induct) (auto simp: Let_def split_beta)

lemma build_prefills_sampling:
  "subseq (snd (snd (build_prefills cap js b))) (map job_seq (filter (\<lambda>j. prefilling (jb_state j)) js))"
proof (induction js arbitrary: b)
  case Nil
  then show ?case by simp
next
  case (Cons j js)
  then show ?case by (auto simp: Let_def split_beta)
qed

lemma build_batch_sampling:
  assumes "distinct (map job_seq active)"
  shows "distinct (snd (snd (build_batch nb chunk active)))"
    and "set (snd (snd (build_batch nb chunk active))) \<subseteq> job_seq ` set active"
proof -
  define qs1 where "qs1 = fst (snd (build_decodes active nb))"
  define qs2 where "qs2 = snd (snd (build_prefills (if chunk = 0 then nb else chunk) active (snd (snd (build_decodes active nb)))))"
  have eq: "snd (snd (build_batch nb chunk active)) = qs1 @ qs2"
    by (simp add: build_batch_def Let_def split_beta qs1_def qs2_def)
  have s1: "subseq qs1 (map job_seq (filter (\<lambda>j. \<not> prefilling (jb_state j)) active))"
    unfolding qs1_def by (rule build_decodes_sampling)
  have s2: "subseq qs2 (map job_seq (filter (\<lambda>j. prefilling (jb_state j)) active))"
    unfolding qs2_def by (rule build_prefills_sampling)
  have inj: "inj_on job_seq (set active)" using assms by (simp add: distinct_map)
  have "distinct qs1" "distinct qs2"
    using subseq_distinct [OF s1] subseq_distinct [OF s2] assms by (simp_all add: distinct_map_filter)
  moreover have "set qs1 \<subseteq> job_seq ` {j \<in> set active. \<not> prefilling (jb_state j)}"
    "set qs2 \<subseteq> job_seq ` {j \<in> set active. prefilling (jb_state j)}"
    using subseq_set [OF s1] subseq_set [OF s2] by auto
  moreover have "job_seq ` {j \<in> set active. \<not> prefilling (jb_state j)} \<inter>
      job_seq ` {j \<in> set active. prefilling (jb_state j)} = {}"
    using inj by (auto simp: inj_on_def)
  ultimately show "distinct (snd (snd (build_batch nb chunk active)))"
    "set (snd (snd (build_batch nb chunk active))) \<subseteq> job_seq ` set active"
    unfolding eq by auto
qed

lemma accept_loop_shorts: "subseq (fst (snd (accept_loop X E steps k qs s))) qs"
proof (induction qs arbitrary: k s)
  case Nil
  then show ?case by simp
next
  case (Cons q qs)
  obtain x short s1 where "accept_one X E steps k q s = (x, short, s1)" by (metis prod_cases3)
  with Cons [of "Suc k" s1] show ?case by (cases x) (auto simp: split_beta)
qed

lemma decode_phase_shorts:
  assumes "loop_inv s"
  shows "distinct (fst (decode_phase X E nb s))"
proof -
  have d: "distinct (map job_seq (lp_active s))"
    using slots_facts(1) [OF inv_coreD(1) [OF assms [unfolded loop_inv_def]]] .
  obtain active items sampling where b: "build_batch nb (cf_prefill_chunk (sd_config s)) (lp_active s) = (active, items, sampling)"
    by (metis prod_cases3)
  have "distinct sampling" using build_batch_sampling(1) [OF d, of nb "cf_prefill_chunk (sd_config s)"] b by simp
  then have "distinct (fst (snd (accept_loop X E steps k sampling s')))" for steps k and s' :: "('a, 'b) Loop_scheme"
    using subseq_distinct [OF accept_loop_shorts] by blast
  then show ?thesis
    by (auto simp: decode_phase_def b Let_def split_beta split: option.splits sum.splits)
qed

text \<open>The starved jobs that are still to be resolved are unfinished.\<close>

definition undone :: "SeqId list \<Rightarrow> Job list \<Rightarrow> bool" where
  "undone qs active \<longleftrightarrow> (\<forall>j\<in>set active. job_seq j \<in> set qs \<longrightarrow> \<not> job_done j)"

lemma undone_put:
  "undone qs active \<Longrightarrow> job_seq j' \<notin> set qs \<or> \<not> job_done j' \<Longrightarrow> undone qs (put_job j' active)"
  by (auto simp: undone_def put_job_def)

lemma grow_job_undone:
  assumes "grow_job q needed s = (b, s')" and "undone qs (lp_active s)"
  shows "undone qs (lp_active s')"
proof (cases "job_at q (lp_active s)")
  case None
  with assms show ?thesis by (simp add: grow_job_def)
next
  case (Some j)
  have "undone qs (put_job (j\<lparr>jb_blocks := t\<rparr>) (lp_active s))" for t
    using assms(2) job_at_Some [OF Some] by (intro undone_put) (auto simp: undone_def job_done_def)
  with assms(1) Some show ?thesis by (auto simp: grow_job_def split: prod.splits)
qed

lemma preempt_one_undone:
  "preempt_one E q s = (b, s') \<Longrightarrow> undone qs (lp_active s) \<Longrightarrow> undone qs (lp_active s')"
  using set_erase_first [of "preemptible q" "rev (lp_active s)"]
  by (auto simp: undone_def preempt_one_def split: option.splits)

lemma reclaim_for_undone: "undone qs (lp_active s) \<Longrightarrow> undone qs (lp_active (reclaim_for E q needed s))"
proof (induction E q needed s rule: reclaim_for.induct)
  case (1 E q needed s)
  obtain b s1 where g: "grow_job q needed s = (b, s1)" by fastforce
  obtain r s2 where d: "reclaim_donor_blocks E s1 = (r, s2)" by fastforce
  have "lp_active s2 = lp_active s1" by (rule lp_more(2) [OF reclaim_donor_frame(5) [OF d]])
  with grow_job_undone [OF g 1(2)] 1(1) [OF g [symmetric] _ d [symmetric]] g d show ?case
    by (cases b; cases r) (simp_all add: reclaim_for.simps [of E q needed s])
qed

lemma preempt_for_undone: "undone qs (lp_active s) \<Longrightarrow> undone qs (lp_active (preempt_for E q needed s))"
proof (induction E q needed s rule: preempt_for.induct)
  case (1 E q needed s)
  obtain b s1 where g: "grow_job q needed s = (b, s1)" by fastforce
  obtain r s2 where d: "preempt_one E q s1 = (r, s2)" by fastforce
  note u = grow_job_undone [OF g 1(2)]
  from u preempt_one_undone [OF d u] 1(1) [OF g [symmetric] _ d [symmetric]] g d show ?case
    by (cases b; cases r) (simp_all add: preempt_for.simps [of E q needed s])
qed

lemma resolve_one_inv:
  assumes inv: "loop_inv s" and un: "undone (q # qs) (lp_active s)" and nq: "q \<notin> set qs"
  shows "loop_inv (resolve_one E q s)" and "undone qs (lp_active (resolve_one E q s))"
proof -
  have un': "undone qs (lp_active s)" using un by (auto simp: undone_def)
  have "loop_inv (resolve_one E q s) \<and> undone qs (lp_active (resolve_one E q s))"
  proof (cases "job_at q (lp_active s)")
    case None
    with inv un' show ?thesis by (simp add: resolve_one_def)
  next
    case (Some job)
    let ?n = "tokens_needed job"
    note inv' = inv [unfolded loop_inv_def] and D = inv_coreD [OF inv [unfolded loop_inv_def]]
    have ok: "job_ok job" "job_seq job = q" "job \<in> set (lp_active s)"
      using job_ok_at [OF D(6) Some] job_at_Some [OF Some] by simp_all
    have nd: "\<not> sq_finished (jb_state job)" using un ok by (auto simp: undone_def job_done_def)
    show ?thesis
    proof (cases "blocks_for (sd_blocks s) ?n > ba_total (sd_blocks s)")
      case True
      define st where "st = finish (fail (jb_state job)
        (pool_message ''KV cache exhausted: sequence needs '' (blocks_for (sd_blocks s) ?n)
          '' blocks but the pool holds only '' (ba_total (sd_blocks s))) kContextOverflow)"
      have r: "resolve_one E q s = s\<lparr>lp_active := put_job (job\<lparr>jb_state := st\<rparr>) (lp_active s)\<rparr>"
        using Some True by (simp add: resolve_one_def st_def)
      have "seq_inv (sink_base (jb_request job)) st"
        unfolding st_def using ok(1) nd by (intro finish_inv fail_inv) (simp_all add: job_ok_def)
      then have j': "job_ok (job\<lparr>jb_state := st\<rparr>)" "job_seq (job\<lparr>jb_state := st\<rparr>) = q"
        using ok by (simp_all add: job_ok_def st_def job_seq_def)
      have "inv_core (sd_config s) (sd_queue s) (sd_blocks s) (sd_prefix_cache s) (lp_free_slots s)
          (put_job (job\<lparr>jb_state := st\<rparr>) (lp_active s)) (lp_pending s) (sd_fulfilled s)"
        by (rule replace_job [OF inv' Some j' _ D(5)]) auto
      with undone_put [OF un', of "job\<lparr>jb_state := st\<rparr>"] j'(2) nq show ?thesis by (simp add: r loop_inv_def)
    next
      case False
      with Some inv un' show ?thesis
        by (simp add: resolve_one_def Let_def preempt_for_inv reclaim_for_inv preempt_for_undone reclaim_for_undone)
    qed
  qed
  then show "loop_inv (resolve_one E q s)" "undone qs (lp_active (resolve_one E q s))" by blast+
qed

lemma resolve_inv:
  "loop_inv s \<Longrightarrow> undone qs (lp_active s) \<Longrightarrow> distinct qs \<Longrightarrow> loop_inv (resolve E qs s)"
proof (induction qs arbitrary: s)
  case Nil
  then show ?case by (simp add: resolve_def)
next
  case (Cons q qs)
  have nq: "q \<notin> set qs" using Cons.prems(3) by simp
  from Cons.IH [OF resolve_one_inv [OF Cons.prems(1,2) nq]] Cons.prems(3) show ?case
    by (simp add: resolve_def)
qed

section \<open>One turn and whole runs\<close>

lemma batch_step_inv:
  assumes "loop_inv s"
  shows "loop_inv (batch_step X E nb s)"
proof -
  obtain qs s1 where d: "decode_phase X E nb s = (qs, s1)" by fastforce
  have inv1: "loop_inv s1" and dq: "distinct qs"
    using decode_phase_inv [OF assms, of X E nb] decode_phase_shorts [OF assms, of X E nb] d by simp_all
  have "loop_inv (resolve E qs (sweep X E s1))"
    by (rule resolve_inv [OF sweep_inv [OF inv1] _ dq]) (simp add: undone_def sweep_active)
  from sweep_inv [OF this, of X E] show ?thesis
    by (simp add: batch_step_def d publish_usage_def loop_inv_def)
qed

lemma iteration_inv:
  assumes inv: "loop_inv s" and run: "iteration X E nb s = Goes_on s' \<or> iteration X E nb s = Returns s'"
  shows "loop_inv s'"
proof -
  from run obtain s1 where t: "take_work s = Some s1"
    by (cases "take_work s") (auto simp: iteration_def)
  note inv1 = take_work_inv [OF inv t]
  show ?thesis
  proof (cases "lp_active s1 = [] \<and> lp_pending s1 = []")
    case True
    with run t inv1 show ?thesis by (auto simp: iteration_def)
  next
    case False
    with run t obtain s2 where a: "admit_loop X E s1 = Inr s2"
      by (cases "admit_loop X E s1") (auto simp: iteration_def)
    from admit_loop_inv [OF inv1 a] run t False a batch_step_inv [of s2 X E nb] show ?thesis
      by (auto simp: iteration_def split: if_splits)
  qed
qed

text \<open>The states between the turns of a run.\<close>

inductive loop_reach :: "outer \<Rightarrow> 'e IModelEngine \<Rightarrow> nat \<Rightarrow> ('e, 'm) Loop_scheme \<Rightarrow> ('e, 'm) Loop_scheme \<Rightarrow> bool"
  for X E nb s0 where
  start: "loop_reach X E nb s0 s0"
| turn: "loop_reach X E nb s0 s \<Longrightarrow> iteration X E nb s = Goes_on s' \<Longrightarrow> loop_reach X E nb s0 s'"

lemma loop_reach_inv: "loop_reach X E nb s0 s \<Longrightarrow> loop_inv s0 \<Longrightarrow> loop_inv s"
  by (induction rule: loop_reach.induct) (auto intro: iteration_inv)

lemma run_loop_reach:
  "run_loop fuel X E nb s = Some t \<Longrightarrow> loop_reach X E nb s0 s \<Longrightarrow>
    \<exists>s'. loop_reach X E nb s0 s' \<and> iteration X E nb s' = t \<and> (\<forall>s''. t \<noteq> Goes_on s'')"
proof (induction fuel arbitrary: s)
  case 0
  then show ?case by simp
next
  case (Suc fuel)
  show ?case
  proof (cases "iteration X E nb s")
    case (Goes_on s1)
    with Suc show ?thesis by (auto intro: loop_reach.turn)
  qed (use Suc.prems in auto)
qed

end
