(* ===== verification/Mv_ContinuousRun.thy ===== *)
theory Mv_ContinuousRun
  imports Mv_ContinuousStep
begin

text \<open>
  Runs of \<open>run_continuous\<close> from the constructor on: the initial state satisfies the loop
  invariant, and what follows for every state between two turns and for the return.
\<close>

section \<open>The initial state\<close>

text \<open>
  The widths of the C++ fields, and the two conditions under which the slot arithmetic of
  the constructor is sound: a batch of at least one, and sequence ids that fit 31 bits.
\<close>

definition config_ok :: "EngineCaps \<Rightarrow> SchedulerConfig \<Rightarrow> bool" where
  "config_ok caps config \<longleftrightarrow>
     0 < cf_max_batch_size config \<and> (cf_max_batch_size config < 2147483648 \<or> 0 < n_seq_max caps) \<and>
     cf_kv_blocks config < 4294967296 \<and> cf_block_size config < 4294967296 \<and>
     n_seq_max caps < 2147483648"

text \<open>The queue at start-up: what it holds is what it has accepted.\<close>

definition world_start :: "queue_world \<Rightarrow> bool" where
  "world_start w \<longleftrightarrow> qw_accepted w = qu_queue (qw_queue w) \<and> world_ok w"

lemma pool_size_less:
  assumes "kv < 4294967296"
  shows "pool_size caps bs kv < 4294967296"
proof -
  have "u32 m div d \<le> u32 m" for m d by (rule div_le_dividend)
  then have "u32 m div d < 4294967296" for m d using u32_less [of m] by (meson le_less_trans)
  with assms show ?thesis by (simp add: pool_size_def Let_def)
qed

lemma clamp_batch_facts:
  "cf_kv_blocks (clamp_batch caps config) = cf_kv_blocks config"
  "cf_block_size (clamp_batch caps config) = cf_block_size config"
  "cf_prefix_caching (clamp_batch caps config) = cf_prefix_caching config"
  "cf_prefix_donors (clamp_batch caps config) = cf_prefix_donors config"
  "0 < cf_max_batch_size config \<Longrightarrow> 0 < cf_max_batch_size (clamp_batch caps config)"
  "cf_max_batch_size (clamp_batch caps config) \<le> cf_max_batch_size config"
  "0 < n_seq_max caps \<Longrightarrow> cf_max_batch_size (clamp_batch caps config) \<le> n_seq_max caps"
  by (auto simp: clamp_batch_def)

lemma clamp_donors_le:
  assumes "cf_max_batch_size config < 4294967296"
  shows "clamp_donors caps config = 0 \<or> cf_max_batch_size config + clamp_donors caps config \<le> n_seq_max caps"
  using assms by (auto simp: clamp_donors_def Let_def u32_id)

lemma configure_donors_kv:
  assumes refs: "refs_of a {#}" and "n + d < 2147483648"
  shows "kv_acc n a (configure_donors PrefixCache_new (i32 (int n)) d) [] {#}"
proof -
  let ?c = "configure_donors PrefixCache_new (i32 (int n)) d"
  have don: "donors ?c = {#}" and ent: "entry_at ?c h = None" and keys: "keys_ok ?c" for h
    by (simp_all add: donors_def entry_at_def keys_ok_def configure_donors_def PrefixCache_new_def)
  have "map (\<lambda>i. i32 (int n) + i32 (int i)) (push_down d) = rev (map (\<lambda>i. int n + int i) [0..<d])"
    using assms(2) by (simp add: push_down_rev rev_map i32_id)
  then have "mset (pc_free_donor_slots ?c) = donor_slots n ?c"
    by (simp add: configure_donors_def donor_slots_def)
  moreover have "n + pc_donor_capacity ?c < 2147483648"
    using assms(2) by (simp add: configure_donors_def)
  ultimately show ?thesis
    by (intro kv_accI) (use refs don ent keys in \<open>simp_all add: donor_refs_def\<close>)
qed

lemma Scheduler_new_facts:
  fixes w :: queue_world
  assumes ok: "config_ok (eg_caps E e) config"
  defines "s \<equiv> Scheduler_new E e w config"
  shows "0 < cf_max_batch_size (sd_config s)" and "cf_max_batch_size (sd_config s) < 2147483648"
    and "pool_is (sd_config s) (sd_blocks s)" and "0 < cf_block_size (sd_config s)"
    and "kv_acc (cf_max_batch_size (sd_config s)) (sd_blocks s) (sd_prefix_cache s) [] {#}"
    and "sd_queue s = w" and "sd_fulfilled s = []" and "sd_engine s = e"
    and "0 < n_seq_max (eg_caps E e) \<Longrightarrow>
      cf_max_batch_size (sd_config s) + pc_donor_capacity (sd_prefix_cache s) \<le> n_seq_max (eg_caps E e)"
proof -
  let ?caps = "eg_caps E e"
  define cf1 where "cf1 = clamp_batch ?caps config"
  define bs where "bs = (if cf_block_size cf1 = 0 then 16 else cf_block_size cf1)"
  define pool where "pool = pool_size ?caps bs (cf_kv_blocks cf1)"
  define cf2 where "cf2 = cf1\<lparr>cf_block_size := bs, cf_kv_blocks := pool\<rparr>"
  define d where "d = clamp_donors ?caps cf2"
  define cf3 where "cf3 = cf2\<lparr>cf_prefix_donors := d\<rparr>"
  note C = clamp_batch_facts [where caps = ?caps and config = config, folded cf1_def]
  let ?n = "cf_max_batch_size cf1"
  have n: "0 < ?n" "?n < 2147483648" using ok C(5-7) by (auto simp: config_ok_def)
  have cf3: "cf_max_batch_size cf3 = ?n" "cf_kv_blocks cf3 = pool" "cf_block_size cf3 = bs"
    by (simp_all add: cf3_def cf2_def)
  have s: "s = \<lparr>sd_engine = e, sd_queue = w, sd_config = cf3, sd_blocks = BlockAllocator_new pool bs,
      sd_prefix_cache = configure_donors PrefixCache_new (i32 (int ?n)) d,
      sd_stats = Stats_default\<lparr>sx_kv_blocks_total := pool\<rparr>, sd_ttft_hist = LatencyHistogram_new,
      sd_e2e_hist = LatencyHistogram_new, sd_ticks = 0, sd_fulfilled = []\<rparr>"
    unfolding s_def Scheduler_new_def Let_def cf1_def [symmetric] bs_def [symmetric] pool_def [symmetric]
      cf2_def [symmetric] d_def [symmetric] cf3_def [symmetric]
    using n(1) by (simp add: cf3)
  have bs: "0 < bs" "bs < 4294967296" using ok C(2) by (auto simp: bs_def config_ok_def)
  have pool: "pool < 4294967296" unfolding pool_def using ok C(1) by (intro pool_size_less) (simp add: config_ok_def)
  have "d = 0 \<or> ?n + d \<le> n_seq_max ?caps"
    unfolding d_def using clamp_donors_le [of cf2 ?caps] n(2) by (simp add: cf2_def)
  moreover have "n_seq_max ?caps < 2147483648" using ok by (simp add: config_ok_def)
  ultimately have nd: "?n + d < 2147483648" and cap: "0 < n_seq_max ?caps \<Longrightarrow> ?n + d \<le> n_seq_max ?caps"
    using n(2) C(7) by auto
  show "0 < cf_max_batch_size (sd_config s)" "cf_max_batch_size (sd_config s) < 2147483648"
    "pool_is (sd_config s) (sd_blocks s)" "0 < cf_block_size (sd_config s)" "sd_queue s = w" "sd_fulfilled s = []"
    "sd_engine s = e"
    using n bs by (simp_all add: s cf3 pool_is_def BlockAllocator_new_def)
  show "kv_acc (cf_max_batch_size (sd_config s)) (sd_blocks s) (sd_prefix_cache s) [] {#}"
    using configure_donors_kv [OF refs_of_new [OF pool bs(2)] nd] by (simp add: s cf3)
  show "0 < n_seq_max ?caps \<Longrightarrow> cf_max_batch_size (sd_config s) + pc_donor_capacity (sd_prefix_cache s) \<le> n_seq_max ?caps"
    using cap by (simp add: s cf3 configure_donors_def)
qed

lemma Scheduler_new_pool:
  fixes w :: queue_world
  assumes ok: "config_ok (eg_caps E e) config"
  shows "free_blocks (sd_blocks (Scheduler_new E e w config)) = cf_kv_blocks (sd_config (Scheduler_new E e w config))"
    and "mset (pc_free_donor_slots (sd_prefix_cache (Scheduler_new E e w config))) =
      donor_slots (cf_max_batch_size (sd_config (Scheduler_new E e w config))) (sd_prefix_cache (Scheduler_new E e w config))"
proof -
  let ?s = "Scheduler_new E e w config"
  note F = Scheduler_new_facts [OF ok, of w]
  have e: "donors (sd_prefix_cache ?s) = {#}"
    by (simp add: Scheduler_new_def Let_def configure_donors_def PrefixCache_new_def donors_def)
  from kv_all_returned [OF F(5) e] F(3) show "free_blocks (sd_blocks ?s) = cf_kv_blocks (sd_config ?s)"
    by (simp add: pool_is_def)
  from kv_accD(4) [OF F(5)] e show "mset (pc_free_donor_slots (sd_prefix_cache ?s)) =
      donor_slots (cf_max_batch_size (sd_config ?s)) (sd_prefix_cache ?s)" by simp
qed

lemma loop_start_fields:
  "sd_engine (loop_start s) = sd_engine s" "sd_queue (loop_start s) = sd_queue s"
  "sd_config (loop_start s) = sd_config s" "sd_blocks (loop_start s) = sd_blocks s"
  "sd_prefix_cache (loop_start s) = sd_prefix_cache s" "sd_fulfilled (loop_start s) = sd_fulfilled s"
  "lp_active (loop_start s) = []" "lp_pending (loop_start s) = []"
  "lp_free_slots (loop_start s) = map (\<lambda>i. i32 (int i)) (push_down (cf_max_batch_size (sd_config s)))"
  by (simp_all add: loop_start_def Scheduler.extend_def)

lemma loop_start_inv:
  assumes "config_ok (eg_caps E e) config" and "world_start w"
  shows "loop_inv (loop_start (Scheduler_new E e w config))"
proof -
  let ?s = "Scheduler_new E e w config"
  note F = Scheduler_new_facts [OF assms(1), of w]
  have "map (\<lambda>i. i32 (int i)) (push_down (cf_max_batch_size (sd_config ?s))) =
      rev (map int [0..<cf_max_batch_size (sd_config ?s)])"
    using F(2) by (simp add: push_down_rev rev_map i32_id)
  then have "mset (lp_free_slots (loop_start ?s)) = slots_of (sd_config ?s)"
    by (simp add: loop_start_fields slots_of_def)
  moreover have "outside w {#}" "world_ok w" using assms(2) by (simp_all add: world_start_def outside_def)
  ultimately have "inv_core (sd_config ?s) w (sd_blocks ?s) (sd_prefix_cache ?s) (lp_free_slots (loop_start ?s)) [] [] []"
    by (intro inv_coreI [OF _ _ _ F(5) [folded holders_of_simps(1)] F(3)]) simp_all
  then show ?thesis by (simp add: loop_inv_def loop_start_fields F(6,7))
qed

lemma reach_inv:
  assumes "config_ok (eg_caps E e) config" and "world_start w"
    and "loop_reach X E nb (loop_start (Scheduler_new E e w config)) s"
  shows "loop_inv s"
  using loop_reach_inv [OF assms(3) loop_start_inv [OF assms(1,2)]] .

section \<open>What never changes\<close>

text \<open>
  The configuration and the number of donor slots are fixed by the constructor; the queue
  is read by \<open>take_work\<close> only, which leaves a subsequence of what was on offer.
\<close>

definition statics :: "('e, 'm) Scheduler_scheme \<Rightarrow> SchedulerConfig \<times> nat \<times> queue_world" where
  "statics s = (sd_config s, pc_donor_capacity (sd_prefix_cache s), sd_queue s)"

definition evolves :: "SchedulerConfig \<times> nat \<times> queue_world \<Rightarrow> SchedulerConfig \<times> nat \<times> queue_world \<Rightarrow> bool" where
  "evolves p p' \<longleftrightarrow> fst p' = fst p \<and> fst (snd p') = fst (snd p) \<and> subseq (offered (snd (snd p'))) (offered (snd (snd p)))"

lemma evolves_refl [simp]: "evolves p p"
  by (simp add: evolves_def)

lemma evolves_trans: "evolves p q \<Longrightarrow> evolves q r \<Longrightarrow> evolves p r"
  unfolding evolves_def using subseq_order.trans by metis

lemma statics_reclaim_donor:
  "reclaim_donor_blocks E s = (b, s') \<Longrightarrow> statics s' = statics s"
  by (auto simp: statics_def reclaim_donor_blocks_def release_donor_def evict_lru_retained_def
      split: prod.splits option.splits)

lemma statics_reclaim_until: "statics (reclaim_until E limit s) = statics s"
proof (induction E limit s rule: reclaim_until.induct)
  case (1 E limit s)
  obtain b s1 where b: "reclaim_donor_blocks E s = (b, s1)" by (cases "reclaim_donor_blocks E s")
  show ?case
    using statics_reclaim_donor [OF b] 1 [OF _ b [symmetric]]
    by (cases b) (simp_all add: reclaim_until.simps [of E limit s] b)
qed

lemma statics_deliver: "statics (deliver X s j) = statics s"
  by (simp add: statics_def deliver_def Let_def clock_now_def)

lemma statics_donor_slot: "donor_slot E s = (r, s') \<Longrightarrow> statics s' = statics s"
  by (auto simp: donor_slot_def statics_def take_donor_slot_def dest!: statics_reclaim_donor [unfolded statics_def]
      split: prod.splits option.splits bool.splits if_splits)

lemma statics_retain_prefix: "statics (retain_prefix E s j) = statics s"
proof -
  have d: "statics (donate E s' j n slot) = statics s'" for s' n slot
    by (auto simp: statics_def donate_def Let_def retain_def evict_sequence_frame insert_entry_frame split: prod.splits)
  obtain r s1 where ds: "donor_slot E s = (r, s1)" by (cases "donor_slot E s")
  show ?thesis
    using statics_donor_slot [OF ds] by (auto simp: retain_prefix_def Let_def ds d split: option.splits)
qed

lemma statics_retire: "statics (retire X E s j) = statics s"
proof -
  have "statics (retain_prefix E (s\<lparr>sd_prefix_cache := evict_sequence (sd_prefix_cache s) q\<rparr>) j') = statics s" for q j'
    by (simp only: statics_retain_prefix) (simp add: statics_def evict_sequence_frame)
  then show ?thesis
    unfolding retire_def Let_def
    by (auto simp: statics_deliver split: option.splits prod.splits) (simp_all add: statics_def)
qed

lemma statics_take_one: "take_one s = Some (r, s') \<Longrightarrow> evolves (statics s) (statics s')"
  by (auto simp: take_one_def evolves_def statics_def Let_def dest: world_pop_offered world_try_pop_offered
      split: if_splits prod.splits)

lemma statics_take_work: "take_work s = Some s' \<Longrightarrow> evolves (statics s) (statics s')"
proof (induction s arbitrary: s' rule: take_work.induct)
  case (1 s)
  show ?case
  proof (cases "length (lp_pending s) + length (lp_active s) < cf_max_batch_size (sd_config s)")
    case True
    from 1(2) True obtain r s1 where t: "take_one s = Some (r, s1)"
      by (cases "take_one s") (auto simp: take_work.simps [of s])
    note c = statics_take_one [OF t]
    show ?thesis
    proof (cases r)
      case None
      with 1(2) True t c show ?thesis by (simp add: take_work.simps [of s])
    next
      case (Some x)
      with 1(2) True t have "take_work (s1\<lparr>lp_pending := lp_pending s1 @ [x]\<rparr>) = Some s'"
        by (simp add: take_work.simps [of s])
      from 1(1) [OF True t [unfolded Some] refl refl this] have "evolves (statics s1) (statics s')" by (simp add: statics_def)
      with c show ?thesis by (rule evolves_trans)
    qed
  next
    case False
    with 1(2) show ?thesis by (simp add: take_work.simps [of s])
  qed
qed

lemma find_longest_capacity:
  "find_longest c tokens bs = (r, c') \<Longrightarrow> pc_donor_capacity c' = pc_donor_capacity c"
proof -
  have "find_longest_loop nb c tokens bs = (r, c') \<Longrightarrow> pc_donor_capacity c' = pc_donor_capacity c" for nb
    by (induction nb) (auto simp: Let_def touch_frame split: option.splits if_splits)
  then show "find_longest c tokens bs = (r, c') \<Longrightarrow> pc_donor_capacity c' = pc_donor_capacity c"
    by (auto simp: find_longest_def split: if_splits)
qed

lemma statics_share: "share_prefix E s j = Inr (j', s') \<Longrightarrow> statics s' = statics s"
  by (auto simp: share_prefix_def statics_def Let_def dest: find_longest_capacity
      split: if_splits prod.splits option.splits)

lemma statics_admit_one:
  assumes run: "admit_one X E s = Inr (go, s')"
  shows "statics s' = statics s"
proof -
  obtain x job0 eng where mk: "make_job E (sd_engine s) (hd (lp_pending s)) (last (lp_free_slots s)) = (x, job0, eng)"
    by (metis prod_cases3)
  have x: "x = None" using run by (cases x) (simp_all add: admit_one_def mk)
  define s0 where "s0 = s\<lparr>sd_engine := eng\<rparr>"
  define job where "job = job0\<lparr>jb_blocks := Some BlockTable_new\<rparr>"
  define limit where "limit = u32 (blocks_for (sd_blocks s0) (prompt_tokens (sq_usage (jb_state job))) + headroom s0)"
  obtain fits job2 s2 where f: "admit_fits (reclaim_until E limit s0) job limit = (fits, job2, s2)" by (metis prod_cases3)
  have "statics s2 = statics (reclaim_until E limit s0)"
    using f by (auto simp: admit_fits_def statics_def Let_def split: if_splits prod.splits)
  then have s2: "statics s2 = statics s" unfolding statics_reclaim_until by (simp add: s0_def statics_def)
  note r = run [unfolded admit_one_def mk x prod.case option.case Let_def, folded s0_def job_def, folded limit_def, unfolded f prod.case]
  show ?thesis
  proof (cases fits)
    case True
    with r obtain j3 s3 where sh: "share_prefix E s2 job2 = Inr (j3, s3)" and "s' = enter_job X s3 j3"
      by (auto split: sum.splits)
    then show ?thesis using statics_share [OF sh] s2
      by (simp add: enter_job_def Let_def clock_now_def statics_def)
  next
    case False
    with r s2 show ?thesis
      by (auto simp: reject_job_def defer_job_def Let_def statics_deliver split: if_splits) (simp_all add: statics_def)
  qed
qed

lemma statics_admit_loop: "admit_loop X E s = Inr s' \<Longrightarrow> statics s' = statics s"
proof (induction X E s arbitrary: s' rule: admit_loop.induct)
  case (1 X E s)
  show ?case
  proof (cases "lp_pending s = [] \<or> lp_free_slots s = []")
    case True
    with 1(2) show ?thesis by (simp add: admit_loop.simps [of X E s])
  next
    case False
    with 1(2) obtain go s1 where a: "admit_one X E s = Inr (go, s1)"
      by (cases "admit_one X E s") (auto simp: admit_loop.simps [of X E s])
    show ?thesis
      using 1(2) 1(1) [OF False a refl, of s'] False a statics_admit_one [OF a]
      by (cases go) (simp_all add: admit_loop.simps [of X E s])
  qed
qed

lemma statics_accept_one: "accept_one X E steps k q s = (x, short, s') \<Longrightarrow> statics s' = statics s"
  by (auto simp: accept_one_def stamp_first_token_def accept_job_def clock_now_def publish_prefix_def statics_def
      Let_def insert_entry_frame split: option.splits prod.splits sum.splits if_splits)

lemma statics_accept_loop: "accept_loop X E steps k qs s = (x, shorts, s') \<Longrightarrow> statics s' = statics s"
proof (induction qs arbitrary: k s x shorts s')
  case Nil
  then show ?case by simp
next
  case (Cons q qs)
  obtain x1 short s1 where a: "accept_one X E steps k q s = (x1, short, s1)" by (metis prod_cases3)
  obtain x2 shorts2 s2 where b: "accept_loop X E steps (Suc k) qs s1 = (x2, shorts2, s2)" by (metis prod_cases3)
  show ?case
    using Cons.prems Cons.IH [OF b] statics_accept_one [OF a] by (cases x1) (simp_all add: a b)
qed

lemma statics_decode_phase: "decode_phase X E nb s = (shorts, s') \<Longrightarrow> statics s' = statics s"
  by (auto simp: decode_phase_def Let_def dest!: statics_accept_loop split: prod.splits option.splits sum.splits if_splits)
     (simp_all add: statics_def)

lemma statics_sweep: "statics (sweep X E s) = statics s"
proof -
  have "statics (sweep_loop X E js kept s) = statics s" for js kept and s :: "('a, 'b) Loop_scheme"
  proof (induction js arbitrary: kept s)
    case Nil
    then show ?case by (simp add: statics_def)
  next
    case (Cons j js)
    have "statics (s\<lparr>lp_free_slots := fs\<rparr>) = statics s" for fs by (simp add: statics_def)
    with Cons show ?case by (simp add: statics_retire)
  qed
  then show ?thesis by (simp add: sweep_def)
qed

lemma statics_preempt: "preempt_one E q s = (b, s') \<Longrightarrow> statics s' = statics s"
  by (auto simp: preempt_one_def statics_def evict_sequence_frame split: option.splits)

lemma statics_grow: "grow_job q n s = (b, s') \<Longrightarrow> statics s' = statics s"
  using grow_job_frame [of q n s b s'] by (simp add: statics_def)

lemma statics_reclaim_for: "statics (reclaim_for E q n s) = statics s"
proof (induction E q n s rule: reclaim_for.induct)
  case (1 E q n s)
  obtain b s1 where g: "grow_job q n s = (b, s1)" by (cases "grow_job q n s")
  obtain c s2 where r: "reclaim_donor_blocks E s1 = (c, s2)" by (cases "reclaim_donor_blocks E s1")
  show ?case
    using statics_grow [OF g] statics_reclaim_donor [OF r] 1 [OF g [symmetric] _ r [symmetric]]
    by (cases b; cases c) (simp_all add: reclaim_for.simps [of E q n s] g r)
qed

lemma statics_preempt_for: "statics (preempt_for E q n s) = statics s"
proof (induction E q n s rule: preempt_for.induct)
  case (1 E q n s)
  obtain b s1 where g: "grow_job q n s = (b, s1)" by (cases "grow_job q n s")
  obtain c s2 where r: "preempt_one E q s1 = (c, s2)" by (cases "preempt_one E q s1")
  show ?case
    using statics_grow [OF g] statics_preempt [OF r] 1 [OF g [symmetric] _ r [symmetric]]
    by (cases b; cases c) (simp_all add: preempt_for.simps [of E q n s] g r)
qed

lemma statics_resolve: "statics (resolve E qs s) = statics s"
proof -
  have "statics (resolve_one E q s) = statics s" for q and s :: "('a, 'b) Loop_scheme"
    by (auto simp: resolve_one_def Let_def statics_preempt_for statics_reclaim_for split: option.splits)
       (simp add: statics_def)
  then show ?thesis by (induction qs arbitrary: s) (simp_all add: resolve_def)
qed

lemma statics_batch_step: "statics (batch_step X E nb s) = statics s"
proof -
  obtain shorts s1 where d: "decode_phase X E nb s = (shorts, s1)" by (cases "decode_phase X E nb s")
  have "statics (publish_usage s') = statics s'" for s' :: "('a, 'b) Loop_scheme"
    by (simp add: publish_usage_def statics_def)
  with statics_decode_phase [OF d] show ?thesis by (simp add: batch_step_def d statics_sweep statics_resolve)
qed

lemma statics_iteration:
  assumes "iteration X E nb s = Goes_on s' \<or> iteration X E nb s = Returns s'"
  shows "evolves (statics s) (statics s')"
proof -
  obtain s1 where t: "take_work s = Some s1" using assms by (cases "take_work s") (auto simp: iteration_def)
  have "statics s' = statics s1"
    using assms
    by (auto simp: iteration_def t statics_batch_step dest!: statics_admit_loop split: if_splits sum.splits)
  with statics_take_work [OF t] show ?thesis by simp
qed

lemma statics_reach: "loop_reach X E nb s0 s \<Longrightarrow> evolves (statics s0) (statics s)"
  by (induction rule: loop_reach.induct) (auto intro: evolves_trans statics_iteration)

lemma reach_config:
  assumes "loop_reach X E nb (loop_start s0) s"
  shows "sd_config s = sd_config s0"
    and "pc_donor_capacity (sd_prefix_cache s) = pc_donor_capacity (sd_prefix_cache s0)"
    and "subseq (offered (sd_queue s)) (offered (sd_queue s0))"
  using statics_reach [OF assms] by (simp_all add: evolves_def statics_def loop_start_fields)

section \<open>The return\<close>

text \<open>
  With room for one request the loop looks at the queue; finding nothing while nothing is
  in flight, it has seen the queue closed and empty.
\<close>

lemma take_work_idle:
  "take_work s = Some s' \<Longrightarrow> lp_active s' = [] \<Longrightarrow> lp_pending s' = [] \<Longrightarrow> 0 < cf_max_batch_size (sd_config s) \<Longrightarrow>
    qu_closed (qw_queue (sd_queue s')) \<and> qu_queue (qw_queue (sd_queue s')) = []"
proof (induction s arbitrary: s' rule: take_work.induct)
  case (1 s)
  show ?case
  proof (cases "length (lp_pending s) + length (lp_active s) < cf_max_batch_size (sd_config s)")
    case True
    from 1(2) True obtain r s1 where t: "take_one s = Some (r, s1)"
      by (cases "take_one s") (auto simp: take_work.simps [of s])
    note F = take_one_frame [OF t]
    show ?thesis
    proof (cases r)
      case None
      with 1(2) True t have s': "s' = s1" by (simp add: take_work.simps [of s])
      with 1(3,4) F have "lp_active s = []" "lp_pending s = []" by simp_all
      with t None show ?thesis
        by (auto simp: s' take_one_def dest: world_pop_closed split: option.splits)
    next
      case (Some x)
      with 1(2) True t have "take_work (s1\<lparr>lp_pending := lp_pending s1 @ [x]\<rparr>) = Some s'"
        by (simp add: take_work.simps [of s])
      with 1(1) [OF True t [unfolded Some] refl refl] 1(3-5) F show ?thesis by simp
    qed
  next
    case False
    with 1(2-5) show ?thesis by (auto simp: take_work.simps [of s])
  qed
qed

lemma iteration_returns:
  assumes "iteration X E nb s = Returns s'"
  shows "take_work s = Some s'" and "lp_active s' = []" and "lp_pending s' = []"
  using assms by (auto simp: iteration_def split: option.splits if_splits sum.splits)

lemma returned:
  assumes ok: "config_ok (eg_caps E e) config" and w: "world_start w"
    and run: "run_continuous fuel X E (Scheduler_new E e w config) = Some (Returns s')"
  shows "loop_inv s'" and "lp_active s' = []" and "lp_pending s' = []"
    and "qu_closed (qw_queue (sd_queue s'))" and "qu_queue (qw_queue (sd_queue s')) = []"
    and "tickets (qw_accepted (sd_queue s')) = tickets (map fst (sd_fulfilled s'))"
    and "evolves (statics (Scheduler_new E e w config)) (statics s')"
proof -
  let ?s0 = "Scheduler_new E e w config" and ?nb = "n_batch (eg_caps E (sd_engine (Scheduler_new E e w config)))"
  obtain s where r: "loop_reach X E ?nb (loop_start ?s0) s" and it: "iteration X E ?nb s = Returns s'"
    using run_loop_reach [OF run [unfolded run_continuous_def] loop_reach.start] by blast
  note inv = reach_inv [OF ok w r] and R = iteration_returns [OF it]
  show inv': "loop_inv s'" using iteration_inv [OF inv] it by blast
  have "evolves (statics (loop_start ?s0)) (statics s')"
    by (rule evolves_trans [OF statics_reach [OF r] statics_iteration [OF disjI2 [OF it]]])
  then show st: "evolves (statics ?s0) (statics s')" by (simp add: statics_def loop_start_fields)
  have "0 < cf_max_batch_size (sd_config s)"
    using Scheduler_new_facts(1) [OF ok, of w] reach_config(1) [OF r] by simp
  from take_work_idle [OF R this]
  show "qu_closed (qw_queue (sd_queue s'))" and e: "qu_queue (qw_queue (sd_queue s')) = []" by simp_all
  show "lp_active s' = []" "lp_pending s' = []" by (rule R)+
  from inv_coreD(3) [OF inv' [unfolded loop_inv_def]] e R(2,3)
  show "tickets (qw_accepted (sd_queue s')) = tickets (map fst (sd_fulfilled s'))" by (simp add: outside_def)
qed

text \<open>Without donor slots the pool is whole again at the return.\<close>

lemma returned_pool:
  assumes "config_ok (eg_caps E e) config" and "world_start w"
    and run: "run_continuous fuel X E (Scheduler_new E e w config) = Some (Returns s')"
    and "\<not> cf_prefix_caching config \<or> cf_prefix_donors config = 0"
  shows "free_blocks (sd_blocks s') = ba_total (sd_blocks s')"
proof -
  note R = returned [OF assms(1-3)]
  obtain L where acc: "kv_acc (cf_max_batch_size (sd_config s')) (sd_blocks s') (sd_prefix_cache s') [] L"
    using inv_coreD(4) [OF R(1) [unfolded loop_inv_def]] R(2) by auto
  have "pc_donor_capacity (sd_prefix_cache (Scheduler_new E e w config)) = 0"
    using assms(4) by (auto simp: Scheduler_new_def Let_def configure_donors_def clamp_donors_def clamp_batch_def)
  then have "pc_donor_capacity (sd_prefix_cache s') = 0" using R(7) by (simp add: evolves_def statics_def)
  from kv_all_returned [OF acc kv_no_donors [OF acc this]] show ?thesis .
qed

section \<open>The content of a delivery\<close>

lemma stop_at_take: "stop_at (take n t) stops i \<Longrightarrow> stop_at t stops i"
  by (auto simp: stop_at_def occurs_at_def drop_take intro: prefix_order.trans [OF _ take_is_prefix])

lemma notified_text_clean:
  assumes inv: "seq_inv base st" and "sq_notified st"
  shows "\<not> stop_at (emitted_text st) (stop (sq_spec st)) i"
proof (cases "sq_reason st = kStopString")
  case True
  with finished_response [OF assms] show ?thesis by (simp add: response_spec_no_stop)
next
  case False
  from assms have "stopped_inv st" by (auto simp: seq_inv_def)
  with False have "\<not> stop_at (sq_text st) (stop (sq_spec st)) i" by (simp add: stopped_inv_def)
  then show ?thesis by (auto simp: emitted_text_def dest: stop_at_take)
qed

lemma delivered_content:
  assumes "delivered_ok (r, g, calls)"
  shows "\<exists>cs. calls = sink_base r @ cs \<and> protocol_complete cs \<and> texts_of cs = gr_text g \<and>
    (\<forall>i. \<not> stop_at (gr_text g) (stop (rq_spec r)) i) \<and>
    completion_tokens (gr_usage g) \<le> max_tokens (rq_spec r) \<and> gr_reason g \<noteq> kUnset"
proof -
  from assms obtain st where st: "seq_inv (sink_base r) st" "sq_notified st" "sq_spec st = rq_spec r"
      "calls = sq_sink st" "gr_text g = emitted_text st" "gr_reason g = sq_reason st" "gr_usage g = sq_usage st"
    by (auto simp: delivered_ok_def)
  from finished_sink [OF st(1,2)] obtain cs where cs: "sq_sink st = sink_base r @ cs" "protocol_complete cs"
      "texts_of cs = emitted_text st" by blast
  have "completion_tokens (sq_usage st) \<le> max_tokens (sq_spec st)" "sq_reason st \<noteq> kUnset"
    using st(1,2) by (auto simp: seq_inv_defs)
  with cs notified_text_clean [OF st(1,2)] st show ?thesis by auto
qed

section \<open>Stepping a run\<close>

text \<open>The state after at most \<open>n\<close> turns, for concrete runs.\<close>

primrec turns :: "nat \<Rightarrow> outer \<Rightarrow> 'e IModelEngine \<Rightarrow> nat \<Rightarrow> 'e Loop \<Rightarrow> 'e Loop" where
  "turns 0 X E nb s = s"
| "turns (Suc n) X E nb s = (case iteration X E nb s of Goes_on s1 \<Rightarrow> turns n X E nb s1 | _ \<Rightarrow> s)"

lemma turns_reach: "loop_reach X E nb s0 s \<Longrightarrow> loop_reach X E nb s0 (turns n X E nb s)"
proof (induction n arbitrary: s)
  case 0
  then show ?case by simp
next
  case (Suc n)
  then show ?case by (auto intro: loop_reach.turn split: turn.splits)
qed

end
