(* ===== verification/Mv_Static.thy ===== *)
theory Mv_Static
  imports Mv_ContinuousStep
begin

text \<open>
  Static batching of \<open>src/core/scheduler.cpp\<close>: \<open>next_batch\<close>, \<open>run_batch\<close>, \<open>run_static\<close>, \<open>run\<close> and
  \<open>stats\<close>. The jobs of a batch are a vector that does not change its length; a \<open>Job*\<close> is an
  index into it. The decode loop of a batch takes fuel, which \<open>run_batch_terminates\<close> shows to
  be enough once it exceeds every \<open>max_tokens\<close> by one.
\<close>

section \<open>Forming a batch\<close>

fun fill_batch :: "nat \<Rightarrow> queue_world \<Rightarrow> Request list \<times> queue_world" where
  "fill_batch 0 w = ([], w)"
| "fill_batch (Suc n) w =
     (case world_try_pop w of
        (None, w1) \<Rightarrow> ([], w1)
      | (Some r, w1) \<Rightarrow> let (rs, w2) = fill_batch n w1 in (r # rs, w2))"

text \<open>\<open>None\<close>: the blocking \<open>pop\<close> never returns.\<close>

definition next_batch :: "('e, 'm) Scheduler_scheme \<Rightarrow> (Request list \<times> ('e, 'm) Scheduler_scheme) option" where
  "next_batch s =
     (case world_pop (sd_queue s) of
        None \<Rightarrow> None
      | Some (None, w) \<Rightarrow> Some ([], s\<lparr>sd_queue := w\<rparr>)
      | Some (Some first, w) \<Rightarrow>
          let (more_reqs, w1) = fill_batch (cf_max_batch_size (sd_config s) - 1) w in
          Some (first # more_reqs, s\<lparr>sd_queue := w1\<rparr>))"

section \<open>Making the jobs\<close>

text \<open>
  A job that \<open>make_job\<close> already failed needs no block and is stamped and counted as
  admitted; one that does not fit the pool is failed here.
\<close>

definition admit_static :: "outer \<Rightarrow> ('e, 'm) Scheduler_scheme \<Rightarrow> Job \<Rightarrow> Job \<times> ('e, 'm) Scheduler_scheme" where
  "admit_static X s job0 =
     (let job = job0\<lparr>jb_blocks := Some BlockTable_new\<rparr>;
          (fits, job1, s1) =
            (if job_done job then (True, job, s)
             else let (ok, a, t) = ensure_capacity (sd_blocks s) (job_table job)
                    (u32 (prompt_tokens (sq_usage (jb_state job)) + max_tokens (rq_spec (jb_request job))))
                  in (ok, job\<lparr>jb_blocks := Some t\<rparr>, s\<lparr>sd_blocks := a\<rparr>))
      in if \<not> fits
         then (job1\<lparr>jb_state := fail (jb_state job1) ''KV cache exhausted: not enough blocks for this batch'' kContextOverflow\<rparr>, s1)
         else
           let (t, s2) = clock_now X s1;
               req = (jb_request job1)\<lparr>rq_timing := (rq_timing (jb_request job1))\<lparr>tm_admitted := Some t\<rparr>\<rparr>
           in (job1\<lparr>jb_request := req\<rparr>, s2\<lparr>sd_stats := (sd_stats s2)\<lparr>sx_admitted := u64 (sx_admitted (sd_stats s2) + 1)\<rparr>\<rparr>))"

text \<open>\<open>Inl\<close> is an exception of \<open>begin_sequence\<close>, which leaves \<open>run_batch\<close>.\<close>

fun make_jobs ::
  "outer \<Rightarrow> 'e IModelEngine \<Rightarrow> nat \<Rightarrow> Request list \<Rightarrow> ('e, 'm) Scheduler_scheme \<Rightarrow>
   string + (Job list \<times> ('e, 'm) Scheduler_scheme)" where
  "make_jobs X E i [] s = Inr ([], s)"
| "make_jobs X E i (r # rs) s =
     (case make_job E (sd_engine s) r (i32 (int i)) of
        (Some x, _, _) \<Rightarrow> Inl x
      | (None, job0, eng) \<Rightarrow>
          let (job, s1) = admit_static X (s\<lparr>sd_engine := eng\<rparr>) job0 in
          (case make_jobs X E (Suc i) rs s1 of
             Inl x \<Rightarrow> Inl x
           | Inr (jobs, s2) \<Rightarrow> Inr (job # jobs, s2)))"

section \<open>Accepting the tokens of one decode\<close>

definition static_accept ::
  "outer \<Rightarrow> 'e IModelEngine \<Rightarrow> GenStep list \<Rightarrow> nat \<Rightarrow> nat \<Rightarrow> Job list \<Rightarrow> ('e, 'm) Scheduler_scheme \<Rightarrow>
   string option \<times> Job list \<times> ('e, 'm) Scheduler_scheme" where
  "static_accept X E steps k i jobs s =
     (let (job1, s1) = stamp_first_token X s (jobs ! i) in
      case at_step steps k of
        Inl x \<Rightarrow> (Some x, jobs[i := job1], s1)
      | Inr step \<Rightarrow>
          let (go, job2, s2) = accept_job X E s1 job1 step in
          if go then (None, jobs[i := job2], s2)
          else (None, jobs[i := job2\<lparr>jb_state := finish (jb_state job2)\<rparr>],
                s2\<lparr>sd_engine := eg_release_sequence E (sd_engine s2) (job_seq job2)\<rparr>))"

fun static_accepts ::
  "outer \<Rightarrow> 'e IModelEngine \<Rightarrow> GenStep list \<Rightarrow> nat \<Rightarrow> nat list \<Rightarrow> Job list \<Rightarrow> ('e, 'm) Scheduler_scheme \<Rightarrow>
   string option \<times> Job list \<times> ('e, 'm) Scheduler_scheme" where
  "static_accepts X E steps k [] jobs s = (None, jobs, s)"
| "static_accepts X E steps k (i # is) jobs s =
     (case static_accept X E steps k i jobs s of
        (Some x, jobs1, s1) \<Rightarrow> (Some x, jobs1, s1)
      | (None, jobs1, s1) \<Rightarrow> static_accepts X E steps (Suc k) is jobs1 s1)"

definition static_decode ::
  "outer \<Rightarrow> 'e IModelEngine \<Rightarrow> BatchItem list \<Rightarrow> nat list \<Rightarrow> Job list \<Rightarrow> ('e, 'm) Scheduler_scheme \<Rightarrow>
   string option \<times> Job list \<times> ('e, 'm) Scheduler_scheme" where
  "static_decode X E items is jobs s =
     (let (r, eng) = eg_decode E (sd_engine s) items; s1 = s\<lparr>sd_engine := eng\<rparr> in
      case r of Inl x \<Rightarrow> (Some x, jobs, s1) | Inr steps \<Rightarrow> static_accepts X E steps 0 is jobs s1)"

section \<open>Prefill\<close>

text \<open>
  One slice: prompts are packed while they fit \<open>n_batch\<close>, the first one always. The result
  is the index after the slice, the jobs with their prompts taken, the items and the
  indices submitted.
\<close>

fun gather :: "nat \<Rightarrow> nat \<Rightarrow> Job list \<Rightarrow> bool \<Rightarrow> nat \<Rightarrow> nat \<times> Job list \<times> BatchItem list \<times> nat list" where
  "gather nb i [] started tokens = (i, [], [], [])"
| "gather nb i (j # js) started tokens =
     (if job_done j
      then let (i', js', items, sub) = gather nb (Suc i) js started tokens in (i', j # js', items, sub)
      else
        let len = prefill_remaining (jb_state j) in
        if started \<and> tokens + len > nb then (i, j # js, [], [])
        else
          let (item, st) = prefill_item (jb_state j);
              (i', js', items, sub) = gather nb (Suc i) js True (tokens + len)
          in (i', j\<lparr>jb_state := st\<rparr> # js', item # items, i # sub))"

lemma gather_length: "gather nb i js started tokens = (i', js', items, sub) \<Longrightarrow> length js' = length js \<and> i \<le> i' \<and> i' \<le> i + length js"
proof (induction js arbitrary: i started tokens i' js' items sub)
  case Nil
  then show ?case by simp
next
  case (Cons j js)
  obtain i1 js1 it1 sub1 where a: "gather nb (Suc i) js started tokens = (i1, js1, it1, sub1)" by (metis prod_cases4)
  obtain i2 js2 it2 sub2 where b: "gather nb (Suc i) js True (tokens + prefill_remaining (jb_state j)) = (i2, js2, it2, sub2)"
    by (metis prod_cases4)
  from Cons.IH [OF a] Cons.IH [OF b] Cons.prems show ?case
    by (auto simp: a b Let_def split_beta split: if_splits)
qed

lemma gather_progress:
  "gather nb i js False tokens = (i', js', items, sub) \<Longrightarrow> js \<noteq> [] \<Longrightarrow> i < i'"
proof (cases js)
  case (Cons j js1)
  assume g: "gather nb i js False tokens = (i', js', items, sub)"
  obtain i1 js2 it1 sub1 where a: "gather nb (Suc i) js1 False tokens = (i1, js2, it1, sub1)" by (metis prod_cases4)
  obtain i2 js3 it2 sub2 where b: "gather nb (Suc i) js1 True (tokens + prefill_remaining (jb_state j)) = (i2, js3, it2, sub2)"
    by (metis prod_cases4)
  from g gather_length [OF a] gather_length [OF b] show "i < i'"
    by (auto simp: Cons a b Let_def split_beta split: if_splits)
qed simp

lemma static_accept_length: "length (fst (snd (static_accept X E steps k i jobs s))) = length jobs"
  by (auto simp: static_accept_def Let_def split: prod.splits sum.splits)

lemma static_accepts_length: "static_accepts X E steps k is jobs s = (x, jobs', s') \<Longrightarrow> length jobs' = length jobs"
proof (induction "is" arbitrary: k jobs s)
  case Nil
  then show ?case by simp
next
  case (Cons i "is")
  obtain y jobs1 s1 where a: "static_accept X E steps k i jobs s = (y, jobs1, s1)" by (metis prod_cases3)
  have "length jobs1 = length jobs" using static_accept_length [of X E steps k i jobs s] by (simp add: a)
  with Cons show ?case by (cases y) (auto simp: a)
qed

lemma static_decode_length: "static_decode X E items is jobs s = (x, jobs', s') \<Longrightarrow> length jobs' = length jobs"
  by (auto simp: static_decode_def Let_def dest: static_accepts_length split: prod.splits sum.splits)

lemma prefill_phase_smaller:
  assumes "gather nb i (drop i jobs) False 0 = (i', js', items, sub)" and "i < length jobs"
  shows "i + length js' - i' < length jobs - i" and "length (take i jobs @ js') = length jobs"
    and "static_decode X E items sub (take i jobs @ js') s = (x, jobs2, s2) \<Longrightarrow> length jobs2 - i' < length jobs - i"
proof -
  have g: "i < i'" "length js' = length jobs - i"
    using gather_progress [OF assms(1)] gather_length [OF assms(1)] assms(2) by auto
  show "i + length js' - i' < length jobs - i" and l: "length (take i jobs @ js') = length jobs" using g assms(2) by auto
  show "length jobs2 - i' < length jobs - i" if "static_decode X E items sub (take i jobs @ js') s = (x, jobs2, s2)"
    using static_decode_length [OF that] g assms(2) l by simp
qed

function prefill_phase ::
  "outer \<Rightarrow> 'e IModelEngine \<Rightarrow> nat \<Rightarrow> nat \<Rightarrow> Job list \<Rightarrow> ('e, 'm) Scheduler_scheme \<Rightarrow>
   string option \<times> Job list \<times> ('e, 'm) Scheduler_scheme" where
  "prefill_phase X E nb i jobs s =
     (if i < length jobs
      then (case gather nb i (drop i jobs) False 0 of (i', js', items, sub) \<Rightarrow>
              if items = [] then prefill_phase X E nb i' (take i jobs @ js') s
              else (case static_decode X E items sub (take i jobs @ js') s of
                      (Some x, jobs2, s2) \<Rightarrow> (Some x, jobs2, s2)
                    | (None, jobs2, s2) \<Rightarrow> prefill_phase X E nb i' jobs2 s2))
      else (None, jobs, s))"
  by pat_completeness auto

termination
  by (relation "measure (\<lambda>(X, E, nb, i, jobs, s). length jobs - i)")
     (auto dest: prefill_phase_smaller(1,2) [OF sym] prefill_phase_smaller(3) [OF sym _ sym])

declare prefill_phase.simps [simp del]

section \<open>Decode\<close>

definition unfinished :: "Job list \<Rightarrow> nat list" where
  "unfinished jobs = filter (\<lambda>i. \<not> job_done (jobs ! i)) [0..<length jobs]"

primrec decode_rounds ::
  "nat \<Rightarrow> outer \<Rightarrow> 'e IModelEngine \<Rightarrow> Job list \<Rightarrow> ('e, 'm) Scheduler_scheme \<Rightarrow>
   (string option \<times> Job list \<times> ('e, 'm) Scheduler_scheme) option" where
  "decode_rounds 0 X E jobs s = None"
| "decode_rounds (Suc fuel) X E jobs s =
     (let active = unfinished jobs;
          items = map (\<lambda>i. decode_item (jb_state (jobs ! i))) active
      in if active = [] then Some (None, jobs, s)
         else (case static_decode X E items active jobs s of
                 (Some x, jobs2, s2) \<Rightarrow> Some (Some x, jobs2, s2)
               | (None, jobs2, s2) \<Rightarrow> decode_rounds fuel X E jobs2 s2))"

section \<open>The end of a batch\<close>

fun fail_batch ::
  "'e IModelEngine \<Rightarrow> string \<Rightarrow> Job list \<Rightarrow> ('e, 'm) Scheduler_scheme \<Rightarrow> Job list \<times> ('e, 'm) Scheduler_scheme" where
  "fail_batch E m [] s = ([], s)"
| "fail_batch E m (j # js) s =
     (let st = (if job_done j then jb_state j else fail (jb_state j) m kError);
          (js', s') = fail_batch E m js (s\<lparr>sd_engine := eg_release_sequence E (sd_engine s) (job_seq j)\<rparr>)
      in (j\<lparr>jb_state := finish st\<rparr> # js', s'))"

definition settle_job :: "outer \<Rightarrow> Job \<Rightarrow> ('e, 'm) Scheduler_scheme \<Rightarrow> ('e, 'm) Scheduler_scheme" where
  "settle_job X job s =
     (let job1 = job\<lparr>jb_state := finish (jb_state job)\<rparr>;
          (a, job2) = (case jb_blocks job1 of
                         None \<Rightarrow> (sd_blocks s, job1)
                       | Some t \<Rightarrow> let (a, t') = release (sd_blocks s) t in (a, job1\<lparr>jb_blocks := Some t'\<rparr>))
      in deliver X (s\<lparr>sd_blocks := a,
                      sd_stats := (sd_stats s)\<lparr>sx_completed := u64 (sx_completed (sd_stats s) + 1)\<rparr>\<rparr>) job2)"

text \<open>
  The outer \<open>None\<close>: the fuel of the decode loop ran out. \<open>Inl\<close>: an exception left the
  function.
\<close>

definition run_batch ::
  "nat \<Rightarrow> outer \<Rightarrow> 'e IModelEngine \<Rightarrow> Request list \<Rightarrow> ('e, 'm) Scheduler_scheme \<Rightarrow>
   (string + ('e, 'm) Scheduler_scheme) option" where
  "run_batch fuel X E batch s =
     (if batch = [] then Some (Inr s)
      else case make_jobs X E 0 batch s of
        Inl x \<Rightarrow> Some (Inl x)
      | Inr (jobs, s1) \<Rightarrow>
          (case prefill_phase X E (n_batch (eg_caps E (sd_engine s1))) 0 jobs s1 of (x, jobs2, s2) \<Rightarrow>
            (case (if x \<noteq> None then Some (x, jobs2, s2) else decode_rounds fuel X E jobs2 s2) of
               None \<Rightarrow> None
             | Some (y, jobs3, s3) \<Rightarrow>
                 let (jobs4, s4) = (case y of None \<Rightarrow> (jobs3, s3) | Some m \<Rightarrow> fail_batch E m jobs3 s3)
                 in Some (Inr (publish_usage (fold (settle_job X) jobs4 s4))))))"

section \<open>The loop over batches\<close>

definition static_turn ::
  "nat \<Rightarrow> outer \<Rightarrow> 'e IModelEngine \<Rightarrow> ('e, 'm) Scheduler_scheme \<Rightarrow> ('e, 'm) Scheduler_scheme turn option" where
  "static_turn fuel X E s =
     (case next_batch s of
        None \<Rightarrow> Some Waits
      | Some (batch, s1) \<Rightarrow>
          if batch = [] then Some (Returns s1)
          else (case run_batch fuel X E batch s1 of
                  None \<Rightarrow> None
                | Some (Inl x) \<Rightarrow> Some (Throws x)
                | Some (Inr s2) \<Rightarrow> Some (Goes_on s2)))"

primrec run_static ::
  "nat \<Rightarrow> nat \<Rightarrow> outer \<Rightarrow> 'e IModelEngine \<Rightarrow> ('e, 'm) Scheduler_scheme \<Rightarrow> ('e, 'm) Scheduler_scheme turn option" where
  "run_static 0 fuel X E s = None"
| "run_static (Suc n) fuel X E s =
     (case static_turn fuel X E s of
        None \<Rightarrow> None
      | Some (Goes_on s1) \<Rightarrow> run_static n fuel X E s1
      | Some t \<Rightarrow> Some t)"

text \<open>\<open>run\<close> dispatches on the configured mode; both results are projected to the scheduler.\<close>

definition scheduler_of :: "'e Loop \<Rightarrow> 'e Scheduler" where
  "scheduler_of s = Scheduler.truncate s"

definition run ::
  "nat \<Rightarrow> nat \<Rightarrow> outer \<Rightarrow> 'e IModelEngine \<Rightarrow> 'e Scheduler \<Rightarrow> 'e Scheduler turn option" where
  "run n fuel X E s =
     (if cf_mode (sd_config s) = kContinuous
      then map_option (map_turn scheduler_of) (run_continuous n X E s)
      else run_static n fuel X E s)"

definition stats :: "('e, 'm) Scheduler_scheme \<Rightarrow> Stats" where
  "stats s = sd_stats s"

end
