(* ===== verification/Mv_StaticInv.thy ===== *)
theory Mv_StaticInv
  imports Mv_Static Mv_ContinuousRun
begin

text \<open>
  Static batching is correct: a batch ends, every request of it is answered exactly once
  and in order, every block it took is back in the pool; and what follows for \<open>run_static\<close>.
\<close>

section \<open>What the phases of a batch keep\<close>

definition carried :: "Job \<Rightarrow> Job \<Rightarrow> bool" where
  "carried j j' \<longleftrightarrow> ticket (jb_request j') = ticket (jb_request j) \<and> jb_blocks j' = jb_blocks j \<and>
     job_seq j' = job_seq j \<and> (job_ok j \<longrightarrow> job_ok j')"

definition same_rest :: "('e, 'm) Scheduler_scheme \<Rightarrow> ('e, 'm) Scheduler_scheme \<Rightarrow> bool" where
  "same_rest s s' \<longleftrightarrow> sd_blocks s' = sd_blocks s \<and> sd_queue s' = sd_queue s \<and> sd_config s' = sd_config s \<and>
     sd_prefix_cache s' = sd_prefix_cache s \<and> sd_fulfilled s' = sd_fulfilled s"

lemma carried_refl [simp]: "carried j j"
  by (simp add: carried_def)

lemma carried_trans: "carried j k \<Longrightarrow> carried k l \<Longrightarrow> carried j l"
  by (simp add: carried_def)

lemma same_rest_refl [simp]: "same_rest s s"
  by (simp add: same_rest_def)

lemma same_rest_trans: "same_rest s t \<Longrightarrow> same_rest t u \<Longrightarrow> same_rest s u"
  by (simp add: same_rest_def)

lemma same_rest_engine [simp]: "same_rest s (s\<lparr>sd_engine := e\<rparr>)" "same_rest s (s\<lparr>sd_ticks := n\<rparr>)"
  by (simp_all add: same_rest_def)

lemma all_carried_refl [simp]: "list_all2 carried js js"
  by (simp add: list_all2_refl)

lemma all_carried_trans: "list_all2 carried js ks \<Longrightarrow> list_all2 carried ks ls \<Longrightarrow> list_all2 carried js ls"
  by (rule list_all2_trans [OF carried_trans])

lemma all_carried_update:
  "i < length js \<Longrightarrow> carried (js ! i) j \<Longrightarrow> list_all2 carried js (js[i := j])"
  by (auto simp: list_all2_conv_all_nth nth_list_update)

lemma carried_maps:
  assumes "list_all2 carried js js'"
  shows "map (ticket \<circ> jb_request) js' = map (ticket \<circ> jb_request) js" and "map jb_blocks js' = map jb_blocks js"
    and "list_all job_ok js \<Longrightarrow> list_all job_ok js'" and "length js' = length js"
  using assms by (induction rule: list_all2_induct) (auto simp: carried_def)

section \<open>Accepting\<close>

lemma stamp_carried:
  assumes "stamp_first_token X s j = (j', s')"
  shows "carried j j'" and "same_rest s s'" and "jb_state j' = jb_state j"
  using assms
  by (auto simp: stamp_first_token_def clock_now_def carried_def job_ok_def sink_base_def request_ok_def ticket_def
      job_seq_def split: if_splits)

lemma accept_job_eq:
  "accept_job X E s j step =
     (let a = accept (eg_piece E (sd_engine s)) (xt_cancelled X (rq_id (jb_request j)) (sd_ticks s)) (jb_state j) step
      in (fst a, j\<lparr>jb_state := snd a\<rparr>, s\<lparr>sd_ticks := Suc (sd_ticks s)\<rparr>))"
  by (simp add: accept_job_def Let_def split_beta)

text \<open>The tokens a job may still sample, plus one for the step that finds the budget spent.\<close>

definition budget :: "Job \<Rightarrow> nat" where
  "budget j = (if job_done j then 0
     else Suc (max_tokens (sq_spec (jb_state j)) - completion_tokens (sq_usage (jb_state j))))"

lemma accept_job_carried:
  assumes "accept_job X E s j step = (go, j', s')"
  shows "carried j j'" and "same_rest s s'" and "go \<longleftrightarrow> \<not> job_done j'" and "job_ok j \<Longrightarrow> budget j' \<le> budget j - 1"
proof -
  let ?piece = "eg_piece E (sd_engine s)" and ?cxl = "xt_cancelled X (rq_id (jb_request j)) (sd_ticks s)"
  define a where "a = accept ?piece ?cxl (jb_state j) step"
  have e: "go = fst a" "j' = j\<lparr>jb_state := snd a\<rparr>" "s' = s\<lparr>sd_ticks := Suc (sd_ticks s)\<rparr>"
    using assms by (simp_all add: accept_job_eq a_def Let_def)
  show "carried j j'"
    by (auto simp: e carried_def job_seq_def a_def accept_frame job_ok_def intro: accept_inv_any)
  show "same_rest s s'" by (simp add: e)
  show fin: "go \<longleftrightarrow> \<not> job_done j'" using accept_finished [of ?piece ?cxl "jb_state j" step] by (simp add: e job_done_def a_def)
  assume ok: "job_ok j"
  show "budget j' \<le> budget j - 1"
  proof (cases go)
    case True
    then have acc: "accept ?piece ?cxl (jb_state j) step = (True, snd a)" by (simp add: e(1) a_def prod_eq_iff)
    have "max_tokens (sq_spec (jb_state j)) < 4294967296" using ok by (simp add: job_ok_def request_ok_def)
    note p = accept_progress [OF acc this]
    have nd: "\<not> job_done j" using acc by (auto simp: job_done_def accept_def)
    have "sq_spec (snd a) = sq_spec (jb_state j)" by (simp add: a_def accept_frame)
    with p(1,2) nd True fin show ?thesis by (simp add: budget_def e(2))
  next
    case False
    with fin show ?thesis by (simp add: budget_def)
  qed
qed

lemma finish_carried: "job_done j \<Longrightarrow> carried j (j\<lparr>jb_state := finish (jb_state j)\<rparr>)"
  by (simp add: carried_def job_seq_def) (metis finish_job_ok)

lemma finish_done: "job_done (j\<lparr>jb_state := finish (jb_state j)\<rparr>) \<longleftrightarrow> job_done j \<or> \<not> sq_notified (jb_state j)"
  by (cases "sq_notified (jb_state j)") (simp_all add: job_done_def)

lemma budget_done: "budget j = 0 \<longleftrightarrow> job_done j"
  by (simp add: budget_def)

lemma static_accept_step:
  assumes run: "static_accept X E steps k i jobs s = (x, jobs', s')" and i: "i < length jobs"
  shows "same_rest s s'" and "\<exists>j'. jobs' = jobs[i := j'] \<and> carried (jobs ! i) j' \<and>
    (x = None \<longrightarrow> job_ok (jobs ! i) \<longrightarrow> budget j' \<le> budget (jobs ! i) - 1)"
proof -
  obtain j1 s1 where st: "stamp_first_token X s (jobs ! i) = (j1, s1)" by (cases "stamp_first_token X s (jobs ! i)")
  note S = stamp_carried [OF st]
  have b: "budget j1 = budget (jobs ! i)" using S(3) by (simp add: budget_def job_done_def)
  have "same_rest s s' \<and> (\<exists>j'. jobs' = jobs[i := j'] \<and> carried (jobs ! i) j' \<and>
    (x = None \<longrightarrow> job_ok (jobs ! i) \<longrightarrow> budget j' \<le> budget (jobs ! i) - 1))"
  proof (cases "at_step steps k")
    case (Inl m)
    with run S show ?thesis by (auto simp: static_accept_def st)
  next
    case (Inr step)
    obtain go j2 s2 where ac: "accept_job X E s1 j1 step = (go, j2, s2)" by (metis prod_cases3)
    note A = accept_job_carried [OF ac]
    have c: "carried (jobs ! i) j2" and r: "same_rest s s2"
      using carried_trans [OF S(1) A(1)] same_rest_trans [OF S(2) A(2)] .
    have ok: "job_ok (jobs ! i) \<Longrightarrow> budget j2 \<le> budget (jobs ! i) - 1" using A(4) S(1) b by (simp add: carried_def)
    show ?thesis
    proof (cases go)
      case True
      with run c r ok show ?thesis by (auto simp: static_accept_def st Inr ac)
    next
      case False
      with A(3) have d: "job_done j2" by simp
      have f: "carried (jobs ! i) (j2\<lparr>jb_state := finish (jb_state j2)\<rparr>)" by (rule carried_trans [OF c finish_carried [OF d]])
      have z: "budget (j2\<lparr>jb_state := finish (jb_state j2)\<rparr>) = 0" using d by (simp add: budget_done finish_done)
      from run False have "jobs' = jobs[i := j2\<lparr>jb_state := finish (jb_state j2)\<rparr>]"
          "s' = s2\<lparr>sd_engine := eg_release_sequence E (sd_engine s2) (job_seq j2)\<rparr>"
        by (simp_all add: static_accept_def st Inr ac)
      with f z same_rest_trans [OF r same_rest_engine(1)] show ?thesis by auto
    qed
  qed
  then show "same_rest s s'" and "\<exists>j'. jobs' = jobs[i := j'] \<and> carried (jobs ! i) j' \<and>
    (x = None \<longrightarrow> job_ok (jobs ! i) \<longrightarrow> budget j' \<le> budget (jobs ! i) - 1)" by blast+
qed

text \<open>One decode: nothing but the submitted jobs moves, and each of them pays one token.\<close>

definition spends :: "nat set \<Rightarrow> Job list \<Rightarrow> Job list \<Rightarrow> bool" where
  "spends I jobs jobs' \<longleftrightarrow> (\<forall>n<length jobs. budget (jobs' ! n) \<le> budget (jobs ! n) - (if n \<in> I then 1 else 0))"

lemma static_accepts_step:
  assumes "static_accepts X E steps k is jobs s = (x, jobs', s')" and "set is \<subseteq> {..<length jobs}" and "distinct is"
  shows "same_rest s s' \<and> list_all2 carried jobs jobs' \<and>
    (x = None \<longrightarrow> list_all job_ok jobs \<longrightarrow> spends (set is) jobs jobs')"
  using assms
proof (induction "is" arbitrary: k jobs s)
  case Nil
  then show ?case by (auto simp: spends_def)
next
  case (Cons i "is")
  obtain y jobs1 s1 where a: "static_accept X E steps k i jobs s = (y, jobs1, s1)" by (metis prod_cases3)
  have i: "i < length jobs" using Cons.prems(2) by simp
  obtain j' where j': "jobs1 = jobs[i := j']" "carried (jobs ! i) j'"
      "y = None \<longrightarrow> job_ok (jobs ! i) \<longrightarrow> budget j' \<le> budget (jobs ! i) - 1" and r: "same_rest s s1"
    using static_accept_step [OF a i] by blast
  have c1: "list_all2 carried jobs jobs1" unfolding j'(1) by (rule all_carried_update [OF i j'(2)])
  show ?case
  proof (cases y)
    case None
    with Cons.prems a have rest: "static_accepts X E steps (Suc k) is jobs1 s1 = (x, jobs', s')" by simp
    from Cons.IH [OF rest] Cons.prems(2,3) j'(1)
    have IH: "same_rest s1 s'" "list_all2 carried jobs1 jobs'" "x = None \<longrightarrow> list_all job_ok jobs1 \<longrightarrow> spends (set is) jobs1 jobs'"
      by simp_all
    have "spends (set (i # is)) jobs jobs'" if "x = None" "list_all job_ok jobs"
    proof -
      have sp: "spends (set is) jobs1 jobs'" using IH(3) that carried_maps(3) [OF c1] by blast
      have "job_ok (jobs ! i)" using that(2) i by (simp add: list_all_length)
      with j'(3) None have b: "budget j' \<le> budget (jobs ! i) - 1" by simp
      show ?thesis unfolding spends_def
      proof (intro allI impI)
        fix n assume n: "n < length jobs"
        with sp j'(1) have "budget (jobs' ! n) \<le> budget (jobs1 ! n) - (if n \<in> set is then 1 else 0)"
          by (simp add: spends_def)
        with b n Cons.prems(3) i show "budget (jobs' ! n) \<le> budget (jobs ! n) - (if n \<in> set (i # is) then 1 else 0)"
          by (cases "n = i") (auto simp: j'(1))
      qed
    qed
    then show ?thesis using same_rest_trans [OF r IH(1)] all_carried_trans [OF c1 IH(2)] by blast
  next
    case (Some m)
    with Cons.prems(1) a r c1 show ?thesis by auto
  qed
qed

lemma static_decode_step:
  assumes "static_decode X E items is jobs s = (x, jobs', s')" and "set is \<subseteq> {..<length jobs}" and "distinct is"
  shows "same_rest s s'" and "list_all2 carried jobs jobs'"
    and "x = None \<Longrightarrow> list_all job_ok jobs \<Longrightarrow> spends (set is) jobs jobs'"
proof -
  obtain r eng where r: "eg_decode E (sd_engine s) items = (r, eng)" by (cases "eg_decode E (sd_engine s) items")
  have "same_rest s s' \<and> list_all2 carried jobs jobs' \<and> (x = None \<longrightarrow> list_all job_ok jobs \<longrightarrow> spends (set is) jobs jobs')"
  proof (cases r)
    case (Inl m)
    with assms(1) show ?thesis by (auto simp: static_decode_def r)
  next
    case (Inr steps)
    with assms(1) have "static_accepts X E steps 0 is jobs (s\<lparr>sd_engine := eng\<rparr>) = (x, jobs', s')"
      by (simp add: static_decode_def r)
    from static_accepts_step [OF this assms(2,3)] show ?thesis by (simp add: same_rest_def)
  qed
  then show "same_rest s s'" "list_all2 carried jobs jobs'"
    "x = None \<Longrightarrow> list_all job_ok jobs \<Longrightarrow> spends (set is) jobs jobs'" by blast+
qed

section \<open>Prefill and decode\<close>

lemma gather_step:
  "gather nb i js started tokens = (i', js', items, sub) \<Longrightarrow>
    list_all2 carried js js' \<and> set sub \<subseteq> {i..<i + length js} \<and> distinct sub \<and>
    (list_all (\<lambda>j. budget j < n) js \<longrightarrow> list_all (\<lambda>j. budget j < n) js')"
proof (induction js arbitrary: i started tokens i' js' items sub)
  case Nil
  then show ?case by simp
next
  case (Cons j js)
  obtain i1 js1 it1 sub1 where a: "gather nb (Suc i) js started tokens = (i1, js1, it1, sub1)" by (metis prod_cases4)
  obtain i2 js2 it2 sub2 where b: "gather nb (Suc i) js True (tokens + prefill_remaining (jb_state j)) = (i2, js2, it2, sub2)"
    by (metis prod_cases4)
  have c: "carried j (j\<lparr>jb_state := snd (prefill_item (jb_state j))\<rparr>)"
    and d: "budget (j\<lparr>jb_state := snd (prefill_item (jb_state j))\<rparr>) = budget j"
    by (auto simp: carried_def job_ok_def job_seq_def prefill_item_def take_prefill_chunk_inv budget_def job_done_def)
  show ?case
    using Cons.prems Cons.IH [OF a] Cons.IH [OF b] c d
    by (fastforce simp: a b Let_def split_beta split: if_splits)
qed

lemma sliced_carried:
  "i < length jobs \<Longrightarrow> list_all2 carried (drop i jobs) js' \<Longrightarrow> list_all2 carried jobs (take i jobs @ js')"
  using list_all2_appendI [of carried "take i jobs" "take i jobs" "drop i jobs" js'] by simp

lemma spends_bound:
  "spends I jobs jobs' \<Longrightarrow> length jobs' = length jobs \<Longrightarrow> list_all (\<lambda>j. budget j < n) jobs \<Longrightarrow> list_all (\<lambda>j. budget j < n) jobs'"
  unfolding spends_def list_all_length by (metis diff_le_self le_less_trans)

lemma prefill_phase_step:
  "prefill_phase X E nb i jobs s = (x, jobs', s') \<Longrightarrow> list_all job_ok jobs \<Longrightarrow>
    same_rest s s' \<and> list_all2 carried jobs jobs' \<and>
    (x = None \<longrightarrow> list_all (\<lambda>j. budget j < n) jobs \<longrightarrow> list_all (\<lambda>j. budget j < n) jobs')"
proof (induction X E nb i jobs s arbitrary: x jobs' s' rule: prefill_phase.induct)
  case (1 X E nb i jobs s)
  show ?case
  proof (cases "i < length jobs")
    case False
    with 1(3) show ?thesis by (auto simp: prefill_phase.simps [of X E nb i jobs s])
  next
    case i: True
    obtain i' js' items sub where g: "gather nb i (drop i jobs) False 0 = (i', js', items, sub)" by (metis prod_cases4)
    let ?jobs1 = "take i jobs @ js'"
    note G = gather_step [OF g, of n]
    have c1: "list_all2 carried jobs ?jobs1" using sliced_carried [OF i] G by blast
    note M = carried_maps [OF c1]
    have b1: "list_all (\<lambda>j. budget j < n) jobs \<Longrightarrow> list_all (\<lambda>j. budget j < n) ?jobs1"
      using G by (auto simp: list_all_iff dest: in_set_takeD in_set_dropD)
    show ?thesis
    proof (cases "items = []")
      case True
      with 1(3) i g have "prefill_phase X E nb i' ?jobs1 s = (x, jobs', s')"
        by (simp add: prefill_phase.simps [of X E nb i jobs s])
      from 1(1) [OF i g [symmetric] refl refl True this M(3) [OF 1(4)]] c1 b1 show ?thesis
        using all_carried_trans by blast
    next
      case False
      obtain y jobs2 s2 where d: "static_decode X E items sub ?jobs1 s = (y, jobs2, s2)" by (metis prod_cases3)
      have sub: "set sub \<subseteq> {..<length ?jobs1}" "distinct sub" using G i M(4) by auto
      note D = static_decode_step [OF d sub]
      have c2: "list_all2 carried jobs jobs2" by (rule all_carried_trans [OF c1 D(2)])
      show ?thesis
      proof (cases y)
        case (Some m)
        with 1(3) i g False d D(1) c2 show ?thesis by (auto simp: prefill_phase.simps [of X E nb i jobs s])
      next
        case None
        with 1(3) i g False d have "prefill_phase X E nb i' jobs2 s2 = (x, jobs', s')"
          by (simp add: prefill_phase.simps [of X E nb i jobs s])
        with 1(2) [OF i g [symmetric] refl refl False d [symmetric]] None carried_maps(3) [OF c2 1(4)]
        have IH: "same_rest s2 s' \<and> list_all2 carried jobs2 jobs' \<and>
          (x = None \<longrightarrow> list_all (\<lambda>j. budget j < n) jobs2 \<longrightarrow> list_all (\<lambda>j. budget j < n) jobs')" by blast
        have b2: "list_all (\<lambda>j. budget j < n) ?jobs1 \<Longrightarrow> list_all (\<lambda>j. budget j < n) jobs2"
          using spends_bound [OF D(3) [OF None M(3) [OF 1(4)]]] carried_maps(4) [OF D(2)] by blast
        from IH b1 b2 show ?thesis using same_rest_trans [OF D(1)] all_carried_trans [OF c2] by blast
      qed
    qed
  qed
qed

lemma unfinished_facts: "set (unfinished jobs) \<subseteq> {..<length jobs}" "distinct (unfinished jobs)"
  "unfinished jobs = [] \<longleftrightarrow> list_all job_done jobs"
  by (auto simp: unfinished_def list_all_length filter_empty_conv)

lemma decode_rounds_step:
  "decode_rounds fuel X E jobs s = Some (x, jobs', s') \<Longrightarrow>
    same_rest s s' \<and> list_all2 carried jobs jobs' \<and> (x = None \<longrightarrow> list_all job_done jobs')"
proof (induction fuel arbitrary: jobs s)
  case 0
  then show ?case by simp
next
  case (Suc fuel)
  let ?items = "map (\<lambda>i. decode_item (jb_state (jobs ! i))) (unfinished jobs)"
  show ?case
  proof (cases "unfinished jobs = []")
    case True
    with Suc.prems unfinished_facts(3) [of jobs] show ?thesis by auto
  next
    case False
    obtain y jobs2 s2 where d: "static_decode X E ?items (unfinished jobs) jobs s = (y, jobs2, s2)" by (metis prod_cases3)
    note D = static_decode_step [OF d unfinished_facts(1,2)]
    show ?thesis
    proof (cases y)
      case None
      with Suc.prems False d have "decode_rounds fuel X E jobs2 s2 = Some (x, jobs', s')" by (simp add: Let_def)
      from Suc.IH [OF this] show ?thesis using same_rest_trans [OF D(1)] all_carried_trans [OF D(2)] by blast
    next
      case (Some m)
      with Suc.prems False d D show ?thesis by (auto simp: Let_def)
    qed
  qed
qed

lemma decode_rounds_terminates:
  assumes "list_all job_ok jobs" and "list_all (\<lambda>j. budget j < fuel) jobs"
  shows "decode_rounds fuel X E jobs s \<noteq> None \<or> jobs = []"
  using assms
proof (induction fuel arbitrary: jobs s)
  case 0
  then show ?case by (cases jobs) simp_all
next
  case (Suc fuel)
  let ?items = "map (\<lambda>i. decode_item (jb_state (jobs ! i))) (unfinished jobs)"
  obtain y jobs2 s2 where d: "static_decode X E ?items (unfinished jobs) jobs s = (y, jobs2, s2)" by (metis prod_cases3)
  note D = static_decode_step [OF d unfinished_facts(1,2)]
  note M = carried_maps [OF D(2)]
  show ?case
  proof (cases "unfinished jobs = [] \<or> y \<noteq> None")
    case True
    with d show ?thesis by (auto simp: Let_def)
  next
    case False
    then have ne: "unfinished jobs \<noteq> []" and y: "y = None" by auto
    have "budget (jobs2 ! i) < fuel" if i: "i < length jobs" for i
    proof -
      have "budget (jobs2 ! i) \<le> budget (jobs ! i) - (if i \<in> set (unfinished jobs) then 1 else 0)"
        using D(3) [OF y Suc.prems(1)] i by (simp add: spends_def)
      moreover have "i \<notin> set (unfinished jobs) \<Longrightarrow> budget (jobs ! i) = 0" using i by (auto simp: unfinished_def budget_def)
      moreover have "budget (jobs ! i) < Suc fuel" using Suc.prems(2) i by (simp add: list_all_length)
      moreover have "i \<in> set (unfinished jobs) \<Longrightarrow> budget (jobs ! i) > 0" using i by (auto simp: unfinished_def budget_def)
      moreover have "fuel > 0"
      proof -
        from ne obtain k where "k \<in> set (unfinished jobs)" by (cases "unfinished jobs") auto
        then have "k < length jobs" "0 < budget (jobs ! k)" by (auto simp: unfinished_def budget_def)
        with Suc.prems(2) show ?thesis by (auto simp: list_all_length)
      qed
      ultimately show ?thesis by (cases "i \<in> set (unfinished jobs)") auto
    qed
    then have "list_all (\<lambda>j. budget j < fuel) jobs2" using M(4) by (simp add: list_all_length)
    from Suc.IH [OF M(3) [OF Suc.prems(1)] this, of s2] show ?thesis using ne y d M(4) by (auto simp: Let_def)
  qed
qed

section \<open>Making the jobs\<close>

text \<open>The blocks that the page tables of a batch hold.\<close>

definition batch_refs :: "Job list \<Rightarrow> BlockId multiset" where
  "batch_refs jobs = mset (concat (map (bt_blocks \<circ> job_table) jobs))"

lemma batch_refs_simps [simp]:
  "batch_refs [] = {#}" "batch_refs (j # js) = mset (bt_blocks (job_table j)) + batch_refs js"
  by (simp_all add: batch_refs_def)

lemma batch_refs_cong: "map jb_blocks js' = map jb_blocks js \<Longrightarrow> batch_refs js' = batch_refs js"
proof -
  assume "map jb_blocks js' = map jb_blocks js"
  then have "map (bt_blocks \<circ> job_table) js' = map (bt_blocks \<circ> job_table) js"
    by (auto simp: job_table_def list_eq_iff_nth_eq)
  then show ?thesis by (simp add: batch_refs_def)
qed

definition same_queue :: "('e, 'm) Scheduler_scheme \<Rightarrow> ('e, 'm) Scheduler_scheme \<Rightarrow> bool" where
  "same_queue s s' \<longleftrightarrow> sd_queue s' = sd_queue s \<and> sd_config s' = sd_config s \<and> sd_prefix_cache s' = sd_prefix_cache s"

lemma admit_static_step:
  assumes run: "admit_static X s job0 = (job, s')" and ok: "job_ok job0" and refs: "refs_of (sd_blocks s) H"
  shows "job_ok job" and "ticket (jb_request job) = ticket (jb_request job0)"
    and "refs_of (sd_blocks s') (H + mset (bt_blocks (job_table job)))"
    and "same_queue s s'" and "sd_fulfilled s' = sd_fulfilled s" and "budget job \<le> budget job0" and "jb_blocks job \<noteq> None"
proof -
  let ?n = "u32 (prompt_tokens (sq_usage (jb_state job0)) + max_tokens (rq_spec (jb_request job0)))"
  have stamp: "job_ok (j\<lparr>jb_blocks := b, jb_request := (jb_request j)\<lparr>rq_timing := t\<rparr>\<rparr>) = job_ok j" for j b t
    by (simp add: job_ok_def sink_base_def request_ok_def)
  have failed: "job_ok (job0\<lparr>jb_blocks := b, jb_state := fail (jb_state job0) m kContextOverflow\<rparr>)" if "\<not> job_done job0" for b m
    using ok that by (simp add: job_ok_def job_done_def fail_inv)
  have "jb_blocks job \<noteq> None \<and> job_ok job \<and> ticket (jb_request job) = ticket (jb_request job0) \<and>
    refs_of (sd_blocks s') (H + mset (bt_blocks (job_table job))) \<and> same_queue s s' \<and>
    sd_fulfilled s' = sd_fulfilled s \<and> budget job \<le> budget job0"
  proof (cases "job_done job0")
    case True
    with run ok refs show ?thesis
      by (auto simp: admit_static_def Let_def clock_now_def stamp job_done_def ticket_def job_table_def BlockTable_new_def
          same_queue_def budget_def)
  next
    case False
    obtain r a t where e: "ensure_capacity (sd_blocks s) BlockTable_new ?n = (r, a, t)" by (metis prod_cases3)
    obtain bs where b: "bt_blocks t = bt_blocks BlockTable_new @ bs" "refs_of a (H + mset bs)" "\<not> r \<Longrightarrow> bs = [] \<and> a = sd_blocks s \<and> t = BlockTable_new"
      by (rule ensure_capacity_refs [OF refs table_ok_new e]) blast
    then have bs: "bt_blocks t = bs" by (simp add: BlockTable_new_def)
    have nd: "\<not> sq_finished (jb_state job0)" using False by (simp add: job_done_def)
    show ?thesis
    proof (cases r)
      case True
      with run e False ok b bs show ?thesis
        by (auto simp: admit_static_def Let_def clock_now_def stamp job_done_def ticket_def job_table_def same_queue_def budget_def)
    next
      case r: False
      with run e False ok b bs failed [OF False] show ?thesis
        by (auto simp: admit_static_def Let_def job_done_def ticket_def job_table_def same_queue_def budget_def)
    qed
  qed
  then show "job_ok job" and "ticket (jb_request job) = ticket (jb_request job0)"
    and "refs_of (sd_blocks s') (H + mset (bt_blocks (job_table job)))"
    and "same_queue s s'" and "sd_fulfilled s' = sd_fulfilled s" and "budget job \<le> budget job0" and "jb_blocks job \<noteq> None" by blast+
qed

lemma make_job_budget:
  assumes "make_job E e r q = (x, job, e')" and "max_tokens (rq_spec r) < n"
  shows "budget job < Suc n"
  using assms
  by (auto simp: make_job_def Let_def budget_def job_done_def SequenceState_new_def split: prod.splits if_splits)

lemma make_jobs_step:
  assumes "make_jobs X E i batch s = Inr (jobs, s')" and "list_all request_ok batch" and "refs_of (sd_blocks s) H"
  shows "list_all job_ok jobs \<and> map (ticket \<circ> jb_request) jobs = map ticket batch \<and>
    refs_of (sd_blocks s') (H + batch_refs jobs) \<and> same_queue s s' \<and> sd_fulfilled s' = sd_fulfilled s \<and>
    list_all (\<lambda>j. jb_blocks j \<noteq> None) jobs \<and>
    (list_all (\<lambda>r. max_tokens (rq_spec r) < n) batch \<longrightarrow> list_all (\<lambda>j. budget j < Suc n) jobs)"
  using assms
proof (induction batch arbitrary: i s jobs s' H)
  case Nil
  then show ?case by (simp add: same_queue_def)
next
  case (Cons r rs)
  obtain x job0 eng where m: "make_job E (sd_engine s) r (i32 (int i)) = (x, job0, eng)" by (metis prod_cases3)
  from Cons.prems(1) m have x: "x = None" by (cases x) simp_all
  obtain job s1 where a: "admit_static X (s\<lparr>sd_engine := eng\<rparr>) job0 = (job, s1)"
    by (cases "admit_static X (s\<lparr>sd_engine := eng\<rparr>) job0")
  from Cons.prems(1) m x a obtain jobs1 where mk: "make_jobs X E (Suc i) rs s1 = Inr (jobs1, s')" and j: "jobs = job # jobs1"
    by (auto split: sum.splits)
  have ro: "request_ok r" "list_all request_ok rs" using Cons.prems(2) by simp_all
  note J = make_job_ok [OF m ro(1)]
  note A = admit_static_step [OF a J(1), of H, simplified, OF Cons.prems(3)]
  from Cons.IH [OF mk ro(2) A(3)] A J(3) make_job_budget [OF m, of n] show ?case
    by (auto simp: j same_queue_def add.assoc)
qed

section \<open>The end of a batch\<close>

lemma fail_batch_step:
  "fail_batch E m jobs s = (jobs', s') \<Longrightarrow> list_all job_ok jobs \<Longrightarrow>
    same_rest s s' \<and> list_all2 carried jobs jobs' \<and> list_all job_done jobs'"
proof (induction jobs arbitrary: s jobs' s')
  case Nil
  then show ?case by simp
next
  case (Cons j js)
  let ?s1 = "s\<lparr>sd_engine := eg_release_sequence E (sd_engine s) (job_seq j)\<rparr>"
  let ?st = "if job_done j then jb_state j else fail (jb_state j) m kError"
  obtain js1 s1 where f: "fail_batch E m js ?s1 = (js1, s1)" by (cases "fail_batch E m js ?s1")
  from Cons.IH [OF f] Cons.prems(2) have IH: "same_rest ?s1 s1" "list_all2 carried js js1" "list_all job_done js1" by simp_all
  have fin: "sq_finished ?st" by (simp add: job_done_def)
  have "seq_inv (sink_base (jb_request j)) ?st" "sq_spec ?st = sq_spec (jb_state j)"
    using Cons.prems(2) by (auto simp: job_ok_def job_done_def fail_inv)
  with fin have "seq_inv (sink_base (jb_request j)) (finish ?st)" by (intro finish_inv)
  then have "carried j (j\<lparr>jb_state := finish ?st\<rparr>)" using Cons.prems(2)
    by (simp add: carried_def job_ok_def job_seq_def)
  moreover have "job_done (j\<lparr>jb_state := finish ?st\<rparr>)"
    using fin by (cases "sq_notified ?st") (simp_all add: job_done_def)
  ultimately show ?case using Cons.prems(1) IH f by (auto simp: Let_def same_rest_def)
qed

lemma settle_job_step:
  assumes "job_ok j" and "job_done j" and "refs_of (sd_blocks s) (mset (bt_blocks (job_table j)) + H)" and "jb_blocks j \<noteq> None"
  shows "refs_of (sd_blocks (settle_job X j s)) H" and "same_queue s (settle_job X j s)"
    and "\<exists>d. sd_fulfilled (settle_job X j s) = sd_fulfilled s @ [d] \<and> ticket (fst d) = ticket (jb_request j) \<and> delivered_ok d"
proof -
  obtain t where t: "jb_blocks j = Some t" using assms(4) by blast
  have r: "refs_of (fst (release (sd_blocks s) t)) H"
    using assms(3) by (intro release_refs) (simp add: t job_table_def add.commute)
  show "refs_of (sd_blocks (settle_job X j s)) H" "same_queue s (settle_job X j s)"
    using r by (simp_all add: settle_job_def t Let_def split_beta same_queue_def)
  have "delivered_ok (delivery X n (j\<lparr>jb_state := finish (jb_state j)\<rparr>))" for n
    by (rule delivery_ok [OF finish_job_ok [OF assms(1,2)]]) simp
  then show "\<exists>d. sd_fulfilled (settle_job X j s) = sd_fulfilled s @ [d] \<and> ticket (fst d) = ticket (jb_request j) \<and> delivered_ok d"
    by (simp add: settle_job_def t Let_def split_beta deliver_fulfilled)
qed

lemma settle_all:
  assumes "list_all job_ok jobs" and "list_all job_done jobs" and "refs_of (sd_blocks s) (H + batch_refs jobs)"
    and "list_all (\<lambda>j. jb_blocks j \<noteq> None) jobs"
  shows "refs_of (sd_blocks (fold (settle_job X) jobs s)) H \<and> same_queue s (fold (settle_job X) jobs s) \<and>
    (\<exists>ds. sd_fulfilled (fold (settle_job X) jobs s) = sd_fulfilled s @ ds \<and>
      map (ticket \<circ> fst) ds = map (ticket \<circ> jb_request) jobs \<and> list_all delivered_ok ds)"
  using assms
proof (induction jobs arbitrary: s)
  case Nil
  then show ?case by (simp add: same_queue_def)
next
  case (Cons j js)
  let ?s = "settle_job X j s"
  have p: "job_ok j" "job_done j" "jb_blocks j \<noteq> None" "refs_of (sd_blocks s) (mset (bt_blocks (job_table j)) + (H + batch_refs js))"
    using Cons.prems by (simp_all add: ac_simps)
  note S = settle_job_step [OF p(1,2,4,3), of X]
  from Cons.IH [OF _ _ S(1)] Cons.prems S(2,3) show ?case by (fastforce simp: same_queue_def)
qed

section \<open>A whole batch\<close>

lemma blocks_present: "map jb_blocks js' = map jb_blocks js \<Longrightarrow> list_all (\<lambda>j. jb_blocks j \<noteq> None) js \<Longrightarrow> list_all (\<lambda>j. jb_blocks j \<noteq> None) js'"
proof -
  have e: "list_all (\<lambda>j. jb_blocks j \<noteq> None) ks \<longleftrightarrow> list_all (\<lambda>b. b \<noteq> None) (map jb_blocks ks)" for ks
    by (simp add: list.pred_map comp_def)
  show "map jb_blocks js' = map jb_blocks js \<Longrightarrow> list_all (\<lambda>j. jb_blocks j \<noteq> None) js \<Longrightarrow> list_all (\<lambda>j. jb_blocks j \<noteq> None) js'"
    unfolding e by (simp only:)
qed

lemma publish_usage_same [simp]:
  "sd_blocks (publish_usage s) = sd_blocks s" "sd_fulfilled (publish_usage s) = sd_fulfilled s"
  "same_queue t (publish_usage s) = same_queue t s"
  by (simp_all add: publish_usage_def same_queue_def)

lemma run_batch_ok:
  assumes run: "run_batch fuel X E batch s = Some (Inr s')" and ok: "list_all request_ok batch"
    and refs: "refs_of (sd_blocks s) H"
  shows "refs_of (sd_blocks s') H" and "same_queue s s'"
    and "\<exists>ds. sd_fulfilled s' = sd_fulfilled s @ ds \<and> map (ticket \<circ> fst) ds = map ticket batch \<and> list_all delivered_ok ds"
proof -
  have "refs_of (sd_blocks s') H \<and> same_queue s s' \<and>
    (\<exists>ds. sd_fulfilled s' = sd_fulfilled s @ ds \<and> map (ticket \<circ> fst) ds = map ticket batch \<and> list_all delivered_ok ds)"
  proof (cases "batch = []")
    case True
    with run refs show ?thesis by (auto simp: run_batch_def same_queue_def)
  next
    case ne: False
    from run ne obtain jobs s1 where mk: "make_jobs X E 0 batch s = Inr (jobs, s1)"
      by (auto simp: run_batch_def split: sum.splits)
    note J = make_jobs_step [OF mk ok refs, of 0]
    obtain x jobs2 s2 where pf: "prefill_phase X E (n_batch (eg_caps E (sd_engine s1))) 0 jobs s1 = (x, jobs2, s2)"
      by (metis prod_cases3)
    from J have jok: "list_all job_ok jobs" by blast
    note P = prefill_phase_step [OF pf jok, of 0]
    from run ne mk pf obtain y jobs3 s3 where
      dr: "(if x \<noteq> None then Some (x, jobs2, s2) else decode_rounds fuel X E jobs2 s2) = Some (y, jobs3, s3)"
      by (auto simp: run_batch_def split: option.splits)
    have R: "same_rest s1 s3 \<and> list_all2 carried jobs jobs3 \<and> (y = None \<longrightarrow> list_all job_done jobs3)"
    proof (cases x)
      case None
      with dr have d: "decode_rounds fuel X E jobs2 s2 = Some (y, jobs3, s3)" by simp
      from decode_rounds_step [OF d] P show ?thesis
        using same_rest_trans [of s1 s2 s3] all_carried_trans [of jobs jobs2 jobs3] by blast
    next
      case (Some m)
      with dr P show ?thesis by auto
    qed
    define fin where "fin = (case y of None \<Rightarrow> (jobs3, s3) | Some m \<Rightarrow> fail_batch E m jobs3 s3)"
    obtain jobs4 s4 where f: "fin = (jobs4, s4)" by (cases fin)
    have j3: "list_all job_ok jobs3" using R carried_maps(3) jok by blast
    have F: "same_rest s1 s4 \<and> list_all2 carried jobs jobs4 \<and> list_all job_done jobs4"
    proof (cases y)
      case None
      with f R show ?thesis by (simp add: fin_def)
    next
      case (Some m)
      with f have "fail_batch E m jobs3 s3 = (jobs4, s4)" by (simp add: fin_def)
      from fail_batch_step [OF this j3] R show ?thesis
        using same_rest_trans [of s1 s3 s4] all_carried_trans [of jobs jobs3 jobs4] by blast
    qed
    then have c4: "list_all2 carried jobs jobs4" by blast
    note M = carried_maps [OF c4]
    have s': "s' = publish_usage (fold (settle_job X) jobs4 s4)"
      using run ne mk pf dr f by (simp add: run_batch_def fin_def)
    have "refs_of (sd_blocks s4) (H + batch_refs jobs4)" using J F by (simp add: same_rest_def batch_refs_cong [OF M(2)])
    from settle_all [OF M(3) [OF jok] _ this, of X] F J blocks_present [OF M(2)]
    show ?thesis by (auto simp: s' M(1) same_queue_def same_rest_def publish_usage_def)
  qed
  then show "refs_of (sd_blocks s') H" and "same_queue s s'"
    and "\<exists>ds. sd_fulfilled s' = sd_fulfilled s @ ds \<and> map (ticket \<circ> fst) ds = map ticket batch \<and> list_all delivered_ok ds"
    by blast+
qed

lemma run_batch_terminates:
  assumes ok: "list_all request_ok batch" and refs: "refs_of (sd_blocks s) H"
    and fuel: "list_all (\<lambda>r. max_tokens (rq_spec r) + 1 < fuel) batch"
  shows "run_batch fuel X E batch s \<noteq> None"
proof (cases "batch = []")
  case True
  then show ?thesis by (simp add: run_batch_def)
next
  case ne: False
  show ?thesis
  proof (cases "make_jobs X E 0 batch s")
    case (Inl m)
    with ne show ?thesis by (simp add: run_batch_def)
  next
    case (Inr r)
    obtain jobs s1 where mk: "make_jobs X E 0 batch s = Inr (jobs, s1)" using Inr by (cases r) simp
    have "0 < fuel" using ne fuel by (cases batch) auto
    then obtain n where n: "fuel = Suc n" by (cases fuel) auto
    have "list_all (\<lambda>r. max_tokens (rq_spec r) < n) batch" using fuel by (simp add: n list_all_iff)
    with make_jobs_step [OF mk ok refs, of n] have J: "list_all job_ok jobs" "list_all (\<lambda>j. budget j < fuel) jobs"
        "map (ticket \<circ> jb_request) jobs = map ticket batch"
      by (simp_all add: n)
    obtain x jobs2 s2 where pf: "prefill_phase X E (n_batch (eg_caps E (sd_engine s1))) 0 jobs s1 = (x, jobs2, s2)"
      by (metis prod_cases3)
    note P = prefill_phase_step [OF pf J(1), of fuel]
    have "x \<noteq> None \<or> decode_rounds fuel X E jobs2 s2 \<noteq> None"
    proof (cases x)
      case None
      have c: "list_all2 carried jobs jobs2" using P by blast
      from decode_rounds_terminates [OF carried_maps(3) [OF c J(1)], of fuel X E s2] P None J(2)
      have "decode_rounds fuel X E jobs2 s2 \<noteq> None \<or> jobs2 = []" by blast
      moreover have "jobs2 \<noteq> []" using carried_maps(4) [OF c] J(3) ne by (metis length_0_conv length_map)
      ultimately show ?thesis by blast
    qed simp
    with ne mk pf show ?thesis by (auto simp: run_batch_def Let_def split: option.splits prod.splits)
  qed
qed

section \<open>Forming batches\<close>

lemma fill_batch_step:
  "fill_batch n w = (rs, w') \<Longrightarrow> outside w M \<Longrightarrow> world_ok w \<Longrightarrow>
    outside w' (M + tickets rs) \<and> world_ok w' \<and> list_all request_ok rs \<and> length rs \<le> n"
proof (induction n arbitrary: w rs w' M)
  case 0
  then show ?case by simp
next
  case (Suc n)
  obtain r w1 where p: "world_try_pop w = (r, w1)" by (cases "world_try_pop w")
  note o1 = world_try_pop_outside [OF Suc.prems(2) p] and k1 = world_try_pop_ok [OF Suc.prems(3) p]
  show ?case
  proof (cases r)
    case None
    with Suc.prems(1) p o1 k1 show ?thesis by auto
  next
    case (Some x)
    obtain rs1 w2 where f: "fill_batch n w1 = (rs1, w2)" by (cases "fill_batch n w1")
    from Suc.IH [OF f, of "M + {#ticket x#}"] o1 k1 Some Suc.prems(1) p f show ?thesis by auto
  qed
qed

lemma next_batch_step:
  assumes run: "next_batch s = Some (batch, s')" and "outside (sd_queue s) M" and "world_ok (sd_queue s)"
  shows "outside (sd_queue s') (M + tickets batch)" and "world_ok (sd_queue s')" and "list_all request_ok batch"
    and "\<exists>w. s' = s\<lparr>sd_queue := w\<rparr>" and "0 < cf_max_batch_size (sd_config s) \<Longrightarrow> length batch \<le> cf_max_batch_size (sd_config s)"
    and "batch = [] \<Longrightarrow> qu_closed (qw_queue (sd_queue s')) \<and> qu_queue (qw_queue (sd_queue s')) = []"
proof -
  from run obtain r w where p: "world_pop (sd_queue s) = Some (r, w)"
    by (auto simp: next_batch_def split: option.splits)
  note o1 = world_pop_outside [OF assms(2) p] and k1 = world_pop_ok [OF assms(3) p]
  have "outside (sd_queue s') (M + tickets batch) \<and> world_ok (sd_queue s') \<and> list_all request_ok batch \<and>
    (\<exists>w. s' = s\<lparr>sd_queue := w\<rparr>) \<and> (0 < cf_max_batch_size (sd_config s) \<longrightarrow> length batch \<le> cf_max_batch_size (sd_config s)) \<and>
    (batch = [] \<longrightarrow> qu_closed (qw_queue (sd_queue s')) \<and> qu_queue (qw_queue (sd_queue s')) = [])"
  proof (cases r)
    case None
    with run p o1 k1 world_pop_closed [of "sd_queue s" w] show ?thesis by (auto simp: next_batch_def)
  next
    case (Some x)
    obtain rs w1 where f: "fill_batch (cf_max_batch_size (sd_config s) - 1) w = (rs, w1)"
      by (cases "fill_batch (cf_max_batch_size (sd_config s) - 1) w")
    from fill_batch_step [OF f, of "M + {#ticket x#}"] o1 k1 Some run p f show ?thesis
      by (auto simp: next_batch_def)
  qed
  then show "outside (sd_queue s') (M + tickets batch)" and "world_ok (sd_queue s')" and "list_all request_ok batch"
    and "\<exists>w. s' = s\<lparr>sd_queue := w\<rparr>" and "0 < cf_max_batch_size (sd_config s) \<Longrightarrow> length batch \<le> cf_max_batch_size (sd_config s)"
    and "batch = [] \<Longrightarrow> qu_closed (qw_queue (sd_queue s')) \<and> qu_queue (qw_queue (sd_queue s')) = []" by blast+
qed

lemma fill_batch_offered: "fill_batch n w = (rs, w') \<Longrightarrow> subseq (offered w') (offered w)"
proof (induction n arbitrary: w rs w')
  case 0
  then show ?case by simp
next
  case (Suc n)
  obtain r w1 where p: "world_try_pop w = (r, w1)" by (cases "world_try_pop w")
  note o1 = world_try_pop_offered [OF p]
  show ?case
  proof (cases r)
    case None
    with Suc.prems p o1 show ?thesis by simp
  next
    case (Some x)
    obtain rs1 w2 where f: "fill_batch n w1 = (rs1, w2)" by (cases "fill_batch n w1")
    with Suc.prems p Some have "w' = w2" by simp
    with Suc.IH [OF f] o1 show ?thesis using subseq_order.trans by blast
  qed
qed

lemma next_batch_offered: "next_batch s = Some (batch, s') \<Longrightarrow> subseq (offered (sd_queue s')) (offered (sd_queue s))"
  by (auto simp: next_batch_def Let_def dest!: world_pop_offered fill_batch_offered
      intro: subseq_order.trans split: option.splits prod.splits)

section \<open>The loop over batches\<close>

definition static_inv :: "('e, 'm) Scheduler_scheme \<Rightarrow> bool" where
  "static_inv s \<longleftrightarrow> outside (sd_queue s) (tickets (map fst (sd_fulfilled s))) \<and> world_ok (sd_queue s) \<and>
     refs_of (sd_blocks s) {#} \<and> list_all delivered_ok (sd_fulfilled s)"

lemma tickets_eq: "tickets xs = tickets ys \<longleftrightarrow> mset (map ticket xs) = mset (map ticket ys)"
  by (simp add: tickets_def)

lemma static_turn_inv:
  assumes inv: "static_inv s" and run: "static_turn fuel X E s = Some t" and t: "t = Goes_on s' \<or> t = Returns s'"
  shows "static_inv s'" and "t = Returns s' \<Longrightarrow> qu_closed (qw_queue (sd_queue s')) \<and> qu_queue (qw_queue (sd_queue s')) = []"
    and "subseq (offered (sd_queue s')) (offered (sd_queue s))"
proof -
  from run t obtain batch s1 where nb: "next_batch s = Some (batch, s1)"
    by (cases "next_batch s") (auto simp: static_turn_def)
  have D: "outside (sd_queue s) (tickets (map fst (sd_fulfilled s)))" "world_ok (sd_queue s)"
      "refs_of (sd_blocks s) {#}" "list_all delivered_ok (sd_fulfilled s)"
    using inv by (simp_all add: static_inv_def)
  note B = next_batch_step [OF nb D(1,2)]
  obtain w where w: "s1 = s\<lparr>sd_queue := w\<rparr>" using B(4) by blast
  show "t = Returns s' \<Longrightarrow> qu_closed (qw_queue (sd_queue s')) \<and> qu_queue (qw_queue (sd_queue s')) = []"
    using run nb B(6) by (auto simp: static_turn_def split: if_splits option.splits sum.splits)
  have "static_inv s' \<and> sd_queue s' = sd_queue s1"
  proof (cases "batch = []")
    case True
    with run t nb have "s' = s1" by (auto simp: static_turn_def)
    with B(1,2) D True show ?thesis by (simp add: static_inv_def w)
  next
    case False
    with run t nb have rb: "run_batch fuel X E batch s1 = Some (Inr s')"
      by (auto simp: static_turn_def split: option.splits sum.splits)
    have "refs_of (sd_blocks s1) {#}" using D(3) by (simp add: w)
    note R = run_batch_ok [OF rb B(3) this]
    obtain ds where ds: "sd_fulfilled s' = sd_fulfilled s1 @ ds" "map (ticket \<circ> fst) ds = map ticket batch" "list_all delivered_ok ds"
      using R(3) by blast
    from arg_cong [OF ds(2), of mset] have "tickets (map fst ds) = tickets batch" by (simp add: tickets_def)
    with B(1) have "outside (sd_queue s1) (tickets (map fst (sd_fulfilled s')))" by (simp add: ds(1) w)
    with R B(2) D(4) ds show ?thesis by (simp add: static_inv_def same_queue_def w)
  qed
  with next_batch_offered [OF nb] show "static_inv s'" and "subseq (offered (sd_queue s')) (offered (sd_queue s))" by simp_all
qed

lemma run_static_inv:
  assumes "static_inv s" and "run_static n fuel X E s = Some (Returns s')"
  shows "static_inv s' \<and> qu_closed (qw_queue (sd_queue s')) \<and> qu_queue (qw_queue (sd_queue s')) = [] \<and>
    subseq (offered (sd_queue s')) (offered (sd_queue s))"
  using assms
proof (induction n arbitrary: s)
  case 0
  then show ?case by simp
next
  case (Suc n)
  from Suc.prems(2) obtain t where t: "static_turn fuel X E s = Some t" by (cases "static_turn fuel X E s") auto
  show ?case
  proof (cases t)
    case (Goes_on s1)
    note T = static_turn_inv(1,3) [OF Suc.prems(1) t, of s1]
    have "run_static n fuel X E s1 = Some (Returns s')" using Goes_on Suc.prems(2) t by simp
    with Suc.IH [of s1] T Goes_on show ?thesis using subseq_order.trans by blast
  next
    case (Returns s1)
    with Suc.prems(2) t have "t = Returns s'" by simp
    with static_turn_inv [OF Suc.prems(1) t] show ?thesis by blast
  qed (use Suc.prems(2) t in auto)
qed

section \<open>The loop ends\<close>

lemma fill_batch_effect:
  "fill_batch n w = (rs, w') \<Longrightarrow> work w' \<le> work w \<and> (closes w \<longrightarrow> closes w')"
proof (induction n arbitrary: w rs w')
  case 0
  then show ?case by simp
next
  case (Suc n)
  obtain r w1 where p: "world_try_pop w = (r, w1)" by (cases "world_try_pop w")
  note P = world_try_pop_effect [OF p]
  show ?case
  proof (cases r)
    case None
    with Suc.prems p P show ?thesis by auto
  next
    case (Some x)
    obtain rs1 w2 where f: "fill_batch n w1 = (rs1, w2)" by (cases "fill_batch n w1")
    from Suc.IH [OF f] Suc.prems p f Some P show ?thesis by auto
  qed
qed

lemma next_batch_effect:
  assumes "closes (sd_queue s)"
  shows "\<exists>batch s'. next_batch s = Some (batch, s') \<and> closes (sd_queue s') \<and>
    (batch \<noteq> [] \<longrightarrow> work (sd_queue s') < work (sd_queue s))"
proof -
  obtain r w where p: "world_pop (sd_queue s) = Some (r, w)" using world_pop_served [OF assms] by auto
  note P = world_pop_effect [OF p]
  show ?thesis
  proof (cases r)
    case None
    with p P assms show ?thesis by (auto simp: next_batch_def)
  next
    case (Some x)
    obtain rs w1 where f: "fill_batch (cf_max_batch_size (sd_config s) - 1) w = (rs, w1)"
      by (cases "fill_batch (cf_max_batch_size (sd_config s) - 1) w")
    from fill_batch_effect [OF f] p P Some assms show ?thesis by (auto simp: next_batch_def f [unfolded One_nat_def])
  qed
qed

lemma run_static_terminates:
  assumes "static_inv s" and "closes (sd_queue s)" and "work (sd_queue s) < n" and fuel: "4294967296 < fuel"
  shows "\<exists>t. run_static n fuel X E s = Some t \<and> t \<noteq> Waits"
  using assms(1-3)
proof (induction n arbitrary: s)
  case 0
  then show ?case by simp
next
  case (Suc n)
  obtain batch s1 where nb: "next_batch s = Some (batch, s1)" and c: "closes (sd_queue s1)"
      and w: "batch \<noteq> [] \<longrightarrow> work (sd_queue s1) < work (sd_queue s)"
    using next_batch_effect [OF Suc.prems(2)] by blast
  show ?case
  proof (cases "batch = []")
    case True
    with nb show ?thesis by (simp add: static_turn_def)
  next
    case ne: False
    have D: "outside (sd_queue s) (tickets (map fst (sd_fulfilled s)))" "world_ok (sd_queue s)" "refs_of (sd_blocks s) {#}"
      using Suc.prems(1) by (simp_all add: static_inv_def)
    note B = next_batch_step [OF nb D(1,2)]
    have refs: "refs_of (sd_blocks s1) {#}" using B(4) D(3) by auto
    have "list_all (\<lambda>r. max_tokens (rq_spec r) + 1 < fuel) batch"
      using B(3) fuel by (auto simp: list_all_iff request_ok_def)
    then obtain r where r: "run_batch fuel X E batch s1 = Some r" using run_batch_terminates [OF B(3) refs] by blast
    show ?thesis
    proof (cases r)
      case (Inl m)
      with nb ne r show ?thesis by (simp add: static_turn_def)
    next
      case (Inr s2)
      with nb ne r have t: "static_turn fuel X E s = Some (Goes_on s2)" by (simp add: static_turn_def)
      have q: "sd_queue s2 = sd_queue s1" using run_batch_ok(2) [OF r [unfolded Inr] B(3) refs] by (simp add: same_queue_def)
      have "work (sd_queue s2) < n" using w ne Suc.prems(3) q by simp
      with Suc.IH [OF static_turn_inv(1) [OF Suc.prems(1) t]] c q t show ?thesis by simp
    qed
  qed
qed

section \<open>From the constructor on\<close>

lemma Scheduler_new_static:
  assumes "config_ok (eg_caps E e) config" and "world_start w"
  shows "static_inv (Scheduler_new E e w config)"
proof -
  let ?s = "Scheduler_new E e w config"
  note F = Scheduler_new_facts [OF assms(1), of w]
  have "donors (sd_prefix_cache ?s) = {#}"
    by (simp add: Scheduler_new_def Let_def configure_donors_def PrefixCache_new_def donors_def)
  with kv_accD(1) [OF F(5)] have "refs_of (sd_blocks ?s) {#}" by (simp add: donor_refs_def)
  with assms(2) show ?thesis by (simp add: static_inv_def F(6,7) world_start_def outside_def)
qed

lemma static_pool_whole: "static_inv s \<Longrightarrow> free_blocks (sd_blocks s) = ba_total (sd_blocks s)"
  using free_blocks_refs [of "sd_blocks s" "{#}"] by (simp add: static_inv_def)

section \<open>Both modes\<close>

text \<open>What holds when \<open>run\<close> returns, whichever loop the configuration selects.\<close>

lemma run_returned:
  assumes ok: "config_ok (eg_caps E e) config" and w: "world_start w"
    and run: "run n fuel X E (Scheduler_new E e w config) = Some (Returns s)"
  shows "qu_closed (qw_queue (sd_queue s))" and "qu_queue (qw_queue (sd_queue s)) = []"
    and "tickets (qw_accepted (sd_queue s)) = tickets (map fst (sd_fulfilled s))"
    and "list_all delivered_ok (sd_fulfilled s)" and "subseq (offered (sd_queue s)) (offered w)"
proof -
  let ?s0 = "Scheduler_new E e w config"
  have q: "sd_queue ?s0 = w" by (rule Scheduler_new_facts(6) [OF ok])
  have "qu_closed (qw_queue (sd_queue s)) \<and> qu_queue (qw_queue (sd_queue s)) = [] \<and>
    tickets (qw_accepted (sd_queue s)) = tickets (map fst (sd_fulfilled s)) \<and>
    list_all delivered_ok (sd_fulfilled s) \<and> subseq (offered (sd_queue s)) (offered w)"
  proof (cases "cf_mode (sd_config ?s0) = kContinuous")
    case True
    with run obtain t where r: "run_continuous n X E ?s0 = Some t" and t: "map_turn scheduler_of t = Returns s"
      by (auto simp: run_def)
    from t obtain s1 where "t = Returns s1" and s: "s = scheduler_of s1" by (cases t) auto
    note r = r [unfolded this(1)]
    note R = returned [OF ok w r]
    from R(1) have "list_all delivered_ok (sd_fulfilled s1)" by (simp add: loop_inv_def inv_core_def)
    with R q show ?thesis by (simp add: s scheduler_of_def Scheduler.truncate_def evolves_def statics_def)
  next
    case False
    with run have r: "run_static n fuel X E ?s0 = Some (Returns s)" by (simp add: run_def)
    from run_static_inv [OF Scheduler_new_static [OF ok w] r] q show ?thesis by (simp add: static_inv_def outside_def)
  qed
  then show "qu_closed (qw_queue (sd_queue s))" and "qu_queue (qw_queue (sd_queue s)) = []"
    and "tickets (qw_accepted (sd_queue s)) = tickets (map fst (sd_fulfilled s))"
    and "list_all delivered_ok (sd_fulfilled s)" and "subseq (offered (sd_queue s)) (offered w)" by blast+
qed

end
