(* ===== verification/Mv_MockEngine.thy ===== *)
theory Mv_MockEngine
  imports Mv_Engine "HOL-Library.AList"
begin

text \<open>
  \<open>MockModelEngine\<close> of \<open>include/microvllm/mock_engine.hpp\<close> and
  \<open>src/engine/mock_engine.cpp\<close>: a deterministic engine that replays a fixed response, or
  its own prompt in echo mode. The map of sequences is an association list. The sleep per
  decode step is not modelled.
\<close>

section \<open>State and operations\<close>

record MockConfig =
  mc_response :: string
  mc_echo_prompt :: bool
  mc_token_latency :: nat
  mc_n_ctx :: nat
  mc_n_batch :: nat
  mc_n_seq_max :: nat

definition kEosToken :: Token where
  "kEosToken = 256"

definition kBosToken :: Token where
  "kBosToken = 257"

record SeqState =
  ss_gen_index :: nat
  ss_prefilled :: "Token list"

definition SeqState_default :: SeqState where
  "SeqState_default = \<lparr>ss_gen_index = 0, ss_prefilled = []\<rparr>"

record MockModelEngine =
  mk_config :: MockConfig
  mk_response_tokens :: "Token list"
  mk_sequences :: "(SeqId \<times> SeqState) list"
  mk_tokens_copied :: nat
  mk_tokens_prefilled :: nat

text \<open>\<open>static_cast<Token>(static_cast<unsigned char>(c))\<close>.\<close>

definition byte_token :: "char \<Rightarrow> Token" where
  "byte_token c = int (of_char c)"

definition MockModelEngine_new :: "MockConfig \<Rightarrow> MockModelEngine" where
  "MockModelEngine_new config =
     \<lparr>mk_config = config, mk_response_tokens = map byte_token (mc_response config),
      mk_sequences = [], mk_tokens_copied = 0, mk_tokens_prefilled = 0\<rparr>"

definition mock_caps :: "MockModelEngine \<Rightarrow> EngineCaps" where
  "mock_caps e =
     \<lparr>n_ctx = mc_n_ctx (mk_config e), n_batch = mc_n_batch (mk_config e),
      n_seq_max = mc_n_seq_max (mk_config e), eos = kEosToken, n_ctx_seq = mc_n_ctx (mk_config e)\<rparr>"

definition mock_tokenize :: "MockModelEngine \<Rightarrow> string \<Rightarrow> bool \<Rightarrow> Token list" where
  "mock_tokenize e txt add_special =
     (if add_special then [kBosToken] else []) @ map byte_token txt"

definition mock_piece :: "MockModelEngine \<Rightarrow> Token \<Rightarrow> string" where
  "mock_piece e token =
     (if token = kEosToken \<or> token = kBosToken then []
      else if token \<ge> 0 \<and> token \<le> 255 then [char_of (nat token)]
      else [])"

definition mock_begin_sequence ::
  "MockModelEngine \<Rightarrow> SeqId \<Rightarrow> SamplingParams \<Rightarrow> string option \<times> MockModelEngine" where
  "mock_begin_sequence e seq p =
     (None, e\<lparr>mk_sequences := AList.update seq SeqState_default (mk_sequences e)\<rparr>)"

definition mock_response :: "MockModelEngine \<Rightarrow> SeqState \<Rightarrow> Token list" where
  "mock_response e st =
     (if mc_echo_prompt (mk_config e) then filter (\<lambda>t. t \<noteq> kBosToken) (ss_prefilled st)
      else mk_response_tokens e)"

text \<open>One pass of the loop of \<open>decode\<close>: the steps of the item, and the new state.\<close>

definition mock_decode_item ::
  "MockModelEngine \<Rightarrow> BatchItem \<Rightarrow> (string + GenStep list) \<times> MockModelEngine" where
  "mock_decode_item e item =
     (case map_of (mk_sequences e) (it_seq item) of
        None \<Rightarrow> (Inl ''MockModelEngine::decode on a sequence without begin_sequence'', e)
      | Some st \<Rightarrow>
          let e1 = (if ss_gen_index st = 0
                    then e\<lparr>mk_tokens_prefilled := u64 (mk_tokens_prefilled e + length (it_tokens item))\<rparr>
                    else e);
              st1 = (if mc_echo_prompt (mk_config e) \<and> ss_gen_index st = 0
                     then st\<lparr>ss_prefilled := ss_prefilled st @ it_tokens item\<rparr> else st)
          in if \<not> it_sample item
             then (Inr [], e1\<lparr>mk_sequences := AList.update (it_seq item) st1 (mk_sequences e1)\<rparr>)
             else let response = mock_response e1 st1 in
               if ss_gen_index st1 < length response
               then (Inr [\<lparr>gs_seq = it_seq item, gs_token = response ! ss_gen_index st1, gs_is_eog = False\<rparr>],
                     e1\<lparr>mk_sequences := AList.update (it_seq item)
                          (st1\<lparr>ss_gen_index := Suc (ss_gen_index st1)\<rparr>) (mk_sequences e1)\<rparr>)
               else (Inr [\<lparr>gs_seq = it_seq item, gs_token = kEosToken, gs_is_eog = True\<rparr>],
                     e1\<lparr>mk_sequences := AList.update (it_seq item) st1 (mk_sequences e1)\<rparr>))"

fun mock_decode ::
  "MockModelEngine \<Rightarrow> BatchItem list \<Rightarrow> (string + GenStep list) \<times> MockModelEngine" where
  "mock_decode e [] = (Inr [], e)"
| "mock_decode e (item # batch) =
     (case mock_decode_item e item of
        (Inl err, e1) \<Rightarrow> (Inl err, e1)
      | (Inr steps, e1) \<Rightarrow>
          (case mock_decode e1 batch of
             (Inl err, e2) \<Rightarrow> (Inl err, e2)
           | (Inr rest, e2) \<Rightarrow> (Inr (steps @ rest), e2)))"

definition mock_release_sequence :: "MockModelEngine \<Rightarrow> SeqId \<Rightarrow> MockModelEngine" where
  "mock_release_sequence e seq = e\<lparr>mk_sequences := AList.delete seq (mk_sequences e)\<rparr>"

definition mock_copy_sequence ::
  "MockModelEngine \<Rightarrow> SeqId \<Rightarrow> SeqId \<Rightarrow> Pos \<Rightarrow> string option \<times> MockModelEngine" where
  "mock_copy_sequence e src dst n_tokens =
     (if n_tokens \<le> 0 \<or> src = dst then (None, e)
      else case (map_of (mk_sequences e) src, map_of (mk_sequences e) dst) of
        (Some s, Some d) \<Rightarrow>
          let tk = min (nat n_tokens) (length (ss_prefilled s)) in
          (None, e\<lparr>mk_sequences := AList.update dst (d\<lparr>ss_prefilled := take tk (ss_prefilled s)\<rparr>) (mk_sequences e),
                   mk_tokens_copied := u64 (mk_tokens_copied e + tk)\<rparr>)
      | _ \<Rightarrow> (None, e))"

definition mock_engine :: "MockModelEngine IModelEngine" where
  "mock_engine =
     \<lparr>eg_caps = mock_caps, eg_tokenize = mock_tokenize, eg_piece = mock_piece,
      eg_begin_sequence = mock_begin_sequence, eg_decode = mock_decode,
      eg_release_sequence = mock_release_sequence, eg_copy_sequence = mock_copy_sequence\<rparr>"

lemma mock_engine_simps [simp]:
  "eg_caps mock_engine = mock_caps" "eg_tokenize mock_engine = mock_tokenize"
  "eg_piece mock_engine = mock_piece" "eg_begin_sequence mock_engine = mock_begin_sequence"
  "eg_decode mock_engine = mock_decode" "eg_release_sequence mock_engine = mock_release_sequence"
  "eg_copy_sequence mock_engine = mock_copy_sequence"
  by (simp_all add: mock_engine_def)

section \<open>Tokenisation\<close>

lemma of_char_less: "(of_char c :: nat) < 256"
  by (simp add: of_char_def)

lemma byte_token_range: "0 \<le> byte_token c \<and> byte_token c < 256"
proof -
  have "int (of_char c) < int 256" using of_char_less [of c] by (simp only: of_nat_less_iff)
  then show ?thesis by (simp add: byte_token_def)
qed

lemma piece_byte_token [simp]: "mock_piece e (byte_token c) = [c]"
proof -
  have "nat (byte_token c) = of_char c" by (simp add: byte_token_def)
  with byte_token_range [of c] show ?thesis by (simp add: mock_piece_def kEosToken_def kBosToken_def)
qed

lemma piece_control [simp]: "mock_piece e kEosToken = []" "mock_piece e kBosToken = []"
  by (simp_all add: mock_piece_def)

lemma byte_token_not_bos [simp]: "byte_token c \<noteq> kBosToken" "byte_token c \<noteq> kEosToken"
  using byte_token_range [of c] by (simp_all add: kBosToken_def kEosToken_def)

lemma mock_round_trip: "concat (map (mock_piece e) (mock_tokenize e' str special)) = str"
proof -
  have "concat (map (mock_piece e) (map byte_token str)) = str" by (induction str) simp_all
  then show ?thesis by (simp add: mock_tokenize_def)
qed

section \<open>The contract of the interface\<close>

definition mock_live :: "MockModelEngine \<Rightarrow> SeqId set" where
  "mock_live e = dom (map_of (mk_sequences e))"

lemma mock_decode_item_cases:
  obtains
    (missing) err where "map_of (mk_sequences e) (it_seq item) = None" "mock_decode_item e item = (Inl err, e)"
  | (fed) st st' steps e' where "map_of (mk_sequences e) (it_seq item) = Some st"
      "mock_decode_item e item = (Inr steps, e')"
      "map_of (mk_sequences e') = (map_of (mk_sequences e))(it_seq item \<mapsto> st')"
      "mk_config e' = mk_config e" "mk_response_tokens e' = mk_response_tokens e"
      "map gs_seq steps = (if it_sample item then [it_seq item] else [])"
proof (cases "map_of (mk_sequences e) (it_seq item)")
  case None
  with missing show ?thesis by (simp add: mock_decode_item_def)
next
  case (Some st)
  have "\<exists>steps e' st'. mock_decode_item e item = (Inr steps, e') \<and>
      map_of (mk_sequences e') = (map_of (mk_sequences e))(it_seq item \<mapsto> st') \<and>
      mk_config e' = mk_config e \<and> mk_response_tokens e' = mk_response_tokens e \<and>
      map gs_seq steps = (if it_sample item then [it_seq item] else [])"
    by (auto simp: mock_decode_item_def Some Let_def update_conv')
  with fed [OF Some] show ?thesis by blast
qed

lemma mock_decode_live: "mock_decode e items = (r, e') \<Longrightarrow> mock_live e' = mock_live e"
proof (induction items arbitrary: e r e')
  case Nil
  then show ?case by simp
next
  case (Cons item items)
  show ?case
  proof (cases rule: mock_decode_item_cases [where e = e and item = item])
    case missing
    with Cons.prems show ?thesis by simp
  next
    case (fed st st' steps e1)
    then have "mock_live e1 = mock_live e" by (auto simp: mock_live_def)
    with Cons.prems Cons.IH [of e1] fed(2) show ?thesis
      by (auto split: prod.splits sum.splits)
  qed
qed

lemma mock_decode_config:
  "mock_decode e items = (r, e') \<Longrightarrow>
    mk_config e' = mk_config e \<and> mk_response_tokens e' = mk_response_tokens e"
proof (induction items arbitrary: e r e')
  case Nil
  then show ?case by simp
next
  case (Cons item items)
  show ?case
  proof (cases rule: mock_decode_item_cases [where e = e and item = item])
    case missing
    with Cons.prems show ?thesis by simp
  next
    case (fed st st' steps e1)
    with Cons.prems Cons.IH [of e1] show ?thesis
      by (auto split: prod.splits sum.splits)
  qed
qed

lemma mock_decode_steps:
  "mock_decode e items = (Inr steps, e') \<Longrightarrow> map gs_seq steps = map it_seq (filter it_sample items)"
proof (induction items arbitrary: e steps)
  case Nil
  then show ?case by simp
next
  case (Cons item items)
  show ?case
  proof (cases rule: mock_decode_item_cases [where e = e and item = item])
    case missing
    with Cons.prems show ?thesis by simp
  next
    case (fed st st' steps1 e1)
    with Cons.prems Cons.IH [of e1] show ?thesis
      by (auto split: prod.splits sum.splits)
  qed
qed

lemma mock_copy_frame:
  "mock_copy_sequence e s d n = (x, e') \<Longrightarrow>
    x = None \<and> mock_live e' = mock_live e \<and> mk_config e' = mk_config e"
  by (auto simp: mock_copy_sequence_def mock_live_def Let_def update_conv' split: if_splits option.splits)

text \<open>A decode call succeeds exactly when every sequence it names is registered.\<close>

lemma mock_decode_ok:
  "it_seq ` set items \<subseteq> mock_live e \<longleftrightarrow> (\<exists>steps e'. mock_decode e items = (Inr steps, e'))"
proof (induction items arbitrary: e)
  case Nil
  then show ?case by simp
next
  case (Cons item items)
  show ?case
  proof (cases rule: mock_decode_item_cases [where e = e and item = item])
    case missing
    then show ?thesis by (auto simp: mock_live_def)
  next
    case (fed st st' steps1 e1)
    then have "mock_live e1 = mock_live e" by (auto simp: mock_live_def)
    moreover have "it_seq item \<in> mock_live e" using fed(1) by (auto simp: mock_live_def)
    ultimately show ?thesis using fed(2) Cons.IH [of e1]
      by (auto split: prod.splits sum.splits)
  qed
qed

lemma mock_live_simps [simp]:
  "mock_live (snd (mock_begin_sequence e s p)) = insert s (mock_live e)"
  "mock_live (mock_release_sequence e s) = mock_live e - {s}"
  by (auto simp: mock_begin_sequence_def mock_release_sequence_def mock_live_def update_conv' delete_conv')

interpretation mock: fixed_engine mock_engine mock_live
proof (unfold_locales, unfold mock_engine_simps)
  fix e s p e'
  show "mock_begin_sequence e s p = (None, e') \<Longrightarrow> mock_live e' = insert s (mock_live e)"
    using mock_live_simps(1) [of e s p] by simp
next
  fix e items r e'
  show "mock_decode e items = (r, e') \<Longrightarrow> mock_live e' = mock_live e" by (rule mock_decode_live)
next
  fix e items
  show "mock_caps (snd (mock_decode e items)) = mock_caps e"
    using mock_decode_config [of e items] by (cases "mock_decode e items") (simp add: mock_caps_def)
next
  fix e s d n
  show "fst (mock_copy_sequence e s d n) = None"
    using mock_copy_frame [of e s d n] by (cases "mock_copy_sequence e s d n") simp
next
  fix e s d n
  show "mock_caps (snd (mock_copy_sequence e s d n)) = mock_caps e"
    using mock_copy_frame [of e s d n] by (cases "mock_copy_sequence e s d n") (simp add: mock_caps_def)
next
  fix e s
  show "mock_caps (mock_release_sequence e s) = mock_caps e"
    by (simp add: mock_caps_def mock_release_sequence_def)
qed (auto simp: mock_caps_def mock_begin_sequence_def dest: mock_decode_steps mock_copy_frame)

end
