(* ===== verification/Mv_Generator.thy ===== *)
theory Mv_Generator
  imports Mv_SequenceState Mv_MockEngine
begin

text \<open>
  \<open>generate_one\<close> of \<open>src/core/generator.cpp\<close>: a batch of one, on any engine. The loop
  over tokens carries fuel; \<open>generate_one_terminates\<close> shows that one unit more than
  \<open>max_tokens\<close> is always enough. \<open>cxl n\<close> is the answer of \<open>sink.cancelled()\<close> at the
  \<open>n\<close>-th call of \<open>accept\<close>. The outcome carries the text of an exception that leaves the
  function, the sequence state and the engine.
\<close>

section \<open>The loop\<close>

definition first_step :: "string + GenStep list \<Rightarrow> string + GenStep" where
  "first_step r = (case r of Inl x \<Rightarrow> Inl x | Inr steps \<Rightarrow> at_step steps 0)"

primrec generate_loop ::
  "nat \<Rightarrow> 'e IModelEngine \<Rightarrow> (nat \<Rightarrow> bool) \<Rightarrow> 'e \<Rightarrow> nat \<Rightarrow> SequenceState \<Rightarrow> GenStep \<Rightarrow>
   (string option \<times> SequenceState \<times> 'e) option" where
  "generate_loop 0 E cxl e n st step = None"
| "generate_loop (Suc fuel) E cxl e n st step =
     (let (go, st1) = accept (eg_piece E e) (cxl n) st step in
      if \<not> go then Some (None, st1, e)
      else let (r, e1) = eg_decode E e [decode_item st1] in
        case first_step r of
          Inl x \<Rightarrow> Some (Some x, st1, e1)
        | Inr step1 \<Rightarrow> generate_loop fuel E cxl e1 (Suc n) st1 step1)"

definition generate_one ::
  "nat \<Rightarrow> 'e IModelEngine \<Rightarrow> (nat \<Rightarrow> bool) \<Rightarrow> 'e \<Rightarrow> SeqId \<Rightarrow> RequestSpec \<Rightarrow> sink_call list \<Rightarrow>
   (string option \<times> SequenceState \<times> 'e) option" where
  "generate_one fuel E cxl e seq spec sink =
     (let st = SequenceState_new seq spec sink (eg_tokenize E e (prompt spec) True);
          (err, e1) = eg_begin_sequence E e seq (sampling spec) in
      case err of
        Some x \<Rightarrow> Some (Some x, st, e1)
      | None \<Rightarrow>
          let (item, st1) = prefill_item st; (r, e2) = eg_decode E e1 [item] in
          case first_step r of
            Inl x \<Rightarrow> Some (Some x, st1, e2)
          | Inr step \<Rightarrow>
              (case generate_loop fuel E cxl e2 0 st1 step of
                 None \<Rightarrow> None
               | Some (Some x, st2, e3) \<Rightarrow> Some (Some x, st2, e3)
               | Some (None, st2, e3) \<Rightarrow> Some (None, finish st2, eg_release_sequence E e3 seq)))"

section \<open>Termination and outcome on any engine\<close>

lemma generate_loop_terminates:
  assumes "max_tokens (sq_spec st) < 4294967296"
    and "max_tokens (sq_spec st) < completion_tokens (sq_usage st) + fuel"
  shows "generate_loop fuel E cxl e n st step \<noteq> None \<or> completion_tokens (sq_usage st) > max_tokens (sq_spec st)"
  using assms
proof (induction fuel arbitrary: e n st step)
  case 0
  then show ?case by simp
next
  case (Suc fuel)
  obtain go st1 where a: "accept (eg_piece E e) (cxl n) st step = (go, st1)"
    by (cases "accept (eg_piece E e) (cxl n) st step")
  show ?case
  proof (cases go)
    case False
    with a show ?thesis by simp
  next
    case True
    with a have a: "accept (eg_piece E e) (cxl n) st step = (True, st1)" by simp
    have spec: "sq_spec st1 = sq_spec st" using accept_frame(2) [of "eg_piece E e" "cxl n" st step] a by simp
    note p = accept_progress [OF a Suc.prems(1)]
    have ih: "generate_loop fuel E cxl e' n' st1 step' \<noteq> None" for e' n' step'
      using Suc.IH [of st1 e' n' step'] Suc.prems p(1,2) by (simp add: spec)
    show ?thesis by (auto simp: a split: prod.splits sum.splits intro: ih [simplified])
  qed
qed

lemma generate_loop_inv:
  assumes "generate_loop fuel E cxl e n st step = Some (x, st', e')"
    and "seq_inv base st" and "\<not> sq_notified st"
  shows "seq_inv base st' \<and> \<not> sq_notified st' \<and> sq_spec st' = sq_spec st \<and> sq_prompt st' = sq_prompt st \<and>
    (x = None \<longrightarrow> sq_finished st')"
  using assms
proof (induction fuel arbitrary: e n st step x)
  case 0
  then show ?case by simp
next
  case (Suc fuel)
  obtain go st1 where a: "accept (eg_piece E e) (cxl n) st step = (go, st1)"
    by (cases "accept (eg_piece E e) (cxl n) st step")
  let ?acc = "accept (eg_piece E e) (cxl n) st step"
  have st1: "seq_inv base st1" "\<not> sq_notified st1" "sq_spec st1 = sq_spec st" "sq_prompt st1 = sq_prompt st"
    "go \<longleftrightarrow> \<not> sq_finished st1"
    using accept_inv [OF Suc.prems(2,3), of "eg_piece E e" "cxl n" step] accept_frame [of "eg_piece E e" "cxl n" st step]
      accept_finished [of "eg_piece E e" "cxl n" st step] Suc.prems(3) a by simp_all
  note IH = Suc.IH [OF _ st1(1,2), unfolded st1(3,4)]
  from Suc.prems(1) a st1 show ?case
    by (auto split: if_splits prod.splits sum.splits dest: IH)
qed

lemma prefill_item_inv:
  "seq_inv base st \<Longrightarrow> \<not> sq_notified st \<Longrightarrow>
    seq_inv base (snd (prefill_item st)) \<and> \<not> sq_notified (snd (prefill_item st)) \<and>
    sq_spec (snd (prefill_item st)) = sq_spec st \<and> sq_prompt (snd (prefill_item st)) = sq_prompt st"
  by (simp add: prefill_item_def take_prefill_chunk_inv)

lemma generate_one_outcome:
  assumes run: "generate_one fuel E cxl e seq spec sink = Some (None, st, e')"
    and "max_tokens spec < 4294967296"
  shows "seq_inv sink st \<and> sq_notified st \<and> sq_finished st \<and> sq_spec st = spec"
proof -
  let ?st0 = "SequenceState_new seq spec sink (eg_tokenize E e (prompt spec) True)"
  let ?st1 = "snd (prefill_item ?st0)"
  have st1: "seq_inv sink ?st1" "\<not> sq_notified ?st1" "sq_spec ?st1 = spec"
    using prefill_item_inv [OF seq_inv_new [OF assms(2)], of seq sink "eg_tokenize E e (prompt spec) True"]
    by (simp_all add: SequenceState_new_def)
  from run obtain e2 step st2 e3 where
    L: "generate_loop fuel E cxl e2 0 ?st1 step = Some (None, st2, e3)" and st: "st = finish st2"
    by (auto simp: generate_one_def Let_def split: prod.splits option.splits sum.splits)
  from generate_loop_inv [OF L st1(1,2)] st1(3) show ?thesis
    by (simp add: st finish_inv)
qed

section \<open>Positions in the KV cache\<close>

text \<open>An engine that also records every item submitted to \<open>decode\<close>.\<close>

definition logged :: "'e IModelEngine \<Rightarrow> ('e \<times> BatchItem list) IModelEngine" where
  "logged E =
     \<lparr>eg_caps = (\<lambda>(e, l). eg_caps E e), eg_tokenize = (\<lambda>(e, l). eg_tokenize E e),
      eg_piece = (\<lambda>(e, l). eg_piece E e),
      eg_begin_sequence = (\<lambda>(e, l) s p. let (x, e') = eg_begin_sequence E e s p in (x, e', l)),
      eg_decode = (\<lambda>(e, l) items. let (r, e') = eg_decode E e items in (r, e', l @ items)),
      eg_release_sequence = (\<lambda>(e, l) s. (eg_release_sequence E e s, l)),
      eg_copy_sequence = (\<lambda>(e, l) s d n. let (x, e') = eg_copy_sequence E e s d n in (x, e', l))\<rparr>"

definition next_pos :: "SequenceState \<Rightarrow> int" where
  "next_pos st = int (length (sq_prompt st)) + int (completion_tokens (sq_usage st))"

lemma generate_loop_positions:
  assumes "generate_loop fuel (logged E) cxl (e, l) n st step = Some (x, st', (e', l'))"
    and "seq_inv base st" and "\<not> sq_notified st"
    and "length (sq_prompt st) + max_tokens (sq_spec st) < 2147483648"
    and "contiguous 0 l" and "int (length (concat (map it_tokens l))) = next_pos st"
  shows "contiguous 0 l'"
  using assms
proof (induction fuel arbitrary: e l n st step)
  case 0
  then show ?case by simp
next
  case (Suc fuel)
  have piece: "eg_piece (logged E) (e, l) = eg_piece E e" by (simp add: logged_def)
  have dec: "eg_decode (logged E) (e, l) items = (fst (eg_decode E e items), snd (eg_decode E e items), l @ items)"
    for items by (simp add: logged_def split: prod.splits)
  obtain go st1 where a: "accept (eg_piece E e) (cxl n) st step = (go, st1)"
    by (cases "accept (eg_piece E e) (cxl n) st step")
  show ?case
  proof (cases go)
    case False
    with Suc.prems(1,5) show ?thesis by (simp add: a piece)
  next
    case True
    with a have a: "accept (eg_piece E e) (cxl n) st step = (True, st1)" by simp
    have st1: "seq_inv base st1" "\<not> sq_notified st1" "sq_spec st1 = sq_spec st" "sq_prompt st1 = sq_prompt st"
      using accept_inv [OF Suc.prems(2,3), of "eg_piece E e" "cxl n" step] a Suc.prems(3)
        accept_frame [of "eg_piece E e" "cxl n" st step] by simp_all
    have m: "max_tokens (sq_spec st) < 4294967296" using Suc.prems(4) by simp
    note p = accept_progress [OF a m]
    have pos: "feed_pos st1 = next_pos st"
      using Suc.prems(4) p(1,2) by (simp add: feed_pos_def next_pos_def st1 i32_id)
    have c: "contiguous 0 (l @ [decode_item st1])"
      using Suc.prems(5,6) pos by (simp add: contiguous_append decode_item_def)
    have len: "int (length (concat (map it_tokens (l @ [decode_item st1])))) = next_pos st1"
      using Suc.prems(6) p(1) by (simp add: decode_item_def next_pos_def st1)
    from Suc.prems(1) consider "l' = l @ [decode_item st1]"
      | e1 step1 where "generate_loop fuel (logged E) cxl (e1, l @ [decode_item st1]) (Suc n) st1 step1 = Some (x, st', (e', l'))"
      by (auto simp: a piece dec split: sum.splits)
    then show ?thesis
    proof cases
      case 1
      with c show ?thesis by simp
    next
      case 2
      from Suc.IH [OF 2 st1(1,2) _ c len] Suc.prems(4) show ?thesis by (simp add: st1)
    qed
  qed
qed

lemma generate_one_terminates:
  assumes "max_tokens spec < 4294967296" and "max_tokens spec < fuel"
  shows "\<exists>out. generate_one fuel E cxl e seq spec sink = Some out"
proof -
  let ?st0 = "SequenceState_new seq spec sink (eg_tokenize E e (prompt spec) True)"
  have L: "generate_loop fuel E cxl e2 0 (snd (prefill_item ?st0)) step \<noteq> None" for e2 step
    using generate_loop_terminates [of "snd (prefill_item ?st0)" fuel E cxl e2 0 step] assms
    by (simp add: prefill_item_def SequenceState_new_def Usage_default_def)
  have "generate_one fuel E cxl e seq spec sink \<noteq> None"
    using L by (auto simp: generate_one_def Let_def split_beta simp del: not_None_eq
        split: option.split sum.split)
  then show ?thesis by simp
qed

lemma prefill_item_whole:
  "it_tokens (fst (prefill_item (SequenceState_new seq spec sink toks))) = toks"
  "it_pos0 (fst (prefill_item (SequenceState_new seq spec sink toks))) = 0"
  "it_sample (fst (prefill_item (SequenceState_new seq spec sink toks)))"
  "it_seq (fst (prefill_item (SequenceState_new seq spec sink toks))) = seq"
  by (simp_all add: prefill_item_def take_prefill_chunk_item SequenceState_new_def prefill_remaining_def i32_id)

lemma generate_one_positions:
  assumes run: "generate_one fuel (logged E) cxl (e, []) seq spec sink = Some (x, st, (e', l))"
    and fit: "length (eg_tokenize E e (prompt spec) True) + max_tokens spec < 2147483648"
  shows "contiguous 0 l"
proof -
  let ?toks = "eg_tokenize E e (prompt spec) True"
  let ?st0 = "SequenceState_new seq spec sink ?toks"
  let ?it = "fst (prefill_item ?st0)" and ?st1 = "snd (prefill_item ?st0)"
  note item = prefill_item_whole [of seq spec sink ?toks]
  have st1: "seq_inv sink ?st1" "\<not> sq_notified ?st1" "sq_spec ?st1 = spec" "sq_prompt ?st1 = ?toks"
    using prefill_item_inv [OF seq_inv_new [of spec], of seq sink ?toks] fit
    by (simp_all add: SequenceState_new_def)
  have c: "contiguous 0 [?it]" using item by simp
  have len: "int (length (concat (map it_tokens [?it]))) = next_pos ?st1"
    using item st1(4) by (simp add: next_pos_def prefill_item_def SequenceState_new_def Usage_default_def)
  from run consider "l = []" | "l = [?it]"
    | e2 step st2 x2 where "generate_loop fuel (logged E) cxl (e2, [?it]) 0 ?st1 step = Some (x2, st2, (e', l))"
    | e2 e3 step st2 where "generate_loop fuel (logged E) cxl (e2, [?it]) 0 ?st1 step = Some (None, st2, (e3, l))"
    by (auto simp: generate_one_def logged_def Let_def split: prod.splits option.splits sum.splits)
  then show ?thesis
  proof cases
    case 3
    from generate_loop_positions [OF 3 st1(1,2) _ c len] fit st1(3,4) show ?thesis by simp
  next
    case 4
    from generate_loop_positions [OF 4 st1(1,2) _ c len] fit st1(3,4) show ?thesis by simp
  qed (use c in auto)
qed

section \<open>The response of the mock engine\<close>

text \<open>
  What is consumed of a model output: its characters one by one, up to and including the
  one that completes a stop string.
\<close>

fun consume_text :: "string \<Rightarrow> string \<Rightarrow> string list \<Rightarrow> string" where
  "consume_text t [] stops = t"
| "consume_text t (c # cs) stops =
     (if earliest_stop (t @ [c]) stops \<noteq> None then t @ [c] else consume_text (t @ [c]) cs stops)"

definition mock_step :: "SeqId \<Rightarrow> string \<Rightarrow> nat \<Rightarrow> GenStep" where
  "mock_step seq resp k =
     (if k < length resp then \<lparr>gs_seq = seq, gs_token = byte_token (resp ! k), gs_is_eog = False\<rparr>
      else \<lparr>gs_seq = seq, gs_token = kEosToken, gs_is_eog = True\<rparr>)"

definition mock_replays :: "string \<Rightarrow> MockModelEngine \<Rightarrow> bool" where
  "mock_replays resp e \<longleftrightarrow> mk_response_tokens e = map byte_token resp \<and> \<not> mc_echo_prompt (mk_config e)"

definition mock_at :: "SeqId \<Rightarrow> nat \<Rightarrow> MockModelEngine \<Rightarrow> bool" where
  "mock_at seq k e \<longleftrightarrow> (\<exists>ss. map_of (mk_sequences e) seq = Some ss \<and> ss_gen_index ss = k)"

lemma mock_decode_sample:
  assumes "mock_replays resp e" and "mock_at seq k e" and "k \<le> length resp"
    and "it_seq item = seq" and "it_sample item"
  shows "\<exists>e'. mock_decode e [item] = (Inr [mock_step seq resp k], e') \<and> mock_replays resp e' \<and>
    mock_at seq (min (Suc k) (length resp)) e'"
  using assms
  by (auto simp: mock_replays_def mock_at_def mock_decode_item_def mock_response_def mock_step_def Let_def update_conv')

lemma mock_loop:
  assumes "mock_replays resp e" and "mock_at seq (min (Suc k) (length resp)) e"
    and "k \<le> length resp" and "sq_seq st = seq" and "sq_text st = take k resp"
    and "completion_tokens (sq_usage st) = k" and "seq_inv base st" and "\<not> sq_finished st" and "\<not> sq_notified st"
    and "max_tokens (sq_spec st) < k + fuel"
  shows "\<exists>st' e'. generate_loop fuel mock_engine (\<lambda>_. False) e n st (mock_step seq resp k) = Some (None, st', e') \<and>
    sq_text st' = consume_text (take k resp) (drop k (take (max_tokens (sq_spec st)) resp)) (stop (sq_spec st)) \<and>
    sq_reason st' = (if earliest_stop (sq_text st') (stop (sq_spec st)) \<noteq> None then kStopString
      else if length resp \<le> max_tokens (sq_spec st) then kEos else kMaxTokens)"
  using assms
proof (induction fuel arbitrary: e n st k)
  case 0
  then show ?case by (simp add: seq_inv_def)
next
  case (Suc fuel)
  let ?m = "max_tokens (sq_spec st)" and ?stops = "stop (sq_spec st)" and ?step = "mock_step seq resp k"
  from Suc.prems(6,7) have km: "k \<le> ?m" "?m < 4294967296" by (simp_all add: seq_inv_def)
  have ns: "earliest_stop (take k resp) ?stops = None"
    using Suc.prems(5,7,8) by (simp add: seq_inv_def running_inv_def earliest_stop_None)
  have more: "drop k (take ?m resp) = resp ! k # drop (Suc k) (take ?m resp)"
    "take (Suc k) resp = take k resp @ [resp ! k]" if "k < length resp" "k < ?m"
    using that by (simp_all add: Cons_nth_drop_Suc [symmetric] take_Suc_conv_app_nth)
  have a: "generate_loop (Suc fuel) mock_engine (\<lambda>_. False) e n st ?step =
     (let (go, st1) = accept (mock_piece e) False st ?step in
      if \<not> go then Some (None, st1, e)
      else let (r, e1) = mock_decode e [decode_item st1] in
        case first_step r of
          Inl x \<Rightarrow> Some (Some x, st1, e1)
        | Inr step1 \<Rightarrow> generate_loop fuel mock_engine (\<lambda>_. False) e1 (Suc n) st1 step1)"
    by (simp only: generate_loop.simps mock_engine_simps)
  show ?case
  proof (cases rule: accept_cases [of st "mock_piece e" False ?step])
    case finished
    with Suc.prems(8) show ?thesis by simp
  next
    case eos
    then have "k = length resp" using Suc.prems(3) by (simp add: mock_step_def split: if_splits)
    with eos Suc.prems(5) km ns show ?thesis by (simp only: a) simp
  next
    case budget
    then have "k < length resp" "k = ?m" using km Suc.prems(6) by (simp_all add: mock_step_def split: if_splits)
    with budget Suc.prems(5) ns show ?thesis by (simp only: a) simp
  next
    case (stopped i)
    then have k: "k < length resp" "k < ?m" using Suc.prems(6) by (simp_all add: mock_step_def split: if_splits)
    with stopped Suc.prems(5) show ?thesis by (simp only: a) (simp add: more mock_step_def)
  next
    case cancelled
    then show ?thesis by simp
  next
    case continue
    then have k: "k < length resp" "k < ?m" using Suc.prems(6) by (simp_all add: mock_step_def split: if_splits)
    from continue obtain st1 where acc: "accept (mock_piece e) False st ?step = (True, st1)" by simp
    note p = accept_progress [OF acc km(2)]
    have st1: "sq_seq st1 = seq" "sq_spec st1 = sq_spec st" "\<not> sq_notified st1" "\<not> sq_finished st1"
      "sq_text st1 = take (Suc k) resp" "completion_tokens (sq_usage st1) = Suc k" "seq_inv base st1"
      using accept_frame [of "mock_piece e" False st ?step] accept_finished [of "mock_piece e" False st ?step]
        accept_inv [OF Suc.prems(7,9), of "mock_piece e" False ?step] Suc.prems(4-6,9) p(1,3) acc k
      by (simp_all add: mock_step_def more)
    obtain e1 where d: "mock_decode e [decode_item st1] = (Inr [mock_step seq resp (Suc k)], e1)"
      "mock_replays resp e1" "mock_at seq (min (Suc (Suc k)) (length resp)) e1"
      using mock_decode_sample [OF Suc.prems(1,2), of "decode_item st1"] st1(1) k(1)
      by (auto simp: decode_item_def min_absorb1)
    have ct: "consume_text (take k resp) (drop k (take ?m resp)) ?stops =
        consume_text (take (Suc k) resp) (drop (Suc k) (take ?m resp)) ?stops"
      using continue(5) k Suc.prems(5) by (simp add: more mock_step_def)
    have "generate_loop (Suc fuel) mock_engine (\<lambda>_. False) e n st ?step =
        generate_loop fuel mock_engine (\<lambda>_. False) e1 (Suc n) st1 (mock_step seq resp (Suc k))"
      by (simp only: a acc) (simp add: d(1) first_step_def at_step_def del: mock_decode.simps)
    with Suc.IH [OF d(2,3) _ st1(1,5,6,7,4,3), of "Suc n"] k(1) Suc.prems(10) show ?thesis
      by (simp only: ct st1(2))
  qed
qed

text \<open>
  The mock engine replays its configured response; \<open>generate_one\<close> delivers exactly the
  part of it that the token budget and the stop strings allow, with the right reason.
\<close>

lemma generate_one_mock:
  assumes "\<not> mc_echo_prompt config" and "max_tokens spec < 4294967296" and "max_tokens spec < fuel"
  shows "\<exists>st e'. generate_one fuel mock_engine (\<lambda>_. False) (MockModelEngine_new config) seq spec sink =
      Some (None, st, e') \<and>
    emitted_text st = response_spec (consume_text [] (take (max_tokens spec) (mc_response config)) (stop spec)) (stop spec) \<and>
    sq_reason st = (if earliest_stop (consume_text [] (take (max_tokens spec) (mc_response config)) (stop spec)) (stop spec) \<noteq> None
      then kStopString else if length (mc_response config) \<le> max_tokens spec then kEos else kMaxTokens) \<and>
    seq \<notin> mock_live e'"
proof -
  let ?e0 = "MockModelEngine_new config" and ?resp = "mc_response config"
  let ?toks = "mock_tokenize ?e0 (prompt spec) True"
  let ?st0 = "SequenceState_new seq spec sink ?toks"
  let ?e1 = "snd (mock_begin_sequence ?e0 seq (sampling spec))"
  let ?it = "fst (prefill_item ?st0)" and ?st1 = "snd (prefill_item ?st0)"
  have e1: "mock_replays ?resp ?e1" "mock_at seq 0 ?e1" "fst (mock_begin_sequence ?e0 seq (sampling spec)) = None"
    using assms(1)
    by (simp_all add: mock_replays_def mock_at_def mock_begin_sequence_def MockModelEngine_new_def SeqState_default_def update_conv')
  obtain e2 where d: "mock_decode ?e1 [?it] = (Inr [mock_step seq ?resp 0], e2)"
    "mock_replays ?resp e2" "mock_at seq (min (Suc 0) (length ?resp)) e2"
    using mock_decode_sample [OF e1(1,2), of ?it] prefill_item_whole(3,4) [of seq spec sink ?toks]
    by blast
  have st1: "sq_seq ?st1 = seq" "sq_spec ?st1 = spec" "sq_text ?st1 = take 0 ?resp"
    "completion_tokens (sq_usage ?st1) = 0" "seq_inv sink ?st1" "\<not> sq_finished ?st1" "\<not> sq_notified ?st1"
    using prefill_item_inv [OF seq_inv_new [OF assms(2)], of seq sink ?toks]
    by (simp_all add: prefill_item_def SequenceState_new_def Usage_default_def)
  from mock_loop [OF d(2,3) _ st1(1,3-7), of fuel 0] assms(3) st1(2)
  obtain st e3 where L: "generate_loop fuel mock_engine (\<lambda>_. False) e2 0 ?st1 (mock_step seq ?resp 0) = Some (None, st, e3)"
    and t: "sq_text st = consume_text [] (take (max_tokens spec) ?resp) (stop spec)"
    and r: "sq_reason st = (if earliest_stop (sq_text st) (stop spec) \<noteq> None then kStopString
      else if length ?resp \<le> max_tokens spec then kEos else kMaxTokens)"
    by auto
  from generate_loop_inv [OF L st1(5,7)] st1(2)
  have st: "seq_inv sink (finish st)" "sq_notified (finish st)" "sq_spec (finish st) = spec" by (simp_all add: finish_inv)
  have "sq_reason (finish st) \<notin> {kError, kContextOverflow}" using r by simp
  note resp = finished_response [OF st(1,2) this]
  have "generate_one fuel mock_engine (\<lambda>_. False) ?e0 seq spec sink =
      Some (None, finish st, mock_release_sequence e3 seq)"
    using L d(1) e1(3)
    by (simp add: generate_one_def Let_def split_beta first_step_def at_step_def del: mock_decode.simps)
  with resp st(3) t r show ?thesis by simp
qed

end
