(* ===== verification/Mv_HttpApi.thy ===== *)
theory Mv_HttpApi
  imports Mv_RequestQueue
begin

text \<open>
  \<open>include/microvllm/http_api.hpp\<close> and \<open>src/http/http_api.cpp\<close>: decoding of a request body
  and encoding of the responses. The JSON library (nlohmann/json) is not part of the
  repository: its operations are the fields of a record \<open>json\<close> over an opaque value type
  \<open>'j\<close>. \<open>js_parse\<close> and \<open>js_dump\<close> may throw, with the exception's text on the left; \<open>dump\<close> does
  so for strings that are not valid UTF-8. \<open>BadRequest\<close> is the left side of the result of
  \<open>parse_generate_request\<close>.
\<close>

section \<open>The interface of the JSON library\<close>

record 'j json =
  js_parse :: "string \<Rightarrow> string + 'j"
  js_dump :: "'j \<Rightarrow> string + string"
  js_is_object :: "'j \<Rightarrow> bool"
  js_find :: "'j \<Rightarrow> string \<Rightarrow> 'j option"
  js_is_string :: "'j \<Rightarrow> bool"
  js_get_string :: "'j \<Rightarrow> string"
  js_is_number_unsigned :: "'j \<Rightarrow> bool"
  js_get_u32 :: "'j \<Rightarrow> nat"
  js_is_number :: "'j \<Rightarrow> bool"
  js_get_float :: "'j \<Rightarrow> rat"
  js_is_number_integer :: "'j \<Rightarrow> bool"
  js_get_i32 :: "'j \<Rightarrow> int"
  js_is_array :: "'j \<Rightarrow> bool"
  js_elems :: "'j \<Rightarrow> 'j list"
  js_string :: "string \<Rightarrow> 'j"
  js_uint :: "nat \<Rightarrow> 'j"
  js_double :: "rat \<Rightarrow> 'j"
  js_object :: "(string \<times> 'j) list \<Rightarrow> 'j"

section \<open>\<open>parse_generate_request\<close>\<close>

text \<open>
  One optional scalar: absent leaves the default, a wrong type is an error. The source
  writes this out for each of the five scalars.
\<close>

definition optional_field ::
  "'j json \<Rightarrow> 'j \<Rightarrow> string \<Rightarrow> ('j \<Rightarrow> bool) \<Rightarrow> string \<Rightarrow> ('j \<Rightarrow> RequestSpec \<Rightarrow> RequestSpec) \<Rightarrow>
   RequestSpec \<Rightarrow> string + RequestSpec" where
  "optional_field J j key ok message assign spec =
     (case js_find J j key of
        None \<Rightarrow> Inr spec
      | Some v \<Rightarrow> if \<not> ok v then Inl message else Inr (assign v spec))"

fun and_then :: "'x + 'a \<Rightarrow> ('a \<Rightarrow> 'x + 'b) \<Rightarrow> 'x + 'b" where
  "and_then (Inl x) f = Inl x"
| "and_then (Inr a) f = f a"

fun push_stops :: "'j json \<Rightarrow> 'j list \<Rightarrow> RequestSpec \<Rightarrow> string + RequestSpec" where
  "push_stops J [] spec = Inr spec"
| "push_stops J (elem # elems) spec =
     (if \<not> js_is_string J elem then Inl ''\"stop\" array must contain only strings''
      else push_stops J elems (spec\<lparr>stop := stop spec @ [js_get_string J elem]\<rparr>))"

definition parse_stop :: "'j json \<Rightarrow> 'j \<Rightarrow> RequestSpec \<Rightarrow> string + RequestSpec" where
  "parse_stop J j spec =
     (case js_find J j ''stop'' of
        None \<Rightarrow> Inr spec
      | Some v \<Rightarrow>
          if js_is_string J v then Inr (spec\<lparr>stop := stop spec @ [js_get_string J v]\<rparr>)
          else if js_is_array J v then push_stops J (js_elems J v) spec
          else Inl ''\"stop\" must be a string or an array of strings'')"

definition parse_object :: "'j json \<Rightarrow> 'j \<Rightarrow> string + RequestSpec" where
  "parse_object J j =
     (if \<not> js_is_object J j then Inl ''request body must be a JSON object''
      else case js_find J j ''prompt'' of
        None \<Rightarrow> Inl ''\"prompt\" is required and must be a string''
      | Some p \<Rightarrow>
          if \<not> js_is_string J p then Inl ''\"prompt\" is required and must be a string''
          else
            and_then (optional_field J j ''max_tokens'' (js_is_number_unsigned J)
              ''\"max_tokens\" must be a non-negative integer''
              (\<lambda>v spec. spec\<lparr>max_tokens := js_get_u32 J v\<rparr>)
              (RequestSpec_default\<lparr>prompt := js_get_string J p\<rparr>)) (\<lambda>spec.
            and_then (optional_field J j ''temperature'' (js_is_number J)
              ''\"temperature\" must be a number''
              (\<lambda>v spec. spec\<lparr>sampling := (sampling spec)\<lparr>temperature := js_get_float J v\<rparr>\<rparr>) spec) (\<lambda>spec.
            and_then (optional_field J j ''top_p'' (js_is_number J)
              ''\"top_p\" must be a number''
              (\<lambda>v spec. spec\<lparr>sampling := (sampling spec)\<lparr>top_p := js_get_float J v\<rparr>\<rparr>) spec) (\<lambda>spec.
            and_then (optional_field J j ''top_k'' (js_is_number_integer J)
              ''\"top_k\" must be an integer''
              (\<lambda>v spec. spec\<lparr>sampling := (sampling spec)\<lparr>top_k := js_get_i32 J v\<rparr>\<rparr>) spec) (\<lambda>spec.
            and_then (optional_field J j ''seed'' (js_is_number_unsigned J)
              ''\"seed\" must be a non-negative integer''
              (\<lambda>v spec. spec\<lparr>sampling := (sampling spec)\<lparr>seed := js_get_u32 J v\<rparr>\<rparr>) spec) (\<lambda>spec.
            parse_stop J j spec))))))"

definition parse_generate_request :: "'j json \<Rightarrow> string \<Rightarrow> string + RequestSpec" where
  "parse_generate_request J body =
     (case js_parse J body of
        Inl what \<Rightarrow> Inl (''invalid JSON: '' @ what)
      | Inr j \<Rightarrow> parse_object J j)"

section \<open>Responses\<close>

definition usage_json :: "'j json \<Rightarrow> Usage \<Rightarrow> 'j" where
  "usage_json J usage =
     js_object J
       [(''prompt_tokens'', js_uint J (prompt_tokens usage)),
        (''completion_tokens'', js_uint J (completion_tokens usage)),
        (''total_tokens'', js_uint J (total_tokens usage))]"

definition make_generate_response :: "'j json \<Rightarrow> string \<Rightarrow> FinishReason \<Rightarrow> Usage \<Rightarrow> string + string" where
  "make_generate_response J text reason usage =
     js_dump J (js_object J
       [(''text'', js_string J text),
        (''finish_reason'', js_string J (to_string reason)),
        (''usage'', usage_json J usage)])"

definition make_error_response :: "'j json \<Rightarrow> string \<Rightarrow> string + string" where
  "make_error_response J message = js_dump J (js_object J [(''error'', js_string J message)])"

text \<open>\<open>std::round\<close>: to the nearest integer, halves away from zero.\<close>

definition std_round :: "rat \<Rightarrow> int" where
  "std_round x = (if x \<ge> 0 then \<lfloor>x + 1 / 2\<rfloor> else - \<lfloor>- x + 1 / 2\<rfloor>)"

definition round2 :: "rat \<Rightarrow> rat" where
  "round2 v = of_int (std_round (v * 100)) / 100"

definition make_request_log :: "'j json \<Rightarrow> RequestId \<Rightarrow> GenResult \<Rightarrow> string + string" where
  "make_request_log J i result =
     (let t = gr_timing result; n = completion_tokens (gr_usage result) in
      js_dump J (js_object J
        [(''event'', js_string J ''request_complete''),
         (''request_id'', js_uint J i),
         (''finish_reason'', js_string J (to_string (gr_reason result))),
         (''prompt_tokens'', js_uint J (prompt_tokens (gr_usage result))),
         (''completion_tokens'', js_uint J n),
         (''cached_prompt_tokens'', js_uint J (cached_prompt_tokens (gr_usage result))),
         (''queue_wait_ms'', js_double J (round2 (queue_wait_ms t))),
         (''ttft_ms'', js_double J (round2 (ttft_ms t))),
         (''tpot_ms'', js_double J (round2 (tpot_ms t n))),
         (''total_ms'', js_double J (round2 (total_ms t))),
         (''output_tokens_per_sec'', js_double J (round2 (output_tokens_per_sec t n)))]))"

definition make_stream_delta :: "'j json \<Rightarrow> string \<Rightarrow> string + string" where
  "make_stream_delta J delta = js_dump J (js_object J [(''text'', js_string J delta)])"

definition make_stream_done :: "'j json \<Rightarrow> FinishReason \<Rightarrow> Usage \<Rightarrow> string + string" where
  "make_stream_done J reason usage =
     js_dump J (js_object J
       [(''finish_reason'', js_string J (to_string reason)), (''usage'', usage_json J usage)])"

section \<open>A table of the checks\<close>

text \<open>
  What the decoder accepts, written as a table: the conditions that make a body bad, in
  the order in which they are reported. A body without any of them has the value that
  \<open>body_spec\<close> reads off its fields one by one.
\<close>

definition field_bad :: "'j json \<Rightarrow> 'j \<Rightarrow> string \<Rightarrow> ('j \<Rightarrow> bool) \<Rightarrow> bool" where
  "field_bad J j key ok \<longleftrightarrow> (case js_find J j key of None \<Rightarrow> False | Some v \<Rightarrow> \<not> ok v)"

definition body_checks :: "'j json \<Rightarrow> 'j \<Rightarrow> (bool \<times> string) list" where
  "body_checks J j =
     [(\<not> js_is_object J j, ''request body must be a JSON object''),
      (js_find J j ''prompt'' = None \<or> field_bad J j ''prompt'' (js_is_string J),
         ''\"prompt\" is required and must be a string''),
      (field_bad J j ''max_tokens'' (js_is_number_unsigned J), ''\"max_tokens\" must be a non-negative integer''),
      (field_bad J j ''temperature'' (js_is_number J), ''\"temperature\" must be a number''),
      (field_bad J j ''top_p'' (js_is_number J), ''\"top_p\" must be a number''),
      (field_bad J j ''top_k'' (js_is_number_integer J), ''\"top_k\" must be an integer''),
      (field_bad J j ''seed'' (js_is_number_unsigned J), ''\"seed\" must be a non-negative integer''),
      (field_bad J j ''stop'' (\<lambda>v. js_is_string J v \<or> js_is_array J v),
         ''\"stop\" must be a string or an array of strings''),
      (field_bad J j ''stop'' (\<lambda>v. js_is_string J v \<or> list_all (js_is_string J) (js_elems J v)),
         ''\"stop\" array must contain only strings'')]"

definition field_or :: "'j json \<Rightarrow> 'j \<Rightarrow> string \<Rightarrow> ('j \<Rightarrow> 'a) \<Rightarrow> 'a \<Rightarrow> 'a" where
  "field_or J j key get dflt = (case js_find J j key of None \<Rightarrow> dflt | Some v \<Rightarrow> get v)"

definition body_spec :: "'j json \<Rightarrow> 'j \<Rightarrow> RequestSpec" where
  "body_spec J j =
     \<lparr>prompt = field_or J j ''prompt'' (js_get_string J) [],
      stop = field_or J j ''stop''
        (\<lambda>v. if js_is_string J v then [js_get_string J v] else map (js_get_string J) (js_elems J v)) [],
      max_tokens = field_or J j ''max_tokens'' (js_get_u32 J) 128,
      sampling =
        \<lparr>temperature = field_or J j ''temperature'' (js_get_float J) (temperature SamplingParams_default),
         top_p = field_or J j ''top_p'' (js_get_float J) (top_p SamplingParams_default),
         top_k = field_or J j ''top_k'' (js_get_i32 J) (top_k SamplingParams_default),
         repeat_penalty = repeat_penalty SamplingParams_default,
         seed = field_or J j ''seed'' (js_get_u32 J) (seed SamplingParams_default)\<rparr>\<rparr>"

fun first_bad :: "(bool \<times> string) list \<Rightarrow> string option" where
  "first_bad [] = None"
| "first_bad ((bad, message) # rest) = (if bad then Some message else first_bad rest)"

lemma optional_field_bad:
  "optional_field J j key ok m assign spec =
     (if field_bad J j key ok then Inl m
      else Inr (case js_find J j key of None \<Rightarrow> spec | Some v \<Rightarrow> assign v spec))"
  by (simp add: optional_field_def field_bad_def split: option.splits)

lemma push_stops_eq:
  "push_stops J elems spec =
     (if list_all (js_is_string J) elems then Inr (spec\<lparr>stop := stop spec @ map (js_get_string J) elems\<rparr>)
      else Inl ''\"stop\" array must contain only strings'')"
  by (induction elems arbitrary: spec) simp_all

lemma parse_stop_eq:
  "parse_stop J j spec =
     (if field_bad J j ''stop'' (\<lambda>v. js_is_string J v \<or> js_is_array J v)
      then Inl ''\"stop\" must be a string or an array of strings''
      else if field_bad J j ''stop'' (\<lambda>v. js_is_string J v \<or> list_all (js_is_string J) (js_elems J v))
      then Inl ''\"stop\" array must contain only strings''
      else Inr (spec\<lparr>stop := stop spec @ field_or J j ''stop''
        (\<lambda>v. if js_is_string J v then [js_get_string J v] else map (js_get_string J) (js_elems J v)) []\<rparr>))"
  by (simp add: parse_stop_def field_bad_def field_or_def push_stops_eq split: option.splits)

lemma parse_object_checks:
  "parse_object J j = (case first_bad (body_checks J j) of Some m \<Rightarrow> Inl m | None \<Rightarrow> Inr (body_spec J j))"
proof (cases "\<not> js_is_object J j \<or> js_find J j ''prompt'' = None \<or> field_bad J j ''prompt'' (js_is_string J)")
  case True
  then show ?thesis by (auto simp: parse_object_def body_checks_def field_bad_def split: option.splits)
next
  case False
  then obtain p where p: "js_is_object J j" "js_find J j ''prompt'' = Some p" "js_is_string J p"
    by (auto simp: field_bad_def)
  then have pr: "\<not> field_bad J j ''prompt'' (js_is_string J)" by (simp add: field_bad_def)
  show ?thesis
    using p pr
    by (simp add: parse_object_def body_checks_def optional_field_bad parse_stop_eq)
       (simp add: body_spec_def field_or_def RequestSpec_default_def SamplingParams_default_def split: option.split)
qed

section \<open>What the callers rely on\<close>

text \<open>The conversions \<open>get<std::uint32_t>\<close> and \<open>get<std::int32_t>\<close> have values of their types.\<close>

definition json_ranges :: "'j json \<Rightarrow> bool" where
  "json_ranges J \<longleftrightarrow>
     (\<forall>v. js_get_u32 J v < 4294967296 \<and> - 2147483648 \<le> js_get_i32 J v \<and> js_get_i32 J v < 2147483648)"

definition spec_typed :: "RequestSpec \<Rightarrow> bool" where
  "spec_typed spec \<longleftrightarrow> max_tokens spec < 4294967296 \<and> seed (sampling spec) < 4294967296 \<and>
     - 2147483648 \<le> top_k (sampling spec) \<and> top_k (sampling spec) < 2147483648"

lemma body_spec_typed: "json_ranges J \<Longrightarrow> spec_typed (body_spec J j)"
  by (auto simp: json_ranges_def spec_typed_def body_spec_def field_or_def SamplingParams_default_def split: option.splits)

lemma parsed_spec:
  assumes "parse_generate_request J body = Inr spec"
  obtains j where "js_parse J body = Inr j" and "first_bad (body_checks J j) = None" and "spec = body_spec J j"
  using assms by (auto simp: parse_generate_request_def parse_object_checks split: sum.splits option.splits)

text \<open>
  What the library documents of its constructors and readers: \<open>parse\<close> reads back what
  \<open>dump\<close> wrote of strings, unsigned numbers and objects made of them, \<open>find\<close> finds the members
  of an object, the readers invert the constructors.
\<close>

inductive js_plain :: "'j json \<Rightarrow> 'j \<Rightarrow> bool" for J where
  js_plain_string: "js_plain J (js_string J s)"
| js_plain_uint: "n < 18446744073709551616 \<Longrightarrow> js_plain J (js_uint J n)"
| js_plain_object: "distinct (map fst kvs) \<Longrightarrow> \<forall>(k, v)\<in>set kvs. js_plain J v \<Longrightarrow> js_plain J (js_object J kvs)"

definition json_reads :: "'j json \<Rightarrow> bool" where
  "json_reads J \<longleftrightarrow>
     (\<forall>v b. js_plain J v \<longrightarrow> js_dump J v = Inr b \<longrightarrow> js_parse J b = Inr v) \<and>
     (\<forall>kvs k. distinct (map fst kvs) \<longrightarrow> js_find J (js_object J kvs) k = map_of kvs k) \<and>
     (\<forall>s. js_get_string J (js_string J s) = s) \<and>
     (\<forall>n<4294967296. js_get_u32 J (js_uint J n) = n)"

text \<open>The fields a client reads from the body of a response.\<close>

definition read_string :: "'j json \<Rightarrow> 'j \<Rightarrow> string \<Rightarrow> string option" where
  "read_string J j key = map_option (js_get_string J) (js_find J j key)"

definition read_u32 :: "'j json \<Rightarrow> 'j \<Rightarrow> string \<Rightarrow> nat option" where
  "read_u32 J j key = map_option (js_get_u32 J) (js_find J j key)"

lemma json_readsD:
  assumes "json_reads J"
  shows "js_dump J v = Inr b \<Longrightarrow> js_plain J v \<Longrightarrow> js_parse J b = Inr v"
    and "distinct (map fst kvs) \<Longrightarrow> js_find J (js_object J kvs) k = map_of kvs k"
    and "js_get_string J (js_string J s) = s" and "n < 4294967296 \<Longrightarrow> js_get_u32 J (js_uint J n) = n"
  using assms by (auto simp: json_reads_def)

text \<open>The counts of a response in the ranges of their types.\<close>

definition usage_typed :: "Usage \<Rightarrow> bool" where
  "usage_typed u \<longleftrightarrow> prompt_tokens u < 4294967296 \<and> completion_tokens u < 4294967296"

lemma total_tokens_less: "total_tokens u < 4294967296"
  by (simp add: total_tokens_def)

lemma usage_json_plain: "usage_typed u \<Longrightarrow> js_plain J (usage_json J u)"
  using total_tokens_less [of u] by (auto simp: usage_json_def usage_typed_def intro!: js_plain.intros)

lemma usage_json_reads:
  assumes "json_reads J" and "usage_typed u"
  shows "read_u32 J (usage_json J u) ''prompt_tokens'' = Some (prompt_tokens u)"
    and "read_u32 J (usage_json J u) ''completion_tokens'' = Some (completion_tokens u)"
    and "read_u32 J (usage_json J u) ''total_tokens'' = Some (total_tokens u)"
  using assms total_tokens_less [of u] by (simp_all add: read_u32_def usage_json_def json_readsD usage_typed_def)

lemma response_reads:
  assumes "json_reads J" and "usage_typed usage" and "make_generate_response J text reason usage = Inr body"
  obtains j where "js_parse J body = Inr j" and "read_string J j ''text'' = Some text"
    and "read_string J j ''finish_reason'' = Some (to_string reason)" and "js_find J j ''usage'' = Some (usage_json J usage)"
proof -
  let ?v = "js_object J [(''text'', js_string J text), (''finish_reason'', js_string J (to_string reason)), (''usage'', usage_json J usage)]"
  have "js_plain J ?v" using usage_json_plain [OF assms(2)] by (auto intro!: js_plain.intros)
  from json_readsD(1) [OF assms(1) assms(3) [unfolded make_generate_response_def] this] assms(1) that
  show thesis by (simp add: read_string_def json_readsD)
qed

section \<open>Rounding of the log\<close>

lemma std_round_close: "\<bar>of_int (std_round x) - x\<bar> \<le> 1 / 2"
proof -
  have near: "\<bar>of_int n - y\<bar> \<le> 1 / 2" if "n = \<lfloor>y + 1 / 2\<rfloor>" for n and y :: rat
  proof -
    have "of_int n \<le> y + 1 / 2" "y + 1 / 2 < of_int n + 1" using that by linarith+
    then show ?thesis unfolding abs_le_iff by linarith
  qed
  show ?thesis
  proof (cases "x \<ge> 0")
    case True
    with near [OF refl, of x] show ?thesis by (simp add: std_round_def)
  next
    case False
    then have "- std_round x = \<lfloor>- x + 1 / 2\<rfloor>" by (simp add: std_round_def)
    from near [OF this] show ?thesis unfolding abs_le_iff of_int_minus by linarith
  qed
qed

lemma round2_close: "\<bar>round2 v - v\<bar> \<le> 1 / 200"
  using std_round_close [of "v * 100"] unfolding round2_def abs_le_iff by linarith

end
