(* ===== verification/Mv_Server.thy ===== *)
theory Mv_Server
  imports Mv_HttpApi Mv_StaticInv
begin

text \<open>
  \<open>include/microvllm/server.hpp\<close> and \<open>src/http/server.cpp\<close>: the configuration, the four
  HTTP handlers and the start and end of \<open>serve\<close>. The HTTP library (httplib) is not part of
  the repository; a handler is a function from the request body and the readings it takes
  (clock, client connection, shutdown flag) to a response. An exception that leaves a
  handler is on the left of its result. The handlers share the queue and the id counter.
\<close>

section \<open>Configuration\<close>

record ServerConfig =
  sc_host :: string
  sc_port :: int
  sc_max_queue_depth :: nat
  sc_max_batch_size :: nat
  sc_mode :: BatchingMode
  sc_prefill_chunk :: nat
  sc_kv_blocks :: nat
  sc_block_size :: nat
  sc_prefix_caching :: bool
  sc_log_requests :: bool
  sc_prefix_donors :: nat

definition ServerConfig_default :: ServerConfig where
  "ServerConfig_default =
     \<lparr>sc_host = ''0.0.0.0'', sc_port = 8080, sc_max_queue_depth = 64, sc_max_batch_size = 8,
      sc_mode = kContinuous, sc_prefill_chunk = 128, sc_kv_blocks = 0, sc_block_size = 16,
      sc_prefix_caching = True, sc_log_requests = False, sc_prefix_donors = 4\<rparr>"

definition scheduler_config :: "ServerConfig \<Rightarrow> SchedulerConfig" where
  "scheduler_config config =
     \<lparr>cf_max_batch_size = sc_max_batch_size config, cf_mode = sc_mode config,
      cf_kv_blocks = sc_kv_blocks config, cf_block_size = sc_block_size config,
      cf_prefix_donors = sc_prefix_donors config, cf_prefix_caching = sc_prefix_caching config,
      cf_prefill_chunk = sc_prefill_chunk config\<rparr>"

section \<open>Responses\<close>

text \<open>A status that the handler leaves alone is set by the library.\<close>

record HttpResponse =
  hr_status :: "nat option"
  hr_body :: string
  hr_type :: string

definition kJson :: string where
  "kJson = ''application/json''"

definition json_response :: "nat option \<Rightarrow> string + string \<Rightarrow> string + HttpResponse" where
  "json_response status body =
     (case body of Inl x \<Rightarrow> Inl x | Inr b \<Rightarrow> Inr \<lparr>hr_status = status, hr_body = b, hr_type = kJson\<rparr>)"

definition health :: HttpResponse where
  "health = \<lparr>hr_status = None, hr_body = ''{\"status\":\"ok\"}'', hr_type = kJson\<rparr>"

section \<open>\<open>GET /metrics\<close>\<close>

definition nl :: string where
  "nl = [CHR 0x0A]"

text \<open>
  \<open>std::to_string(double)\<close> prints six decimals; a value halfway between two of them goes to
  the even one.
\<close>

definition round_even :: "rat \<Rightarrow> int" where
  "round_even x =
     (let n = \<lfloor>x\<rfloor>; r = x - of_int n in
      if r < 1 / 2 then n else if r > 1 / 2 then n + 1 else if even n then n else n + 1)"

definition pad6 :: "nat \<Rightarrow> string" where
  "pad6 k = replicate (6 - length (nat_str k)) (CHR ''0'') @ nat_str k"

definition double_str :: "rat \<Rightarrow> string" where
  "double_str x =
     (let n = nat (round_even (\<bar>x\<bar> * 1000000)) in
      (if x < 0 then ''-'' else []) @ nat_str (n div 1000000) @ ''.'' @ pad6 (n mod 1000000))"

definition counter :: "string \<Rightarrow> string \<Rightarrow> string \<Rightarrow> string \<Rightarrow> string" where
  "counter name help val out =
     out @ ''# HELP microvllm_'' @ name @ '' '' @ help @ nl @ ''# TYPE microvllm_'' @ name @
     '' counter'' @ nl @ ''microvllm_'' @ name @ '' '' @ val @ nl"

definition gauge :: "string \<Rightarrow> string \<Rightarrow> string \<Rightarrow> string \<Rightarrow> string" where
  "gauge name help val out =
     out @ ''# HELP microvllm_'' @ name @ '' '' @ help @ nl @ ''# TYPE microvllm_'' @ name @
     '' gauge'' @ nl @ ''microvllm_'' @ name @ '' '' @ val @ nl"

fun histogram_buckets :: "string \<Rightarrow> (rat \<times> nat) list \<Rightarrow> nat \<Rightarrow> string \<Rightarrow> string" where
  "histogram_buckets name [] running out = out"
| "histogram_buckets name ((bound, n) # rest) running out =
     (let running = u64 (running + n) in
      histogram_buckets name rest running
        (out @ ''microvllm_'' @ name @ ''_bucket{le=\"'' @ double_str (bound / 1000) @ ''\"} '' @ nat_str running @ nl))"

definition histogram :: "string \<Rightarrow> string \<Rightarrow> LatencyHistogram \<Rightarrow> string \<Rightarrow> string" where
  "histogram name help h out =
     (let out = out @ ''# HELP microvllm_'' @ name @ '' '' @ help @ nl @ ''# TYPE microvllm_'' @ name @
            '' histogram'' @ nl;
          out = histogram_buckets name (zip kBounds (lh_counts h)) 0 out
      in out @ ''microvllm_'' @ name @ ''_bucket{le=\"+Inf\"} '' @ nat_str (lh_count h) @ nl @
         ''microvllm_'' @ name @ ''_sum '' @ double_str (sum_seconds h) @ nl @
         ''microvllm_'' @ name @ ''_count '' @ nat_str (lh_count h) @ nl)"

definition kv_utilization :: "Stats \<Rightarrow> rat" where
  "kv_utilization s =
     (if sx_kv_blocks_total s = 0 then 0 else of_nat (sx_kv_blocks_used s) / of_nat (sx_kv_blocks_total s))"

definition metrics_text :: "Stats \<Rightarrow> LatencyHistogram \<Rightarrow> LatencyHistogram \<Rightarrow> nat \<Rightarrow> string" where
  "metrics_text s ttft e2e depth =
     (let out = [];
          out = counter ''requests_admitted_total'' ''Sequences admitted to the batch.'' (nat_str (sx_admitted s)) out;
          out = counter ''requests_completed_total'' ''Sequences run to completion.'' (nat_str (sx_completed s)) out;
          out = counter ''preemptions_total'' ''Sequences evicted to free KV cache and requeued.''
                  (nat_str (sx_preemptions s)) out;
          out = counter ''admissions_deferred_total'' ''Admissions delayed because the KV pool was full.''
                  (nat_str (sx_deferred s)) out;
          out = counter ''prefix_cache_hits_total'' ''Requests that inherited a cached prompt prefix.''
                  (nat_str (sx_prefix_hits s)) out;
          out = counter ''prefix_tokens_saved_total'' ''Prompt tokens not prefilled thanks to sharing.''
                  (nat_str (sx_prefix_tokens_saved s)) out;
          out = counter ''prefix_donors_retained_total'' ''Prompt prefixes kept past their request's retirement.''
                  (nat_str (sx_donors_retained s)) out;
          out = counter ''prefix_donor_evictions_total'' ''Retained prefixes dropped, by LRU or block pressure.''
                  (nat_str (sx_donor_evictions s)) out;
          out = gauge ''prefix_donors_held'' ''Donor slots currently holding a prefix.'' (nat_str (sx_donors_held s)) out;
          out = counter ''prompt_tokens_total'' ''Input tokens served.'' (nat_str (sx_prompt_tokens s)) out;
          out = counter ''completion_tokens_total'' ''Output tokens generated.'' (nat_str (sx_completion_tokens s)) out;
          out = histogram ''ttft_seconds'' ''Time from admission to first token.'' ttft out;
          out = histogram ''request_duration_seconds'' ''End-to-end request latency including queueing.'' e2e out;
          out = gauge ''queue_depth'' ''Requests waiting to be admitted.'' (nat_str depth) out;
          out = gauge ''kv_blocks_total'' ''KV-cache blocks in the pool.'' (nat_str (sx_kv_blocks_total s)) out;
          out = gauge ''kv_blocks_used'' ''KV-cache blocks currently allocated.'' (nat_str (sx_kv_blocks_used s)) out
      in gauge ''kv_utilization'' ''Fraction of the KV pool in use.'' (double_str (kv_utilization s)) out)"

text \<open>The handler reads the scheduler's counters and histograms and the depth of the queue.\<close>

definition metrics :: "('e, 'm) Scheduler_scheme \<Rightarrow> HttpResponse" where
  "metrics s =
     \<lparr>hr_status = None,
      hr_body = metrics_text (stats s) (sd_ttft_hist s) (sd_e2e_hist s) (queue_size (qw_queue (sd_queue s))),
      hr_type = ''text/plain; version=0.0.4''\<rparr>"

section \<open>\<open>POST /generate\<close>\<close>

record Server =
  sv_queue :: RequestQueue
  sv_next_id :: nat

definition new_request :: "nat \<Rightarrow> RequestSpec \<Rightarrow> TimePoint \<Rightarrow> sink_call list option \<Rightarrow> Request" where
  "new_request i spec now sink =
     \<lparr>rq_id = i, rq_spec = spec, rq_sink = sink, rq_timing = RequestTiming_default\<lparr>tm_enqueued := now\<rparr>\<rparr>"

text \<open>
  The part of a handler before it waits: the body is decoded, the request gets the next id
  and goes on the queue. Either the response is already known, or the request is waiting.
\<close>

datatype submitted = Refused "string + HttpResponse" | Submitted Request

definition submit ::
  "'j json \<Rightarrow> string \<Rightarrow> TimePoint \<Rightarrow> sink_call list option \<Rightarrow> Server \<Rightarrow> submitted \<times> Server" where
  "submit J body now sink s =
     (case parse_generate_request J body of
        Inl message \<Rightarrow> (Refused (json_response (Some 400) (make_error_response J message)), s)
      | Inr spec \<Rightarrow>
          let r = new_request (sv_next_id s) spec now sink;
              (ok, q) = try_push (sv_queue s) r;
              s1 = s\<lparr>sv_next_id := u64 (sv_next_id s + 1), sv_queue := q\<rparr>
          in if \<not> ok
             then (Refused (json_response (Some 503) (make_error_response J ''server at capacity; retry later'')), s1)
             else (Submitted r, s1))"

text \<open>
  The waiting loop: each time the future is not ready within 50 ms, the handler reads
  whether the client is gone or the server is shutting down, and sets the cancel flag.
\<close>

fun await_result :: "(bool \<times> bool) list \<Rightarrow> bool \<Rightarrow> bool" where
  "await_result [] cancel = cancel"
| "await_result ((gone, shutting_down) # polls) cancel =
     await_result polls (if gone \<or> shutting_down then True else cancel)"

definition generate_answer :: "'j json \<Rightarrow> GenResult \<Rightarrow> string + HttpResponse" where
  "generate_answer J result =
     (if gr_reason result = kContextOverflow then json_response (Some 400) (make_error_response J (gr_error result))
      else if gr_reason result = kError then json_response (Some 500) (make_error_response J (gr_error result))
      else json_response None (make_generate_response J (gr_text result) (gr_reason result) (gr_usage result)))"

text \<open>The rest of the handler: the log line, if any, and the response.\<close>

definition generate_finish ::
  "'j json \<Rightarrow> bool \<Rightarrow> RequestId \<Rightarrow> GenResult \<Rightarrow> string list \<times> (string + HttpResponse)" where
  "generate_finish J log_requests i result =
     (if log_requests
      then (case make_request_log J i result of
              Inl x \<Rightarrow> ([], Inl x)
            | Inr line \<Rightarrow> ([line @ nl], generate_answer J result))
      else ([], generate_answer J result))"

definition handle_generate ::
  "'j json \<Rightarrow> ServerConfig \<Rightarrow> string \<Rightarrow> TimePoint \<Rightarrow> (bool \<times> bool) list \<Rightarrow> (Request \<Rightarrow> GenResult) \<Rightarrow> Server \<Rightarrow>
   (string + HttpResponse) \<times> string list \<times> bool \<times> Server" where
  "handle_generate J config body now polls future s =
     (case submit J body now None s of
        (Refused res, s1) \<Rightarrow> (res, [], False, s1)
      | (Submitted r, s1) \<Rightarrow>
          let cancel = await_result polls False;
              (out, res) = generate_finish J (sc_log_requests config) (rq_id r) (future r)
          in (res, out, cancel, s1))"

section \<open>\<open>POST /generate/stream\<close>\<close>

record Stream =
  st_sink :: StreamingSink
  st_cancel :: bool
  st_written :: "string list"
  st_done :: bool

definition stream_tail :: "string \<Rightarrow> string" where
  "stream_tail body = ''data: '' @ body @ nl @ nl @ ''data: [DONE]'' @ nl @ nl"

definition stream_chunk :: "string \<Rightarrow> string" where
  "stream_chunk body = ''data: '' @ body @ nl @ nl"

text \<open>
  One call of the content provider, with the result of \<open>out.write\<close> and the reading of the
  shutdown flag: \<open>None\<close> while \<open>next\<close> waits for an event, \<open>Inl\<close> an exception, otherwise
  whether the library is to call again.
\<close>

definition provide :: "'j json \<Rightarrow> bool \<Rightarrow> bool \<Rightarrow> Stream \<Rightarrow> (string + (bool \<times> Stream)) option" where
  "provide J written shutting_down st =
     (case next_event (st_sink st) of
        None \<Rightarrow> None
      | Some (ev, q) \<Rightarrow>
          let st1 = st\<lparr>st_sink := q\<rparr> in
          if \<not> ev_terminal ev
          then (case make_stream_delta J (ev_text ev) of
                  Inl x \<Rightarrow> Some (Inl x)
                | Inr d \<Rightarrow>
                    if \<not> written then Some (Inr (False, st1\<lparr>st_cancel := True\<rparr>))
                    else
                      let st2 = st1\<lparr>st_written := st_written st1 @ [stream_chunk d]\<rparr> in
                      Some (Inr (True, if shutting_down then st2\<lparr>st_cancel := True\<rparr> else st2)))
          else (case (if ev_reason ev = kError then make_error_response J (ev_error ev)
                      else make_stream_done J (ev_reason ev) (ev_usage ev)) of
                  Inl x \<Rightarrow> Some (Inl x)
                | Inr body \<Rightarrow>
                    Some (Inr (False,
                      st1\<lparr>st_written := (if written then st_written st1 @ [stream_tail body] else st_written st1),
                          st_done := True\<rparr>))))"

text \<open>
  The handler: refused, or the request is on the queue and the stream of its sink begins.
\<close>

definition handle_stream ::
  "'j json \<Rightarrow> string \<Rightarrow> TimePoint \<Rightarrow> Server \<Rightarrow> ((string + HttpResponse) + (Request \<times> Stream)) \<times> Server" where
  "handle_stream J body now s =
     (case submit J body now (Some []) s of
        (Refused res, s1) \<Rightarrow> (Inl res, s1)
      | (Submitted r, s1) \<Rightarrow>
          (Inr (r, \<lparr>st_sink = [], st_cancel = False, st_written = [], st_done = False\<rparr>), s1))"

text \<open>The library calls the provider until it answers false.\<close>

fun provide_all :: "'j json \<Rightarrow> (bool \<times> bool) list \<Rightarrow> Stream \<Rightarrow> (string + Stream) option" where
  "provide_all J [] st = None"
| "provide_all J ((written, shutting_down) # rs) st =
     (case provide J written shutting_down st of
        None \<Rightarrow> None
      | Some (Inl x) \<Rightarrow> Some (Inl x)
      | Some (Inr (True, st1)) \<Rightarrow> provide_all J rs st1
      | Some (Inr (False, st1)) \<Rightarrow> Some (Inr st1))"

section \<open>\<open>serve\<close>\<close>

text \<open>
  What the handler threads do between two looks of the scheduler thread at the queue is a
  list of requests that arrive; each goes through \<open>submit\<close>, which matters to the scheduler
  only as an action on the queue.
\<close>

datatype http_event = PostGenerate string TimePoint | PostStream string TimePoint

fun event_body :: "http_event \<Rightarrow> string" where
  "event_body (PostGenerate body now) = body"
| "event_body (PostStream body now) = body"

fun event_request :: "http_event \<Rightarrow> nat \<Rightarrow> RequestSpec \<Rightarrow> Request" where
  "event_request (PostGenerate body now) i spec = new_request i spec now None"
| "event_request (PostStream body now) i spec = new_request i spec now (Some [])"

fun http_turn :: "'j json \<Rightarrow> nat \<Rightarrow> http_event list \<Rightarrow> queue_action list \<times> nat" where
  "http_turn J i [] = ([], i)"
| "http_turn J i (ev # evs) =
     (case parse_generate_request J (event_body ev) of
        Inl message \<Rightarrow> http_turn J i evs
      | Inr spec \<Rightarrow>
          let (acts, i') = http_turn J (u64 (i + 1)) evs in (TryPush (event_request ev i spec) # acts, i'))"

fun http_script :: "'j json \<Rightarrow> nat \<Rightarrow> http_event list list \<Rightarrow> queue_action list list" where
  "http_script J i [] = []"
| "http_script J i (evs # rest) =
     (let (acts, i') = http_turn J i evs in acts # http_script J i' rest)"

text \<open>
  The queue as \<open>serve\<close> sets it up, with the traffic of the whole life of the server: once
  \<open>listen\<close> returns no handler is left, and \<open>serve\<close> closes the queue.
\<close>

definition serve_world :: "'j json \<Rightarrow> ServerConfig \<Rightarrow> http_event list list \<Rightarrow> queue_world" where
  "serve_world J config traffic =
     \<lparr>qw_queue = RequestQueue_new (sc_max_queue_depth config),
      qw_script = http_script J 1 traffic @ [[Close]], qw_accepted = []\<rparr>"

text \<open>The worker thread of \<open>serve\<close>, from the construction of the scheduler to the join.\<close>

definition serve ::
  "'j json \<Rightarrow> ServerConfig \<Rightarrow> http_event list list \<Rightarrow> nat \<Rightarrow> nat \<Rightarrow> outer \<Rightarrow> 'e IModelEngine \<Rightarrow> 'e \<Rightarrow>
   'e Scheduler turn option" where
  "serve J config traffic n fuel X E e =
     run n fuel X E (Scheduler_new E e (serve_world J config traffic) (scheduler_config config))"

end
