(* ===== verification/Mv_ServerInv.thy ===== *)
theory Mv_ServerInv
  imports Mv_Server
begin

text \<open>
  What the server promises: ids are handed out once, the traffic it makes satisfies what
  the scheduler requires of a queue, every accepted request is answered once, the status
  of a response says what happened, and a stream is the text in pieces with one end marker.
\<close>

section \<open>The handlers as actions on the queue\<close>

definition event_submit :: "'j json \<Rightarrow> http_event \<Rightarrow> Server \<Rightarrow> submitted \<times> Server" where
  "event_submit J ev s =
     (case ev of PostGenerate body now \<Rightarrow> submit J body now None s | PostStream body now \<Rightarrow> submit J body now (Some []) s)"

lemma event_submit_action:
  assumes "qw_queue w = sv_queue s"
  shows "sv_queue (snd (event_submit J ev s)) = qw_queue (fold queue_act (fst (http_turn J (sv_next_id s) [ev])) w)"
    and "sv_next_id (snd (event_submit J ev s)) = snd (http_turn J (sv_next_id s) [ev])"
  using assms
  by (cases ev; simp add: event_submit_def submit_def Let_def split: sum.split prod.split)+

lemma http_turn_Cons:
  "http_turn J i (ev # evs) =
     (let (acts, i') = http_turn J i [ev]; (acts', i'') = http_turn J i' evs in (acts @ acts', i''))"
  by (simp add: Let_def split: sum.split prod.split)

declare http_turn.simps(2) [simp del]

text \<open>The queue after a series of handlers is the queue after the actions of the turn.\<close>

lemma http_turn_refines:
  assumes "qw_queue w = sv_queue s"
  shows "sv_queue (fold (\<lambda>ev s. snd (event_submit J ev s)) evs s) =
      qw_queue (fold queue_act (fst (http_turn J (sv_next_id s) evs)) w) \<and>
    sv_next_id (fold (\<lambda>ev s. snd (event_submit J ev s)) evs s) = snd (http_turn J (sv_next_id s) evs)"
  using assms
proof (induction evs arbitrary: s w)
  case Nil
  then show ?case by simp
next
  case (Cons ev evs)
  note one = event_submit_action [OF Cons.prems, of J ev]
  from Cons.IH [OF one(1) [symmetric]] one(2) show ?case
    by (simp add: http_turn_Cons [of J _ ev evs] Let_def split_beta)
qed

section \<open>Ids\<close>

lemma http_turn_ids:
  "http_turn J i evs = (acts, i') \<Longrightarrow> i + length evs < 18446744073709551616 \<Longrightarrow>
    map rq_id (pushed acts) = [i..<i'] \<and> i \<le> i' \<and> i' \<le> i + length evs"
proof (induction evs arbitrary: i acts i')
  case Nil
  then show ?case by simp
next
  case (Cons ev evs)
  show ?case
  proof (cases "parse_generate_request J (event_body ev)")
    case (Inl m)
    with Cons.prems have "http_turn J i evs = (acts, i')" by (simp add: http_turn.simps)
    from Cons.IH [OF this] Cons.prems(2) show ?thesis by simp
  next
    case (Inr spec)
    have u: "u64 (i + 1) = i + 1" using Cons.prems(2) by (simp add: u64_id)
    obtain acts1 where t: "http_turn J (i + 1) evs = (acts1, i')" and a: "acts = TryPush (event_request ev i spec) # acts1"
      using Cons.prems(1) Inr u by (auto simp: http_turn.simps Let_def split: prod.splits)
    have "rq_id (event_request ev i spec) = i" by (cases ev) (simp_all add: new_request_def)
    with Cons.IH [OF t] Cons.prems(2) show ?thesis by (simp add: a upt_conv_Cons)
  qed
qed

lemma http_script_ids:
  "i + length (concat traffic) < 18446744073709551616 \<Longrightarrow>
    \<exists>k. map rq_id (pushed (concat (http_script J i traffic))) = [i..<i + k] \<and> k \<le> length (concat traffic)"
proof (induction traffic arbitrary: i)
  case Nil
  then show ?case by (intro exI [of _ 0]) simp
next
  case (Cons evs traffic)
  obtain acts i' where t: "http_turn J i evs = (acts, i')" by fastforce
  note T = http_turn_ids [OF t]
  have i': "map rq_id (pushed acts) = [i..<i']" "i \<le> i'" "i' \<le> i + length evs" using T Cons.prems by simp_all
  obtain k where k: "map rq_id (pushed (concat (http_script J i' traffic))) = [i'..<i' + k]" "k \<le> length (concat traffic)"
    using Cons.IH [of i'] Cons.prems i' by auto
  have "[i..<i'] @ [i'..<i' + k] = [i..<i + (i' - i + k)]" using i' upt_add_eq_append [of i i' k] by simp
  then have "map rq_id (pushed (concat (http_script J i (evs # traffic)))) = [i..<i + (i' - i + k)]"
    using i' k by (simp add: t)
  with i' k show ?case by (intro exI [of _ "i' - i + k"]) simp
qed

section \<open>The traffic meets the requirements of the scheduler\<close>

lemma event_request_ok: "spec_typed spec \<Longrightarrow> request_ok (event_request ev i spec)"
  by (cases ev) (simp_all add: new_request_def request_ok_def spec_typed_def)

lemma parsed_typed: "json_ranges J \<Longrightarrow> parse_generate_request J body = Inr spec \<Longrightarrow> spec_typed spec"
  using body_spec_typed by (auto elim!: parsed_spec)

lemma http_turn_ok: "json_ranges J \<Longrightarrow> list_all action_ok (fst (http_turn J i evs))"
proof (induction evs arbitrary: i)
  case Nil
  then show ?case by simp
next
  case (Cons ev evs)
  show ?case
  proof (cases "parse_generate_request J (event_body ev)")
    case (Inl m)
    with Cons show ?thesis by (simp add: http_turn.simps)
  next
    case (Inr spec)
    from Cons.IH [OF Cons.prems, of "u64 (i + 1)"] event_request_ok [OF parsed_typed [OF Cons.prems Inr]] Inr show ?thesis
      by (simp add: http_turn.simps split_beta)
  qed
qed

lemma serve_world_start: "json_ranges J \<Longrightarrow> world_start (serve_world J config traffic)"
proof -
  assume J: "json_ranges J"
  have "list_all (list_all action_ok) (http_script J i traffic)" for i
    by (induction traffic arbitrary: i) (simp_all add: Let_def split_beta http_turn_ok [OF J])
  then show ?thesis by (simp add: world_start_def world_all_def serve_world_def RequestQueue_new_def)
qed

lemma serve_world_closes: "closes (serve_world J config traffic)"
  by (simp add: closes_def serve_world_def)

lemma http_turn_pushes: "length (filter is_push (fst (http_turn J i evs))) \<le> length evs"
proof (induction evs arbitrary: i)
  case Nil
  then show ?case by simp
next
  case (Cons ev evs)
  from Cons [of i] Cons [of "u64 (i + 1)"] show ?case
    by (simp add: http_turn.simps split_beta split: sum.split)
qed

lemma serve_world_work: "work (serve_world J config traffic) \<le> length (concat traffic)"
proof -
  have "length (filter is_push (concat (http_script J i traffic))) \<le> length (concat traffic)" for i
  proof (induction traffic arbitrary: i)
    case Nil
    then show ?case by simp
  next
    case (Cons evs traffic)
    from Cons [of "snd (http_turn J i evs)"] http_turn_pushes [of J i evs] show ?case by (simp add: Let_def split_beta)
  qed
  then show ?thesis by (simp add: work_def serve_world_def RequestQueue_new_def)
qed

lemma Scheduler_new_mode [simp]: "cf_mode (sd_config (Scheduler_new E e w config)) = cf_mode config"
  by (simp add: Scheduler_new_def clamp_batch_def Let_def)

text \<open>
  At the return of the worker every accepted request has one answer and every answer
  belongs to an accepted request, by id.
\<close>

lemma serve_answered:
  assumes "json_ranges J" and "config_ok (eg_caps E e) (scheduler_config config)"
    and "length (concat traffic) < 18446744073709551615"
    and "serve J config traffic n fuel X E e = Some (Returns s)"
  shows "distinct (map (rq_id \<circ> fst) (sd_fulfilled s)) \<and>
    set (map (rq_id \<circ> fst) (sd_fulfilled s)) = set (map rq_id (qw_accepted (sd_queue s))) \<and>
    list_all delivered_ok (sd_fulfilled s)"
proof -
  let ?w = "serve_world J config traffic"
  note R = run_returned [OF assms(2) serve_world_start [OF assms(1)] assms(4) [unfolded serve_def]]
  obtain k where "map rq_id (pushed (concat (http_script J 1 traffic))) = [1..<1 + k]"
    using http_script_ids [of 1 traffic J] assms(3) by auto
  then have w: "map rq_id (offered ?w) = [1..<1 + k]" by (simp add: offered_def serve_world_def)
  have "subseq (qw_accepted (sd_queue s)) (offered ?w)"
    using R(5) unfolding offered_def [of "sd_queue s"] by (rule subseq_order.trans [OF prefix_imp_subseq [OF prefixI [OF refl]]])
  then have "subseq (map rq_id (qw_accepted (sd_queue s))) [1..<1 + k]" unfolding w [symmetric] by (rule subseq_map)
  then have d: "distinct (map rq_id (qw_accepted (sd_queue s)))" by (rule subseq_distinct) simp
  have "mset (map fst (map ticket (qw_accepted (sd_queue s)))) = mset (map fst (map ticket (map fst (sd_fulfilled s))))"
    using R(3) unfolding tickets_def by (metis mset_map)
  then have m: "mset (map rq_id (qw_accepted (sd_queue s))) = mset (map (rq_id \<circ> fst) (sd_fulfilled s))"
    by (simp add: comp_def ticket_def del: mset_map)
  from d m have "distinct (map (rq_id \<circ> fst) (sd_fulfilled s))" by (metis mset_eq_imp_distinct_iff)
  with R(4) mset_eq_setD [OF m] show ?thesis by simp
qed

section \<open>The status of a response\<close>

text \<open>
  Every response is printed by \<open>dump\<close>; when that throws, the exception leaves the handler.
\<close>

definition answer_status :: "FinishReason \<Rightarrow> nat option" where
  "answer_status reason = (case reason of kContextOverflow \<Rightarrow> Some 400 | kError \<Rightarrow> Some 500 | _ \<Rightarrow> None)"

definition responds :: "'j json \<Rightarrow> nat option \<Rightarrow> string + HttpResponse \<Rightarrow> bool" where
  "responds J status r \<longleftrightarrow>
     (case r of Inr res \<Rightarrow> hr_status res = status | Inl x \<Rightarrow> (\<exists>v. js_dump J v = Inl x))"

lemma responds_json: "responds J st (json_response st (js_dump J v))"
  by (auto simp: responds_def json_response_def split: sum.splits)

lemma responds_error: "responds J st (json_response st (make_error_response J m))"
  unfolding make_error_response_def by (rule responds_json)

lemma responds_answer: "responds J (answer_status (gr_reason result)) (generate_answer J result)"
  by (cases "gr_reason result")
     (simp_all add: generate_answer_def answer_status_def responds_error make_generate_response_def responds_json)

lemma responds_finish: "responds J (answer_status (gr_reason result)) (snd (generate_finish J log_requests i result))"
proof (cases "\<exists>x. log_requests \<and> make_request_log J i result = Inl x")
  case True
  then obtain x where x: "log_requests" "make_request_log J i result = Inl x" by blast
  moreover from x(2) have "\<exists>v. js_dump J v = Inl x" unfolding make_request_log_def Let_def by blast
  ultimately show ?thesis by (simp add: generate_finish_def responds_def)
next
  case False
  with responds_answer [of J result] show ?thesis by (auto simp: generate_finish_def split: sum.splits)
qed

lemma handle_generate_status:
  "responds J
    (case parse_generate_request J body of
       Inl m \<Rightarrow> Some 400
     | Inr spec \<Rightarrow>
         if qu_closed (sv_queue s) \<or> length (qu_queue (sv_queue s)) \<ge> qu_capacity (sv_queue s) then Some 503
         else answer_status (gr_reason (future (new_request (sv_next_id s) spec now None))))
    (fst (handle_generate J config body now polls future s))"
proof (cases "parse_generate_request J body")
  case (Inl m)
  then show ?thesis by (simp add: handle_generate_def submit_def responds_error)
next
  case (Inr spec)
  let ?r = "new_request (sv_next_id s) spec now None"
  show ?thesis
  proof (cases "qu_closed (sv_queue s) \<or> length (qu_queue (sv_queue s)) \<ge> qu_capacity (sv_queue s)")
    case True
    with Inr show ?thesis
      by (auto simp: handle_generate_def submit_def try_push_def Let_def responds_error)
  next
    case False
    with Inr responds_finish [of J "future ?r" "sc_log_requests config" "rq_id ?r"] show ?thesis
      by (auto simp: handle_generate_def submit_def try_push_def Let_def split_beta)
  qed
qed

lemma await_result_cancels: "await_result polls c \<longleftrightarrow> c \<or> (\<exists>(gone, shutting)\<in>set polls. gone \<or> shutting)"
  by (induction polls c rule: await_result.induct) auto

section \<open>Streams\<close>

text \<open>
  The JSON body of each event, and the events of a response that can be printed: texts that
  are valid UTF-8, for the library used.
\<close>

fun event_json :: "'j json \<Rightarrow> sink_call \<Rightarrow> string + string" where
  "event_json J (OnText d) = make_stream_delta J d"
| "event_json J (OnFinish reason usage) =
     (if reason = kError then make_error_response J [] else make_stream_done J reason usage)"
| "event_json J (OnError m) = make_error_response J m"

definition printable :: "'j json \<Rightarrow> sink_call \<Rightarrow> bool" where
  "printable J c \<longleftrightarrow> (case event_json J c of Inl x \<Rightarrow> False | Inr b \<Rightarrow> True)"

definition delta_chunk :: "'j json \<Rightarrow> string \<Rightarrow> string" where
  "delta_chunk J t = stream_chunk (projr (make_stream_delta J t))"

lemma printable_Inr: "printable J c \<Longrightarrow> \<exists>b. event_json J c = Inr b"
  by (simp add: printable_def split: sum.splits)

lemma provide_delta:
  assumes "printable J (OnText d)" and "st_sink st = Event_default\<lparr>ev_text := d\<rparr> # q"
  shows "provide J True False st =
    Some (Inr (True, st\<lparr>st_sink := q, st_written := st_written st @ [delta_chunk J d]\<rparr>))"
  using printable_Inr [OF assms(1)] assms(2)
  by (auto simp: provide_def next_event_def Event_default_def delta_chunk_def Let_def)

lemma provide_final:
  assumes "printable J c" and "\<not> is_text c" and "st_sink st = streaming_call c []"
  shows "provide J True False st =
    Some (Inr (False, st\<lparr>st_sink := [], st_written := st_written st @ [stream_tail (projr (event_json J c))], st_done := True\<rparr>))"
  using printable_Inr [OF assms(1)] assms(2,3)
  by (cases c) (auto simp: provide_def next_event_def push_event_def Event_default_def Let_def)

lemma provide_texts:
  assumes "printable J c" and "\<not> is_text c"
  shows "list_all is_text ds \<Longrightarrow> list_all (printable J) ds \<Longrightarrow> length ds < n \<Longrightarrow> st_sink st = fold streaming_call (ds @ [c]) [] \<Longrightarrow>
    provide_all J (replicate n (True, False)) st =
      Some (Inr (st\<lparr>st_sink := [],
        st_written := st_written st @ map (delta_chunk J) (filter (\<lambda>d. d \<noteq> []) (map delta_of ds)) @
          [stream_tail (projr (event_json J c))], st_done := True\<rparr>))"
proof (induction ds arbitrary: n st)
  case Nil
  then obtain m where "n = Suc m" by (cases n) auto
  with Nil provide_final [OF assms, of st] show ?case by simp
next
  case (Cons d ds)
  then obtain m where n: "n = Suc m" "length ds < m" by (cases n) auto
  obtain t where t: "d = OnText t" using Cons.prems(1) by (cases d) auto
  show ?case
  proof (cases "t = []")
    case True
    with Cons.prems t have "st_sink st = fold streaming_call (ds @ [c]) []" by simp
    with Cons.IH [of n st] Cons.prems t True show ?thesis by simp
  next
    case False
    let ?q = "fold streaming_call (ds @ [c]) []"
    let ?st = "st\<lparr>st_sink := ?q, st_written := st_written st @ [delta_chunk J t]\<rparr>"
    have "st_sink st = Event_default\<lparr>ev_text := t\<rparr> # ?q"
      using Cons.prems(4) streaming_Cons [of d "ds @ [c]"] False by (simp add: t push_event_def)
    with Cons.prems(2) t have P: "provide J True False st = Some (Inr (True, ?st))" by (intro provide_delta) simp_all
    show ?thesis using Cons.IH [of m ?st] Cons.prems n P False by (simp add: t)
  qed
qed

text \<open>
  All writes succeeding, a complete response is streamed as its non-empty deltas in order,
  then one closing event and the end marker.
\<close>

lemma provide_complete:
  assumes "list_all (printable J) cs" and "protocol_complete cs" and "length cs \<le> n"
  shows "provide_all J (replicate n (True, False))
      \<lparr>st_sink = fold streaming_call cs [], st_cancel = False, st_written = [], st_done = False\<rparr> =
    Some (Inr \<lparr>st_sink = [], st_cancel = False,
      st_written = map (delta_chunk J) (filter (\<lambda>d. d \<noteq> []) (map delta_of (butlast cs))) @
        [stream_tail (projr (event_json J (last cs)))], st_done = True\<rparr>)"
proof -
  from assms(2) obtain ds c where cs: "cs = ds @ [c]" "list_all is_text ds" "\<not> is_text c"
    by (cases cs rule: rev_cases) (auto simp: protocol_complete_def)
  with provide_texts [OF _ cs(3,2), of J n] assms(1,3) show ?thesis by simp
qed

end
