(* ===== verification/Mv_Metrics.thy ===== *)
theory Mv_Metrics
  imports Mv_Server
begin

text \<open>
  The page of \<open>GET /metrics\<close> read back: what a scraper of the Prometheus text format sees of
  it is the list of the scheduler's values, each under a name of its own.
\<close>

section \<open>Reading the metrics page back\<close>

text \<open>A scraper splits the page into lines, skips the comments and cuts each line at its first space.\<close>

fun split_lines :: "string \<Rightarrow> string \<Rightarrow> string list" where
  "split_lines acc [] = (if acc = [] then [] else [acc])"
| "split_lines acc (c # s) = (if c = CHR 0x0A then acc # split_lines [] s else split_lines (acc @ [c]) s)"

definition sample :: "string \<Rightarrow> string \<times> string" where
  "sample l = (takeWhile (\<lambda>c. c \<noteq> CHR '' '') l, drop 1 (dropWhile (\<lambda>c. c \<noteq> CHR '' '') l))"

definition is_comment :: "string \<Rightarrow> bool" where
  "is_comment l \<longleftrightarrow> take 1 l = ''#''"

definition scrape :: "string \<Rightarrow> (string \<times> string) list" where
  "scrape page = map sample (filter (\<lambda>l. \<not> is_comment l) (split_lines [] page))"

definition metric_name :: "string \<Rightarrow> string" where
  "metric_name k = ''microvllm_'' @ k"

definition metric_line :: "string \<Rightarrow> string \<Rightarrow> string" where
  "metric_line k v = ''microvllm_'' @ k @ '' '' @ v"

definition to_page :: "string list \<Rightarrow> string" where
  "to_page ls = concat (map (\<lambda>l. l @ nl) ls)"

lemma to_page_simps [simp]: "to_page [] = []" "to_page (l # ls) = l @ nl @ to_page ls" "to_page (xs @ ys) = to_page xs @ to_page ys"
  by (simp_all add: to_page_def)

lemma split_lines_line: "CHR 0x0A \<notin> set l \<Longrightarrow> split_lines acc (l @ nl @ s) = (acc @ l) # split_lines [] s"
  by (induction l arbitrary: acc) (auto simp: nl_def)

lemma split_lines_page: "\<forall>l\<in>set ls. CHR 0x0A \<notin> set l \<Longrightarrow> split_lines [] (to_page ls) = ls"
  by (induction ls) (simp_all add: split_lines_line)

text \<open>Printed numbers hold neither spaces nor line ends.\<close>

lemma nat_str_plain: "CHR 0x0A \<notin> set (nat_str n)" "CHR '' '' \<notin> set (nat_str n)"
proof -
  have "(of_char c :: nat) \<ge> 48" if "c \<in> set (nat_str n)" for c
    using nat_str_digits [OF that] of_char_digit by auto
  from this [of "CHR 0x0A"] this [of "CHR '' ''"]
  show "CHR 0x0A \<notin> set (nat_str n)" "CHR '' '' \<notin> set (nat_str n)" by auto
qed


lemma double_str_plain: "CHR 0x0A \<notin> set (double_str x)" "CHR '' '' \<notin> set (double_str x)"
  using nat_str_plain by (auto simp: double_str_def Let_def pad6_def)

text \<open>The lines that each block of the page consists of, and what the scraper keeps of them.\<close>

definition block :: "string \<Rightarrow> string \<Rightarrow> string \<Rightarrow> (string \<times> string) list \<Rightarrow> string list" where
  "block kind name help samples =
     [''# HELP microvllm_'' @ name @ '' '' @ help, ''# TYPE microvllm_'' @ name @ '' '' @ kind] @
     map (\<lambda>(k, v). metric_line k v) samples"

definition plain :: "string \<Rightarrow> bool" where
  "plain s \<longleftrightarrow> CHR 0x0A \<notin> set s \<and> CHR '' '' \<notin> set s"

lemma counter_block: "counter name help v out = out @ to_page (block ''counter'' name help [(name, v)])"
  by (simp add: counter_def block_def metric_line_def)

lemma gauge_block: "gauge name help v out = out @ to_page (block ''gauge'' name help [(name, v)])"
  by (simp add: gauge_def block_def metric_line_def)

fun running :: "nat \<Rightarrow> nat list \<Rightarrow> nat list" where
  "running acc [] = []"
| "running acc (n # ns) = u64 (acc + n) # running (u64 (acc + n)) ns"

lemma running_cumulative:
  "i < length (lh_counts h) \<Longrightarrow> running 0 (lh_counts h) ! i = cumulative h i"
proof -
  have "i < length ns \<Longrightarrow> running acc ns ! i = fold (\<lambda>c acc. u64 (acc + c)) (take (Suc i) ns) acc" for acc ns
    by (induction ns arbitrary: acc i) (auto simp: nth_Cons split: nat.split)
  then show "i < length (lh_counts h) \<Longrightarrow> ?thesis" by (simp add: cumulative_def)
qed

definition bucket_key :: "string \<Rightarrow> string \<Rightarrow> string" where
  "bucket_key name le = name @ ''_bucket{le=\"'' @ le @ ''\"}''"

definition histogram_samples :: "string \<Rightarrow> LatencyHistogram \<Rightarrow> (string \<times> string) list" where
  "histogram_samples name h =
     map (\<lambda>(b, n). (bucket_key name (double_str (b / 1000)), nat_str n)) (zip kBounds (running 0 (lh_counts h))) @
     [(bucket_key name ''+Inf'', nat_str (lh_count h)), (name @ ''_sum'', double_str (sum_seconds h)),
      (name @ ''_count'', nat_str (lh_count h))]"

lemma histogram_buckets_lines:
  "histogram_buckets name (zip bs ns) acc out =
     out @ to_page (map (\<lambda>(b, n). metric_line (bucket_key name (double_str (b / 1000))) (nat_str n)) (zip bs (running acc ns)))"
proof (induction bs arbitrary: ns acc out)
  case Nil
  then show ?case by simp
next
  case (Cons b bs)
  then show ?case by (cases ns) (simp_all add: bucket_key_def metric_line_def Let_def)
qed

lemma histogram_block:
  "histogram name help h out = out @ to_page (block ''histogram'' name help (histogram_samples name h))"
  by (simp add: histogram_def block_def histogram_samples_def Let_def histogram_buckets_lines comp_def case_prod_unfold)
     (simp add: bucket_key_def metric_line_def)

lemma sample_cut: "CHR '' '' \<notin> set k \<Longrightarrow> sample (k @ '' '' @ v) = (k, v)"
  by (induction k) (auto simp: sample_def)

lemma sample_line: "plain k \<Longrightarrow> sample (metric_line k v) = (metric_name k, v)"
  using sample_cut [of "''microvllm_'' @ k" v] by (simp add: plain_def metric_line_def metric_name_def)

lemma comment_lines: "is_comment (''# HELP microvllm_'' @ s)" "is_comment (''# TYPE microvllm_'' @ s)" "\<not> is_comment (metric_line k v)"
  by (simp_all add: is_comment_def metric_line_def)

definition block_ok :: "string \<Rightarrow> string \<Rightarrow> string \<Rightarrow> (string \<times> string) list \<Rightarrow> bool" where
  "block_ok kind name help samples \<longleftrightarrow> plain name \<and> CHR 0x0A \<notin> set kind \<and> CHR 0x0A \<notin> set help \<and>
     list_all (\<lambda>(k, v). plain k \<and> CHR 0x0A \<notin> set v) samples"

lemma block_lines: "block_ok kind name help samples \<Longrightarrow> l \<in> set (block kind name help samples) \<Longrightarrow> CHR 0x0A \<notin> set l"
  by (auto simp: block_ok_def block_def metric_line_def plain_def list_all_iff)

lemma block_samples:
  assumes "block_ok kind name help samples"
  shows "map sample (filter (\<lambda>l. \<not> is_comment l) (block kind name help samples)) =
    map (\<lambda>(k, v). (metric_name k, v)) samples"
proof -
  have "list_all (\<lambda>(k, v). plain k \<and> CHR 0x0A \<notin> set v) samples" using assms by (simp add: block_ok_def)
  then have "map sample (filter (\<lambda>l. \<not> is_comment l) (map (\<lambda>(k, v). metric_line k v) samples)) =
      map (\<lambda>(k, v). (metric_name k, v)) samples"
    by (induction samples) (auto simp: comment_lines(3) sample_line)
  then show ?thesis unfolding block_def by (simp only: filter_append filter.simps comment_lines) simp
qed

definition block_of :: "string \<times> string \<times> string \<times> (string \<times> string) list \<Rightarrow> string list" where
  "block_of b = (case b of (kind, name, help, samples) \<Rightarrow> block kind name help samples)"

definition samples_of :: "string \<times> string \<times> string \<times> (string \<times> string) list \<Rightarrow> (string \<times> string) list" where
  "samples_of b = (case b of (kind, name, help, samples) \<Rightarrow> map (\<lambda>(k, v). (metric_name k, v)) samples)"

lemma scrape_blocks:
  assumes "list_all (\<lambda>(kind, name, help, samples). block_ok kind name help samples) bs"
  shows "scrape (to_page (concat (map block_of bs))) = concat (map samples_of bs)"
proof -
  have "\<forall>l\<in>set (concat (map block_of bs)). CHR 0x0A \<notin> set l"
    using assms block_lines by (fastforce simp: list_all_iff block_of_def)
  note split = split_lines_page [OF this]
  have "map sample (filter (\<lambda>l. \<not> is_comment l) (concat (map block_of bs))) = concat (map samples_of bs)"
    using assms by (induction bs) (auto simp: block_samples block_of_def samples_of_def)
  then show ?thesis by (simp add: scrape_def split)
qed

text \<open>The blocks of the page, in order.\<close>

definition metric_blocks ::
  "Stats \<Rightarrow> LatencyHistogram \<Rightarrow> LatencyHistogram \<Rightarrow> nat \<Rightarrow> (string \<times> string \<times> string \<times> (string \<times> string) list) list" where
  "metric_blocks s ttft e2e depth =
     (let c = \<lambda>name help v. (''counter'', name, help, [(name, v)]); g = \<lambda>name help v. (''gauge'', name, help, [(name, v)]) in
      [c ''requests_admitted_total'' ''Sequences admitted to the batch.'' (nat_str (sx_admitted s)),
       c ''requests_completed_total'' ''Sequences run to completion.'' (nat_str (sx_completed s)),
       c ''preemptions_total'' ''Sequences evicted to free KV cache and requeued.'' (nat_str (sx_preemptions s)),
       c ''admissions_deferred_total'' ''Admissions delayed because the KV pool was full.'' (nat_str (sx_deferred s)),
       c ''prefix_cache_hits_total'' ''Requests that inherited a cached prompt prefix.'' (nat_str (sx_prefix_hits s)),
       c ''prefix_tokens_saved_total'' ''Prompt tokens not prefilled thanks to sharing.'' (nat_str (sx_prefix_tokens_saved s)),
       c ''prefix_donors_retained_total'' ''Prompt prefixes kept past their request's retirement.''
         (nat_str (sx_donors_retained s)),
       c ''prefix_donor_evictions_total'' ''Retained prefixes dropped, by LRU or block pressure.''
         (nat_str (sx_donor_evictions s)),
       g ''prefix_donors_held'' ''Donor slots currently holding a prefix.'' (nat_str (sx_donors_held s)),
       c ''prompt_tokens_total'' ''Input tokens served.'' (nat_str (sx_prompt_tokens s)),
       c ''completion_tokens_total'' ''Output tokens generated.'' (nat_str (sx_completion_tokens s)),
       (''histogram'', ''ttft_seconds'', ''Time from admission to first token.'', histogram_samples ''ttft_seconds'' ttft),
       (''histogram'', ''request_duration_seconds'', ''End-to-end request latency including queueing.'',
         histogram_samples ''request_duration_seconds'' e2e),
       g ''queue_depth'' ''Requests waiting to be admitted.'' (nat_str depth),
       g ''kv_blocks_total'' ''KV-cache blocks in the pool.'' (nat_str (sx_kv_blocks_total s)),
       g ''kv_blocks_used'' ''KV-cache blocks currently allocated.'' (nat_str (sx_kv_blocks_used s)),
       g ''kv_utilization'' ''Fraction of the KV pool in use.'' (double_str (kv_utilization s))])"

lemma metrics_text_blocks: "metrics_text s ttft e2e depth = to_page (concat (map block_of (metric_blocks s ttft e2e depth)))"
  unfolding metrics_text_def metric_blocks_def Let_def counter_block gauge_block histogram_block
  by (simp only: block_of_def list.map prod.case concat.simps append_Nil append_Nil2 append_assoc to_page_simps)

lemma histogram_samples_ok:
  "plain name \<Longrightarrow> list_all (\<lambda>(k, v). plain k \<and> CHR 0x0A \<notin> set v) (histogram_samples name h)"
  using nat_str_plain double_str_plain
  by (auto simp: histogram_samples_def list_all_iff plain_def bucket_key_def)

lemma metric_blocks_ok:
  "list_all (\<lambda>(kind, name, help, samples). block_ok kind name help samples) (metric_blocks s ttft e2e depth)"
proof -
  have names: "plain ''ttft_seconds''" "plain ''request_duration_seconds''" by (simp_all add: plain_def)
  show ?thesis
    unfolding metric_blocks_def Let_def
    by (simp add: block_ok_def histogram_samples_ok [OF names(1)] histogram_samples_ok [OF names(2)])
       (simp add: plain_def nat_str_plain double_str_plain)
qed

lemma metrics_scraped: "scrape (metrics_text s ttft e2e depth) = concat (map samples_of (metric_blocks s ttft e2e depth))"
  unfolding metrics_text_blocks by (rule scrape_blocks [OF metric_blocks_ok])

text \<open>No two samples of the page have the same name.\<close>

definition histogram_keys :: "string \<Rightarrow> string list" where
  "histogram_keys name = map (\<lambda>b. bucket_key name (double_str (b / 1000))) kBounds @ [bucket_key name ''+Inf'', name @ ''_sum'', name @ ''_count'']"

lemma digit_chars:
  "digit_char 0 = CHR ''0''" "digit_char 1 = CHR ''1''" "digit_char (Suc 0) = CHR ''1''" "digit_char 2 = CHR ''2''" "digit_char 5 = CHR ''5''"
  by (simp_all add: digit_char_def char_of_def bit_Suc_0_iff)

lemma replicate_numerals: "replicate 2 c = [c, c]" "replicate 3 c = [c, c, c]" "replicate 4 c = [c, c, c, c]" "replicate 5 c = [c, c, c, c, c]"
  by (simp_all add: eval_nat_numeral)

lemma nat_strs:
  "nat_str 0 = ''0''" "nat_str 1 = ''1''" "nat_str 2 = ''2''" "nat_str 5 = ''5''" "nat_str 10 = ''10''" "nat_str 1000 = ''1000''"
  "nat_str 5000 = ''5000''" "nat_str 10000 = ''10000''" "nat_str 25000 = ''25000''" "nat_str 50000 = ''50000''"
  "nat_str 100000 = ''100000''" "nat_str 250000 = ''250000''" "nat_str 500000 = ''500000''"
  by (simp_all add: nat_str.simps digit_chars)

lemma double_strs:
  "double_str (1 / 1000) = ''0.001000''" "double_str (1 / 200) = ''0.005000''" "double_str (1 / 100) = ''0.010000''"
  "double_str (1 / 40) = ''0.025000''" "double_str (1 / 20) = ''0.050000''" "double_str (1 / 10) = ''0.100000''"
  "double_str (1 / 4) = ''0.250000''" "double_str (1 / 2) = ''0.500000''" "double_str 1 = ''1.000000''"
  "double_str (5 / 2) = ''2.500000''" "double_str 5 = ''5.000000''" "double_str 10 = ''10.000000''"
  by (simp_all add: double_str_def round_even_def pad6_def nat_strs nat_strs(2) [unfolded One_nat_def] replicate_numerals)

lemma bounds_printed:
  "map (\<lambda>b. double_str (b / 1000)) kBounds =
     [''0.001000'', ''0.005000'', ''0.010000'', ''0.025000'', ''0.050000'', ''0.100000'', ''0.250000'', ''0.500000'',
      ''1.000000'', ''2.500000'', ''5.000000'', ''10.000000'']"
  by (simp add: kBounds_def double_strs)

lemma histogram_keys_printed:
  "histogram_keys name = map (bucket_key name) (map (\<lambda>b. double_str (b / 1000)) kBounds @ [''+Inf'']) @ [name @ ''_sum'', name @ ''_count'']"
  by (simp add: histogram_keys_def)

lemma histogram_keys_distinct: "distinct (histogram_keys name)"
proof -
  have "distinct (map (bucket_key name) ls @ [name @ ''_sum'', name @ ''_count''])" if "distinct ls" for ls
  proof -
    have "inj_on (bucket_key name) (set ls)" by (simp add: inj_on_def bucket_key_def)
    moreover have "name @ ''_sum'' \<noteq> bucket_key name le" "name @ ''_count'' \<noteq> bucket_key name le" for le
      by (simp_all add: bucket_key_def)
    ultimately show ?thesis using that by (auto simp: distinct_map)
  qed
  moreover have "distinct (map (\<lambda>b. double_str (b / 1000)) kBounds @ [''+Inf''])" unfolding bounds_printed by simp
  ultimately show ?thesis unfolding histogram_keys_printed by blast
qed

text \<open>The names of the counters and gauges do not clash with each other or with a histogram.\<close>

definition plain_keys :: "string list" where
  "plain_keys =
     [''requests_admitted_total'', ''requests_completed_total'', ''preemptions_total'', ''admissions_deferred_total'',
      ''prefix_cache_hits_total'', ''prefix_tokens_saved_total'', ''prefix_donors_retained_total'',
      ''prefix_donor_evictions_total'', ''prefix_donors_held'', ''prompt_tokens_total'', ''completion_tokens_total'',
      ''queue_depth'', ''kv_blocks_total'', ''kv_blocks_used'', ''kv_utilization'']"

lemma plain_keys_distinct: "distinct plain_keys"
  unfolding plain_keys_def by code_simp

lemma histogram_keys_prefix: "k \<in> set (histogram_keys name) \<Longrightarrow> prefix (name @ ''_'') k"
  by (auto simp: histogram_keys_def bucket_key_def)

lemma plain_keys_prefix: "list_all (\<lambda>k. \<not> prefix ''ttft_seconds_'' k \<and> \<not> prefix ''request_duration_seconds_'' k) plain_keys"
  unfolding plain_keys_def by code_simp

definition metric_keys :: "string list" where
  "metric_keys =
     take 11 plain_keys @ histogram_keys ''ttft_seconds'' @ histogram_keys ''request_duration_seconds'' @ drop 11 plain_keys"

lemma metric_keys_distinct: "distinct metric_keys"
proof -
  let ?a = "take 11 plain_keys" and ?d = "drop 11 plain_keys"
  let ?h = "histogram_keys ''ttft_seconds''" and ?g = "histogram_keys ''request_duration_seconds''"
  have "distinct (?a @ ?d)" using plain_keys_distinct by simp
  moreover have "set (?a @ ?d) = set plain_keys" by simp
  moreover have "k \<notin> set ?h \<and> k \<notin> set ?g" if "k \<in> set plain_keys" for k
    using that plain_keys_prefix histogram_keys_prefix [of k "''ttft_seconds''"]
      histogram_keys_prefix [of k "''request_duration_seconds''"] by (auto simp: list_all_iff)
  moreover have "k \<notin> set ?g" if "k \<in> set ?h" for k
    using histogram_keys_prefix [OF that] histogram_keys_prefix [of k "''request_duration_seconds''"] by (cases k) auto
  ultimately show ?thesis
    unfolding metric_keys_def using histogram_keys_distinct unfolding distinct_append set_append by blast
qed

lemma length_running [simp]: "length (running acc ns) = length ns"
  by (induction ns arbitrary: acc) simp_all

lemma histogram_samples_keys:
  assumes "length (lh_counts h) = length kBounds"
  shows "map fst (histogram_samples name h) = histogram_keys name"
proof -
  have "map (\<lambda>x. f (fst x)) (zip xs ys) = map f xs" if "length ys = length xs" for f :: "rat \<Rightarrow> string" and xs and ys :: "nat list"
    using that map_fst_zip [of xs ys] by (simp flip: map_map [unfolded comp_def, of f fst])
  from this [of "running 0 (lh_counts h)" kBounds "\<lambda>b. bucket_key name (double_str (b / 1000))"] assms
  show ?thesis by (simp add: histogram_samples_def histogram_keys_def comp_def case_prod_unfold)
qed

lemma samples_of_keys: "map fst (samples_of (kind, name, help, samples)) = map metric_name (map fst samples)"
  by (simp add: samples_of_def comp_def case_prod_unfold)

lemma plain_keys_split:
  "take 11 plain_keys =
     [''requests_admitted_total'', ''requests_completed_total'', ''preemptions_total'', ''admissions_deferred_total'',
      ''prefix_cache_hits_total'', ''prefix_tokens_saved_total'', ''prefix_donors_retained_total'',
      ''prefix_donor_evictions_total'', ''prefix_donors_held'', ''prompt_tokens_total'', ''completion_tokens_total'']"
  "drop 11 plain_keys = [''queue_depth'', ''kv_blocks_total'', ''kv_blocks_used'', ''kv_utilization'']"
  by (simp_all add: plain_keys_def)

lemma metric_names:
  assumes "length (lh_counts ttft) = length kBounds" and "length (lh_counts e2e) = length kBounds"
  shows "map fst (concat (map samples_of (metric_blocks s ttft e2e depth))) = map metric_name metric_keys"
  unfolding metric_blocks_def metric_keys_def plain_keys_split Let_def
  by (simp only: list.map concat.simps map_append samples_of_keys histogram_samples_keys [OF assms(1)]
      histogram_samples_keys [OF assms(2)] fst_conv append_Nil append_Cons append_Nil2 append_assoc)

lemma metric_names_distinct: "distinct (map metric_name metric_keys)"
  using metric_keys_distinct by (simp add: distinct_map inj_on_def metric_name_def)

end
