(* ===== verification/Mv_LlamaEngine.thy ===== *)
theory Mv_LlamaEngine
  imports Mv_Engine "HOL-Library.AList"
begin

text \<open>
  \<open>LlamaModelEngine\<close> of \<open>include/microvllm/llama_engine.hpp\<close> and
  \<open>src/engine/llama_engine.cpp\<close>: the adapter between \<open>IModelEngine\<close> and llama.cpp. The
  library is not part of the repository, so its functions are the fields of a record
  \<open>llama\<close> over an opaque model \<open>'m\<close>, context \<open>'c\<close> (with its KV memory) and sampler chain
  \<open>'s\<close>; a caller's buffer is passed in and comes back as the call left it. What the adapter
  relies on is stated as predicates over that record.
\<close>

section \<open>The interface of the library\<close>

record llama_batch =
  lb_n_tokens :: nat
  lb_token :: "Token list"
  lb_pos :: "Pos list"
  lb_n_seq_id :: "int list"
  lb_seq_id :: "SeqId list"
  lb_logits :: "int list"

record llama_context_params =
  cp_n_ctx :: nat
  cp_n_batch :: nat
  cp_n_seq_max :: nat
  cp_n_threads :: int
  cp_n_threads_batch :: int
  cp_kv_unified :: bool

text \<open>The samplers that the adapter creates, by the call that creates them.\<close>

datatype llama_sampler =
    InitPenalties int rat rat rat
  | InitGreedy
  | InitTopK int
  | InitTopP rat nat
  | InitTemp rat
  | InitDist nat

record ('m, 'c, 's) llama =
  ll_model_load_from_file :: "string \<Rightarrow> int \<Rightarrow> 'm option"
  ll_init_from_model :: "'m \<Rightarrow> llama_context_params \<Rightarrow> 'c option"
  ll_batch_init :: "int \<Rightarrow> int \<Rightarrow> int \<Rightarrow> llama_batch"
  ll_n_ctx :: "'c \<Rightarrow> nat"
  ll_n_batch :: "'c \<Rightarrow> nat"
  ll_n_seq_max :: "'c \<Rightarrow> nat"
  ll_n_ctx_seq :: "'c \<Rightarrow> nat"
  ll_vocab_eos :: "'m \<Rightarrow> Token"
  ll_vocab_is_eog :: "'m \<Rightarrow> Token \<Rightarrow> bool"
  ll_tokenize :: "'m \<Rightarrow> string \<Rightarrow> int \<Rightarrow> Token list \<Rightarrow> int \<Rightarrow> bool \<Rightarrow> bool \<Rightarrow> int \<times> Token list"
  ll_token_to_piece :: "'m \<Rightarrow> Token \<Rightarrow> string \<Rightarrow> int \<Rightarrow> int \<Rightarrow> bool \<Rightarrow> int \<times> string"
  ll_stack_buffer :: string
  ll_default_seed :: nat
  ll_sampler_chain_init :: 's
  ll_sampler_chain_add :: "'s \<Rightarrow> llama_sampler \<Rightarrow> 's"
  ll_sampler_sample :: "'s \<Rightarrow> 'c \<Rightarrow> int \<Rightarrow> Token \<times> 's \<times> 'c"
  ll_decode :: "'c \<Rightarrow> llama_batch \<Rightarrow> int \<times> 'c"
  ll_memory_seq_rm :: "'c \<Rightarrow> SeqId \<Rightarrow> Pos \<Rightarrow> Pos \<Rightarrow> 'c"
  ll_memory_seq_cp :: "'c \<Rightarrow> SeqId \<Rightarrow> SeqId \<Rightarrow> Pos \<Rightarrow> Pos \<Rightarrow> 'c"

section \<open>State and construction\<close>

record LlamaEngineConfig =
  lc_model_path :: string
  lc_n_ctx :: nat
  lc_n_batch :: nat
  lc_n_seq_max :: nat
  lc_n_threads :: int
  lc_n_gpu_layers :: int
  lc_kv_unified :: bool

definition LlamaEngineConfig_default :: LlamaEngineConfig where
  "LlamaEngineConfig_default =
     \<lparr>lc_model_path = [], lc_n_ctx = 4096, lc_n_batch = 2048, lc_n_seq_max = 16, lc_n_threads = 8,
      lc_n_gpu_layers = 0, lc_kv_unified = True\<rparr>"

record ('m, 'c, 's) Impl =
  im_model :: 'm
  im_context :: 'c
  im_batch :: llama_batch
  im_eos :: Token
  im_n_batch :: nat
  im_samplers :: "(SeqId \<times> 's) list"

definition context_params :: "LlamaEngineConfig \<Rightarrow> llama_context_params" where
  "context_params cfg =
     \<lparr>cp_n_ctx = lc_n_ctx cfg, cp_n_batch = lc_n_batch cfg, cp_n_seq_max = lc_n_seq_max cfg,
      cp_n_threads = lc_n_threads cfg, cp_n_threads_batch = lc_n_threads cfg,
      cp_kv_unified = lc_kv_unified cfg\<rparr>"

definition LlamaModelEngine_new ::
  "('m, 'c, 's) llama \<Rightarrow> LlamaEngineConfig \<Rightarrow> string + ('m, 'c, 's) Impl" where
  "LlamaModelEngine_new L cfg =
     (case ll_model_load_from_file L (lc_model_path cfg) (lc_n_gpu_layers cfg) of
        None \<Rightarrow> Inl (''failed to load model: '' @ lc_model_path cfg)
      | Some model \<Rightarrow>
          (case ll_init_from_model L model (context_params cfg) of
             None \<Rightarrow> Inl ''failed to create llama_context''
           | Some context \<Rightarrow>
               Inr \<lparr>im_model = model, im_context = context,
                    im_batch = ll_batch_init L (i32 (int (ll_n_batch L context))) 0 1,
                    im_eos = ll_vocab_eos L model, im_n_batch = ll_n_batch L context,
                    im_samplers = []\<rparr>))"

section \<open>Operations\<close>

definition llama_caps :: "('m, 'c, 's) llama \<Rightarrow> ('m, 'c, 's) Impl \<Rightarrow> EngineCaps" where
  "llama_caps L e =
     \<lparr>n_ctx = ll_n_ctx L (im_context e), n_batch = ll_n_batch L (im_context e),
      n_seq_max = ll_n_seq_max L (im_context e), eos = im_eos e,
      n_ctx_seq = ll_n_ctx_seq L (im_context e)\<rparr>"

text \<open>\<open>std::vector::resize\<close> and \<open>std::string::resize\<close>: cut, or fill with \<open>z\<close>.\<close>

definition resize :: "nat \<Rightarrow> 'a \<Rightarrow> 'a list \<Rightarrow> 'a list" where
  "resize n z xs = take n xs @ replicate (n - length xs) z"

definition llama_tokenize ::
  "('m, 'c, 's) llama \<Rightarrow> ('m, 'c, 's) Impl \<Rightarrow> string \<Rightarrow> bool \<Rightarrow> Token list" where
  "llama_tokenize L e txt add_special =
     (let size = i32 (int (length txt));
          tokens = replicate (length txt + 2) 0;
          (n, tokens) = ll_tokenize L (im_model e) txt size tokens (i32 (int (length tokens))) add_special True;
          (n, tokens) =
            (if n < 0
             then let tokens = resize (nat (- n)) 0 tokens
                  in ll_tokenize L (im_model e) txt size tokens (i32 (int (length tokens))) add_special True
             else (n, tokens))
      in resize (if n < 0 then 0 else nat n) 0 tokens)"

definition llama_piece :: "('m, 'c, 's) llama \<Rightarrow> ('m, 'c, 's) Impl \<Rightarrow> Token \<Rightarrow> string" where
  "llama_piece L e token =
     (let (n, buf) = ll_token_to_piece L (im_model e) token (ll_stack_buffer L) 256 0 False in
      if n \<ge> 0 then take (nat n) buf
      else
        let s = replicate (nat (- n)) (CHR 0x00);
            (n, s) = ll_token_to_piece L (im_model e) token s (i32 (int (length s))) 0 False
        in resize (if n < 0 then 0 else nat n) (CHR 0x00) s)"

text \<open>The chain of samplers for one sequence, in the order of the \<open>chain_add\<close> calls.\<close>

definition sampler_chain :: "('m, 'c, 's) llama \<Rightarrow> SamplingParams \<Rightarrow> llama_sampler list" where
  "sampler_chain L p =
     (if repeat_penalty p \<noteq> 1 then [InitPenalties 64 (repeat_penalty p) 0 0] else []) @
     (if temperature p \<le> 0 then [InitGreedy]
      else (if top_k p > 0 then [InitTopK (top_k p)] else []) @
        [InitTopP (top_p p) 1, InitTemp (temperature p),
         InitDist (if seed p = 0 then ll_default_seed L else seed p)])"

definition llama_begin_sequence ::
  "('m, 'c, 's) llama \<Rightarrow> ('m, 'c, 's) Impl \<Rightarrow> SeqId \<Rightarrow> SamplingParams \<Rightarrow> string option \<times> ('m, 'c, 's) Impl" where
  "llama_begin_sequence L e seq p =
     (let chain = foldl (ll_sampler_chain_add L) (ll_sampler_chain_init L) (sampler_chain L p)
      in (None, e\<lparr>im_samplers := AList.update seq chain (im_samplers e)\<rparr>))"

text \<open>
  The loops of \<open>decode\<close> that fill the reusable batch: \<open>b.n_tokens\<close> is the write index of
  every array. An index outside an array would be undefined behaviour in the source; here
  the update is void, and \<open>fill_items_slots\<close> shows that it does not occur.
\<close>

definition put_token :: "BatchItem \<Rightarrow> nat \<Rightarrow> llama_batch \<Rightarrow> llama_batch" where
  "put_token item k b =
     (let i = lb_n_tokens b; is_last = (k + 1 = length (it_tokens item)) in
      b\<lparr>lb_token := (lb_token b)[i := it_tokens item ! k],
        lb_pos := (lb_pos b)[i := it_pos0 item + i32 (int k)],
        lb_n_seq_id := (lb_n_seq_id b)[i := 1],
        lb_seq_id := (lb_seq_id b)[i := it_seq item],
        lb_logits := (lb_logits b)[i := (if it_sample item \<and> is_last then 1 else 0)],
        lb_n_tokens := Suc i\<rparr>)"

definition fill_item :: "BatchItem \<Rightarrow> llama_batch \<Rightarrow> llama_batch" where
  "fill_item item b = fold (put_token item) [0..<length (it_tokens item)] b"

fun fill_items ::
  "BatchItem list \<Rightarrow> llama_batch \<Rightarrow> (SeqId \<times> int) list \<Rightarrow> llama_batch \<times> (SeqId \<times> int) list" where
  "fill_items [] b to_sample = (b, to_sample)"
| "fill_items (item # items) b to_sample =
     (let b1 = fill_item item b in
      fill_items items b1
        (if it_sample item \<and> it_tokens item \<noteq> []
         then to_sample @ [(it_seq item, int (lb_n_tokens b1) - 1)] else to_sample))"

fun sample_all ::
  "('m, 'c, 's) llama \<Rightarrow> (SeqId \<times> int) list \<Rightarrow> ('m, 'c, 's) Impl \<Rightarrow> (string + GenStep list) \<times> ('m, 'c, 's) Impl" where
  "sample_all L [] e = (Inr [], e)"
| "sample_all L ((seq, index) # rest) e =
     (case map_of (im_samplers e) seq of
        None \<Rightarrow> (Inl ''decode on a sequence without begin_sequence'', e)
      | Some smpl \<Rightarrow>
          (case ll_sampler_sample L smpl (im_context e) index of (tok, smpl', ctx) \<Rightarrow>
             (case sample_all L rest
                     (e\<lparr>im_context := ctx, im_samplers := AList.update seq smpl' (im_samplers e)\<rparr>) of
                (Inl x, e') \<Rightarrow> (Inl x, e')
              | (Inr steps, e') \<Rightarrow>
                  (Inr (\<lparr>gs_seq = seq, gs_token = tok, gs_is_eog = ll_vocab_is_eog L (im_model e) tok\<rparr> # steps), e'))))"

definition batch_total :: "BatchItem list \<Rightarrow> nat" where
  "batch_total items = sum_list (map (length \<circ> it_tokens) items)"

definition llama_decode ::
  "('m, 'c, 's) llama \<Rightarrow> ('m, 'c, 's) Impl \<Rightarrow> BatchItem list \<Rightarrow> (string + GenStep list) \<times> ('m, 'c, 's) Impl" where
  "llama_decode L e items =
     (if batch_total items > im_n_batch e
      then (Inl (''decode: batch of '' @ nat_str (batch_total items) @ '' tokens exceeds n_batch='' @
                 nat_str (im_n_batch e) @ '' (chunked prefill lands in Phase 4)''), e)
      else
        let (b, to_sample) = fill_items items ((im_batch e)\<lparr>lb_n_tokens := 0\<rparr>) [];
            (rc, ctx) = ll_decode L (im_context e) b;
            e1 = e\<lparr>im_batch := b, im_context := ctx\<rparr>
        in if rc \<noteq> 0 then (Inl (''llama_decode failed with code '' @ int_str rc), e1)
           else sample_all L to_sample e1)"

definition llama_release_sequence :: "('m, 'c, 's) llama \<Rightarrow> ('m, 'c, 's) Impl \<Rightarrow> SeqId \<Rightarrow> ('m, 'c, 's) Impl" where
  "llama_release_sequence L e seq =
     e\<lparr>im_samplers := AList.delete seq (im_samplers e),
       im_context := ll_memory_seq_rm L (im_context e) seq (- 1) (- 1)\<rparr>"

definition llama_copy_sequence ::
  "('m, 'c, 's) llama \<Rightarrow> ('m, 'c, 's) Impl \<Rightarrow> SeqId \<Rightarrow> SeqId \<Rightarrow> Pos \<Rightarrow> string option \<times> ('m, 'c, 's) Impl" where
  "llama_copy_sequence L e src dst n_tokens =
     (if n_tokens \<le> 0 \<or> src = dst then (None, e)
      else (None, e\<lparr>im_context := ll_memory_seq_cp L (im_context e) src dst 0 n_tokens\<rparr>))"

definition llama_engine :: "('m, 'c, 's) llama \<Rightarrow> ('m, 'c, 's) Impl IModelEngine" where
  "llama_engine L =
     \<lparr>eg_caps = llama_caps L, eg_tokenize = llama_tokenize L, eg_piece = llama_piece L,
      eg_begin_sequence = llama_begin_sequence L, eg_decode = llama_decode L,
      eg_release_sequence = llama_release_sequence L, eg_copy_sequence = llama_copy_sequence L\<rparr>"

section \<open>What a decode submits\<close>

text \<open>
  The row of one token: token, position, number of sequences, sequence, logits flag. A
  batch stands for the rows below its write index.
\<close>

definition slot :: "BatchItem \<Rightarrow> nat \<Rightarrow> Token \<times> Pos \<times> int \<times> SeqId \<times> int" where
  "slot it k =
     (it_tokens it ! k, it_pos0 it + i32 (int k), 1, it_seq it,
      (if it_sample it \<and> k + 1 = length (it_tokens it) then 1 else 0))"

definition item_slots :: "BatchItem \<Rightarrow> (Token \<times> Pos \<times> int \<times> SeqId \<times> int) list" where
  "item_slots it = map (slot it) [0..<length (it_tokens it)]"

definition batch_slots :: "llama_batch \<Rightarrow> (Token \<times> Pos \<times> int \<times> SeqId \<times> int) list" where
  "batch_slots b =
     map (\<lambda>i. (lb_token b ! i, lb_pos b ! i, lb_n_seq_id b ! i, lb_seq_id b ! i, lb_logits b ! i)) [0..<lb_n_tokens b]"

definition batch_room :: "nat \<Rightarrow> llama_batch \<Rightarrow> bool" where
  "batch_room N b \<longleftrightarrow> N \<le> length (lb_token b) \<and> N \<le> length (lb_pos b) \<and> N \<le> length (lb_n_seq_id b) \<and>
     N \<le> length (lb_seq_id b) \<and> N \<le> length (lb_logits b)"

lemma length_item_slots [simp]: "length (item_slots it) = length (it_tokens it)"
  by (simp add: item_slots_def)

lemma put_token_n [simp]: "lb_n_tokens (put_token it k b) = Suc (lb_n_tokens b)"
  by (simp add: put_token_def Let_def)

lemma put_token_room [simp]: "batch_room N (put_token it k b) = batch_room N b"
  by (simp add: put_token_def Let_def batch_room_def)

lemma put_token_slots:
  assumes "batch_room N b" and "lb_n_tokens b < N"
  shows "batch_slots (put_token it k b) = batch_slots b @ [slot it k]"
  using assms by (simp add: put_token_def Let_def batch_slots_def slot_def batch_room_def)

lemma fill_item_slots:
  assumes "batch_room N b" and "lb_n_tokens b + length (it_tokens it) \<le> N"
  shows "batch_slots (fill_item it b) = batch_slots b @ item_slots it \<and>
    lb_n_tokens (fill_item it b) = lb_n_tokens b + length (it_tokens it) \<and> batch_room N (fill_item it b)"
proof -
  have "batch_slots (fold (put_token it) [0..<n] b) = batch_slots b @ map (slot it) [0..<n] \<and>
      lb_n_tokens (fold (put_token it) [0..<n] b) = lb_n_tokens b + n \<and> batch_room N (fold (put_token it) [0..<n] b)"
    if "n \<le> length (it_tokens it)" for n
    using that
  proof (induction n)
    case 0
    with assms show ?case by simp
  next
    case (Suc n)
    with assms(2) put_token_slots [of N "fold (put_token it) [0..<n] b"] show ?case by simp
  qed
  then show ?thesis by (simp add: fill_item_def item_slots_def)
qed

text \<open>Where the sequences are sampled: at the last row of each sampling item.\<close>

fun sample_points :: "nat \<Rightarrow> BatchItem list \<Rightarrow> (SeqId \<times> int) list" where
  "sample_points n [] = []"
| "sample_points n (it # its) =
     (let m = n + length (it_tokens it) in
      (if it_sample it \<and> it_tokens it \<noteq> [] then [(it_seq it, int m - 1)] else []) @ sample_points m its)"

lemma batch_total_simps [simp]:
  "batch_total [] = 0" "batch_total (it # its) = length (it_tokens it) + batch_total its"
  by (simp_all add: batch_total_def)

lemma fill_items_slots:
  assumes "fill_items items b ts = (b', ts')" and "batch_room N b" and "lb_n_tokens b + batch_total items \<le> N"
  shows "batch_slots b' = batch_slots b @ concat (map item_slots items) \<and>
    ts' = ts @ sample_points (lb_n_tokens b) items \<and> lb_n_tokens b' = lb_n_tokens b + batch_total items \<and> batch_room N b'"
  using assms
proof (induction items arbitrary: b ts)
  case Nil
  then show ?case by simp
next
  case (Cons it its)
  have one: "batch_slots (fill_item it b) = batch_slots b @ item_slots it"
      "lb_n_tokens (fill_item it b) = lb_n_tokens b + length (it_tokens it)" "batch_room N (fill_item it b)"
    using fill_item_slots [of N b it] Cons.prems by simp_all
  define ts1 where
    "ts1 = (if it_sample it \<and> it_tokens it \<noteq> [] then ts @ [(it_seq it, int (lb_n_tokens (fill_item it b)) - 1)] else ts)"
  have "fill_items its (fill_item it b) ts1 = (b', ts')" using Cons.prems(1) by (simp add: ts1_def Let_def)
  from Cons.IH [OF this one(3)] Cons.prems(3) one show ?case by (simp add: ts1_def Let_def add.assoc)
qed

lemma sample_points_seqs:
  "map fst (sample_points n items) = map it_seq (filter (\<lambda>it. it_sample it \<and> it_tokens it \<noteq> []) items)"
  by (induction items arbitrary: n) (simp_all add: Let_def)

lemma item_slots_last:
  assumes "it_sample it" and "it_tokens it \<noteq> []"
  shows "\<exists>tok pos. last (item_slots it) = (tok, pos, 1, it_seq it, 1)"
  using assms by (cases "length (it_tokens it)") (auto simp: item_slots_def slot_def)

text \<open>Every row that is sampled belongs to its sequence and had its logits requested.\<close>

lemma sample_points_rows:
  assumes "(seq, i) \<in> set (sample_points n items)" and "length rows = n"
  shows "\<exists>tok pos. 0 \<le> i \<and> nat i < n + batch_total items \<and>
    (rows @ concat (map item_slots items)) ! nat i = (tok, pos, 1, seq, 1)"
  using assms
proof (induction items arbitrary: n rows)
  case Nil
  then show ?case by simp
next
  case (Cons it its)
  let ?m = "n + length (it_tokens it)"
  consider (here) "it_sample it" "it_tokens it \<noteq> []" "seq = it_seq it" "i = int ?m - 1"
    | (later) "(seq, i) \<in> set (sample_points ?m its)"
    using Cons.prems(1) by (auto simp: Let_def split: if_splits)
  then show ?case
  proof cases
    case here
    then obtain m where m: "length (it_tokens it) = Suc m" by (cases "it_tokens it") auto
    then have "item_slots it ! m = last (item_slots it)" by (metis length_item_slots diff_Suc_1 last_conv_nth list.size(3) nat.distinct(1))
    with item_slots_last [OF here(1,2)] obtain tok pos where "item_slots it ! m = (tok, pos, 1, seq, 1)" using here(3) by auto
    moreover have "nat i = n + m" "0 \<le> i" using here(4) m by simp_all
    ultimately show ?thesis using Cons.prems(2) m by (auto simp: nth_append)
  next
    case later
    from Cons.IH [OF this, of "rows @ item_slots it"] Cons.prems(2) show ?thesis by simp
  qed
qed

section \<open>The contract of the engine interface\<close>

text \<open>A sequence is live while it has a sampler.\<close>

definition llama_live :: "('m, 'c, 's) Impl \<Rightarrow> SeqId set" where
  "llama_live e = dom (map_of (im_samplers e))"

lemma sample_all_effect:
  "sample_all L ts e = (r, e') \<Longrightarrow> llama_live e' = llama_live e \<and> im_batch e' = im_batch e \<and> im_n_batch e' = im_n_batch e \<and>
    (\<forall>steps. r = Inr steps \<longrightarrow> map gs_seq steps = map fst ts)"
proof (induction L ts e arbitrary: r e' rule: sample_all.induct)
  case (1 L e)
  then show ?case by auto
next
  case (2 L seq index rest e)
  show ?case
  proof (cases "map_of (im_samplers e) seq")
    case None
    with 2 show ?thesis by auto
  next
    case (Some smpl)
    obtain tok smpl' ctx where s: "ll_sampler_sample L smpl (im_context e) index = (tok, smpl', ctx)" by (metis prod_cases3)
    let ?e1 = "e\<lparr>im_context := ctx, im_samplers := AList.update seq smpl' (im_samplers e)\<rparr>"
    obtain r1 e1 where q: "sample_all L rest ?e1 = (r1, e1)" by fastforce
    have "llama_live ?e1 = llama_live e" using Some by (auto simp: llama_live_def update_conv')
    note IH = 2(1) [OF Some s [symmetric] refl q, unfolded this]
    from 2(2) Some s q IH show ?thesis by (cases r1) (simp, fastforce)+
  qed
qed

lemma llama_decode_effect:
  assumes "llama_decode L e items = (r, e')"
  shows "llama_live e' = llama_live e \<and>
    (\<forall>steps. r = Inr steps \<longrightarrow>
      map gs_seq steps = map it_seq (filter (\<lambda>it. it_sample it \<and> it_tokens it \<noteq> []) items))"
proof -
  have seqs: "map fst (snd (fill_items items b ts)) =
      map fst ts @ map it_seq (filter (\<lambda>it. it_sample it \<and> it_tokens it \<noteq> []) items)" for b ts
    by (induction items arbitrary: b ts) (simp_all add: Let_def)
  obtain b ts where f: "fill_items items ((im_batch e)\<lparr>lb_n_tokens := 0\<rparr>) [] = (b, ts)" by fastforce
  obtain rc ctx where d: "ll_decode L (im_context e) b = (rc, ctx)" by fastforce
  let ?e1 = "e\<lparr>im_batch := b, im_context := ctx\<rparr>"
  have live: "llama_live ?e1 = llama_live e" by (simp add: llama_live_def)
  have out: "llama_decode L e items = (if batch_total items > im_n_batch e then (fst (llama_decode L e items), e)
      else if rc \<noteq> 0 then (Inl (''llama_decode failed with code '' @ int_str rc), ?e1) else sample_all L ts ?e1)"
    by (simp add: llama_decode_def f d)
  show ?thesis
  proof (cases "batch_total items > im_n_batch e")
    case True
    then have "r = Inl (fst (projl r, e))" "e' = e" using assms by (auto simp: llama_decode_def)
    then show ?thesis by auto
  next
    case False
    show ?thesis
    proof (cases "rc = 0")
      case True
      with False assms out have "sample_all L ts ?e1 = (r, e')" by simp
      from sample_all_effect [OF this] live seqs [of "(im_batch e)\<lparr>lb_n_tokens := 0\<rparr>" "[]"] f show ?thesis by simp
    next
      case rc: False
      with False assms out live show ?thesis by auto
    qed
  qed
qed

interpretation llama: model_engine "llama_engine L" llama_live for L :: "('m, 'c, 's) llama"
proof unfold_locales
  fix e e' :: "('m, 'c, 's) Impl" and s p
  assume "eg_begin_sequence (llama_engine L) e s p = (None, e')"
  then show "llama_live e' = insert s (llama_live e)"
    by (auto simp: llama_engine_def llama_begin_sequence_def llama_live_def update_conv' Let_def)
next
  fix e :: "('m, 'c, 's) Impl" and s
  show "llama_live (eg_release_sequence (llama_engine L) e s) = llama_live e - {s}"
    by (auto simp: llama_engine_def llama_release_sequence_def llama_live_def delete_conv' split: if_splits)
  then show "llama_live (eg_release_sequence (llama_engine L) (eg_release_sequence (llama_engine L) e s) s) =
      llama_live (eg_release_sequence (llama_engine L) e s)"
    by (auto simp: llama_engine_def llama_release_sequence_def llama_live_def delete_conv' split: if_splits)
next
  fix e e' :: "('m, 'c, 's) Impl" and s d n x
  assume "eg_copy_sequence (llama_engine L) e s d n = (x, e')"
  then show "llama_live e' = llama_live e"
    by (auto simp: llama_engine_def llama_copy_sequence_def llama_live_def split: if_splits)
next
  fix e e' :: "('m, 'c, 's) Impl" and items r
  assume "eg_decode (llama_engine L) e items = (r, e')"
  then show "llama_live e' = llama_live e" using llama_decode_effect [of L e items] by (simp add: llama_engine_def)
next
  fix e e' :: "('m, 'c, 's) Impl" and items steps
  assume "eg_decode (llama_engine L) e items = (Inr steps, e')"
    and f: "\<forall>it\<in>set items. it_sample it \<longrightarrow> it_tokens it \<noteq> []"
  moreover from f have "filter (\<lambda>it. it_sample it \<and> it_tokens it \<noteq> []) items = filter it_sample items"
    by (auto intro: filter_cong)
  ultimately show "map gs_seq steps = map it_seq (filter it_sample items)"
    using llama_decode_effect [of L e items] by (simp add: llama_engine_def)
qed

section \<open>The reusable batch over the life of an engine\<close>

text \<open>The states of an engine: constructed, then any sequence of calls through the interface.\<close>

inductive llama_reach :: "('m, 'c, 's) llama \<Rightarrow> LlamaEngineConfig \<Rightarrow> ('m, 'c, 's) Impl \<Rightarrow> bool" for L cfg where
  made: "LlamaModelEngine_new L cfg = Inr e \<Longrightarrow> llama_reach L cfg e"
| begun: "llama_reach L cfg e \<Longrightarrow> llama_reach L cfg (snd (eg_begin_sequence (llama_engine L) e s p))"
| decoded: "llama_reach L cfg e \<Longrightarrow> llama_reach L cfg (snd (eg_decode (llama_engine L) e items))"
| released: "llama_reach L cfg e \<Longrightarrow> llama_reach L cfg (eg_release_sequence (llama_engine L) e s)"
| copied: "llama_reach L cfg e \<Longrightarrow> llama_reach L cfg (snd (eg_copy_sequence (llama_engine L) e s d n))"

text \<open>\<open>llama_batch_init(n, 0, 1)\<close> allocates room for \<open>n\<close> tokens, as its header documents.\<close>

definition batch_inits :: "('m, 'c, 's) llama \<Rightarrow> bool" where
  "batch_inits L \<longleftrightarrow> (\<forall>n\<ge>0. batch_room (nat n) (ll_batch_init L n 0 1)) \<and> (\<forall>c. ll_n_batch L c < 2147483648)"

lemma sample_all_batch [simp]:
  "im_batch (snd (sample_all L ts e)) = im_batch e" "im_n_batch (snd (sample_all L ts e)) = im_n_batch e"
  using sample_all_effect [OF prod.collapse [symmetric], of L ts e] by simp_all

lemma decode_batch:
  assumes "batch_room (im_n_batch e) (im_batch e)" and "batch_total items \<le> im_n_batch e"
  obtains b where "batch_slots b = concat (map item_slots items)" and "lb_n_tokens b = batch_total items"
    and "batch_room (im_n_batch e) b"
    and "llama_decode L e items =
      (let (rc, ctx) = ll_decode L (im_context e) b; e1 = e\<lparr>im_batch := b, im_context := ctx\<rparr>
       in if rc \<noteq> 0 then (Inl (''llama_decode failed with code '' @ int_str rc), e1) else sample_all L (sample_points 0 items) e1)"
proof -
  let ?b0 = "(im_batch e)\<lparr>lb_n_tokens := 0\<rparr>"
  obtain b ts where f: "fill_items items ?b0 [] = (b, ts)" by fastforce
  have "batch_room (im_n_batch e) ?b0" using assms(1) by (simp add: batch_room_def)
  from fill_items_slots [OF f this] assms(2)
  have b: "batch_slots b = batch_slots ?b0 @ concat (map item_slots items)" "ts = sample_points 0 items"
      "lb_n_tokens b = batch_total items" "batch_room (im_n_batch e) b" by simp_all
  moreover have "batch_slots ?b0 = []" by (simp add: batch_slots_def)
  ultimately show thesis using that [of b] f assms(2) by (simp add: llama_decode_def)
qed

lemma llama_reach_room:
  assumes "batch_inits L"
  shows "llama_reach L cfg e \<Longrightarrow> batch_room (im_n_batch e) (im_batch e)"
proof (induction rule: llama_reach.induct)
  case (made e)
  then obtain c where "im_batch e = ll_batch_init L (i32 (int (ll_n_batch L c))) 0 1" "im_n_batch e = ll_n_batch L c"
    by (auto simp: LlamaModelEngine_new_def split: option.splits)
  moreover from assms have "batch_room (ll_n_batch L c) (ll_batch_init L (int (ll_n_batch L c)) 0 1)" "ll_n_batch L c < 2147483648"
    unfolding batch_inits_def by (metis nat_int of_nat_0_le_iff, blast)
  ultimately show ?case by (simp add: i32_id)
next
  case (decoded e items)
  show ?case
  proof (cases "batch_total items \<le> im_n_batch e")
    case True
    show ?thesis
      by (rule decode_batch [OF decoded.IH True, of L]) (auto simp: llama_engine_def Let_def split: prod.split)
  next
    case False
    with decoded.IH show ?thesis by (simp add: llama_engine_def llama_decode_def)
  qed
qed (auto simp: llama_engine_def llama_begin_sequence_def llama_release_sequence_def llama_copy_sequence_def Let_def)

section \<open>Text in, text out\<close>

text \<open>
  What the headers of llama.cpp document: a buffer that is large enough receives the
  result and its length is returned; one that is too small makes the call return the
  negated length.
\<close>

definition tokenizes :: "('m, 'c, 's) llama \<Rightarrow> 'm \<Rightarrow> string \<Rightarrow> bool \<Rightarrow> Token list \<Rightarrow> bool" where
  "tokenizes L m txt add toks \<longleftrightarrow>
     (\<forall>buf. (let (n, buf') = ll_tokenize L m txt (int (length txt)) buf (int (length buf)) add True in
        length buf' = length buf \<and>
        (if length toks \<le> length buf then n = int (length toks) \<and> take (length toks) buf' = toks
         else n = - int (length toks))))"

definition renders :: "('m, 'c, 's) llama \<Rightarrow> 'm \<Rightarrow> Token \<Rightarrow> string \<Rightarrow> bool" where
  "renders L m tok s \<longleftrightarrow>
     (\<forall>buf. (let (n, buf') = ll_token_to_piece L m tok buf (int (length buf)) 0 False in
        length buf' = length buf \<and>
        (if length s \<le> length buf then n = int (length s) \<and> take (length s) buf' = s
         else n = - int (length s))))"

lemma llama_tokenize_whole:
  assumes "tokenizes L (im_model e) txt add toks" and "length txt + 2 < 2147483648" and "length toks < 2147483648"
  shows "llama_tokenize L e txt add = toks"
proof -
  obtain n buf where c: "ll_tokenize L (im_model e) txt (int (length txt)) (replicate (length txt + 2) 0)
      (int (length txt + 2)) add True = (n, buf)" by fastforce
  have first: "length buf = length txt + 2"
      "if length toks \<le> length txt + 2 then n = int (length toks) \<and> take (length toks) buf = toks else n = - int (length toks)"
    using assms(1) [unfolded tokenizes_def, rule_format, of "replicate (length txt + 2) 0"] c by (auto simp: Let_def)
  show ?thesis
  proof (cases "length toks \<le> length txt + 2")
    case True
    with first c assms(2) show ?thesis by (simp add: llama_tokenize_def Let_def i32_id resize_def)
  next
    case False
    let ?big = "resize (length toks) 0 buf"
    have l: "length ?big = length toks" by (simp add: resize_def)
    obtain n2 buf2 where c2: "ll_tokenize L (im_model e) txt (int (length txt)) ?big (int (length toks)) add True = (n2, buf2)"
      by fastforce
    have "length buf2 = length toks" "n2 = int (length toks)" "take (length toks) buf2 = toks"
      using assms(1) [unfolded tokenizes_def, rule_format, of ?big] c2 l by (auto simp: Let_def)
    moreover have "n = - int (length toks)" using first False by simp
    moreover have "0 < length toks" using False by linarith
    ultimately show ?thesis
      using c c2 assms(2,3) l by (simp add: llama_tokenize_def Let_def i32_id) (simp add: resize_def)
  qed
qed

lemma llama_piece_whole:
  assumes "renders L (im_model e) tok s" and "length (ll_stack_buffer L) = 256" and "length s < 2147483648"
  shows "llama_piece L e tok = s"
proof -
  obtain n buf where c: "ll_token_to_piece L (im_model e) tok (ll_stack_buffer L) 256 0 False = (n, buf)" by fastforce
  have first: "length buf = 256"
      "if length s \<le> 256 then n = int (length s) \<and> take (length s) buf = s else n = - int (length s)"
    using assms(1) [unfolded renders_def, rule_format, of "ll_stack_buffer L"] assms(2) c by (auto simp: Let_def)
  show ?thesis
  proof (cases "length s \<le> 256")
    case True
    with first c show ?thesis by (simp add: llama_piece_def Let_def)
  next
    case False
    let ?big = "replicate (length s) (CHR 0x00)"
    obtain n2 buf2 where c2: "ll_token_to_piece L (im_model e) tok ?big (int (length s)) 0 False = (n2, buf2)" by fastforce
    have "length buf2 = length s" "n2 = int (length s)" "take (length s) buf2 = s"
      using assms(1) [unfolded renders_def, rule_format, of ?big] c2 by (auto simp: Let_def)
    with first False c c2 assms(3) show ?thesis by (simp add: llama_piece_def Let_def i32_id resize_def)
  qed
qed

end
