(* ===== verification/Mv_Main.thy ===== *)
theory Mv_Main
  imports Mv_Server Mv_MockEngine Mv_LlamaEngine
begin

text \<open>
  \<open>src/main.cpp\<close> and \<open>include/microvllm/version.hpp\<close>: the command line and the wiring of the
  process. \<open>std::exit\<close> ends the computation with a code and the text printed before it.
  \<open>std::atoi\<close> is undefined for values outside \<open>int\<close>; there it is an arbitrary function of
  the text, an argument of the definitions.
\<close>

section \<open>Arguments\<close>

definition kVersion :: string where
  "kVersion = ''0.1.0''"

record Args =
  ar_model :: string
  ar_host :: string
  ar_port :: int
  ar_threads :: int
  ar_n_ctx :: nat
  ar_mock :: string
  ar_has_mock :: bool
  ar_mock_echo :: bool
  ar_quiet :: bool
  ar_queue_depth :: nat
  ar_batch_size :: nat
  ar_prefill_chunk :: nat
  ar_kv_blocks :: nat
  ar_block_size :: nat
  ar_no_prefix_cache :: bool
  ar_log_requests :: bool
  ar_prefix_donors :: nat
  ar_mode :: BatchingMode

definition Args_default :: Args where
  "Args_default =
     \<lparr>ar_model = [], ar_host = ''0.0.0.0'', ar_port = 8080, ar_threads = 8, ar_n_ctx = 4096, ar_mock = [],
      ar_has_mock = False, ar_mock_echo = False, ar_quiet = False, ar_queue_depth = 64, ar_batch_size = 8,
      ar_prefill_chunk = 128, ar_kv_blocks = 0, ar_block_size = 16, ar_no_prefix_cache = False,
      ar_log_requests = False, ar_prefix_donors = 4, ar_mode = kContinuous\<rparr>"

datatype 'a cli = Runs 'a | Exits int string

definition usage_text :: "string \<Rightarrow> string" where
  "usage_text prog =
     concat (map (\<lambda>l. l @ nl)
       [''microvllm '' @ kVersion,
        ''usage: '' @ prog @ '' --model <path.gguf> [options]'',
        ''       '' @ prog @ '' --mock <response> [options]   (no model; echoes a fixed response)'',
        '''',
        ''options:'',
        ''  --model <path>    GGUF model to serve'',
        ''  --host <addr>     bind address (default 0.0.0.0)'',
        ''  --port <n>        bind port (default 8080)'',
        ''  --threads <n>     inference threads (default 8)'',
        ''  --ctx <n>         per-request context length (default 4096)'',
        ''  --mock <text>     serve a deterministic mock engine instead of a model'',
        ''  --mock-echo       mock mode that echoes each prompt back (load testing)'',
        ''  --queue <n>       max waiting requests before 503 (default 64)'',
        ''  --batch-size <n>  sequences batched into one forward pass (default 8)'',
        ''  --scheduler <m>   continuous (default) | static'',
        ''  --prefill-chunk <n>  prompt tokens per sequence per step (default 128,'',
        ''                    0 = submit whole prompts; continuous mode only)'',
        ''  --kv-blocks <n>   KV-cache budget in blocks (default: derived from --ctx).'',
        ''                    Lower it to exercise admission control and preemption'',
        ''  --block-size <n>  tokens per KV block (default 16)'',
        ''  --no-prefix-cache disable KV sharing between common prompt prefixes'',
        ''  --prefix-donors <n>  prefixes retained past their request's exit'',
        ''                    (default 4, 0 = off)'',
        ''  --log-requests    emit one JSON line per completed request'',
        ''  --quiet           silence llama.cpp info logging'',
        ''  --help''])"

text \<open>An error message on standard error, then \<open>usage\<close> with code 2.\<close>

definition usage_error :: "string \<Rightarrow> string \<Rightarrow> 'a cli" where
  "usage_error prog message = Exits 2 (''error: '' @ message @ nl @ usage_text prog)"

section \<open>\<open>std::atoi\<close> and the casts of its result\<close>

definition is_space :: "char \<Rightarrow> bool" where
  "is_space c \<longleftrightarrow> (let n = of_char c :: nat in n = 32 \<or> (9 \<le> n \<and> n \<le> 13))"

definition is_digit :: "char \<Rightarrow> bool" where
  "is_digit c \<longleftrightarrow> (let n = of_char c :: nat in 48 \<le> n \<and> n \<le> 57)"

definition digits_value :: "string \<Rightarrow> nat" where
  "digits_value s = nat_val (takeWhile is_digit s)"

definition atoi :: "(string \<Rightarrow> int) \<Rightarrow> string \<Rightarrow> int" where
  "atoi undef s =
     (let t = dropWhile is_space s;
          v = (case t of
                 [] \<Rightarrow> 0
               | c # cs \<Rightarrow> if c = CHR ''-'' then - int (digits_value cs)
                           else if c = CHR ''+'' then int (digits_value cs)
                           else int (digits_value t))
      in if - 2147483648 \<le> v \<and> v < 2147483648 then v else undef s)"

definition as_u32 :: "int \<Rightarrow> nat" where
  "as_u32 x = nat (x mod 4294967296)"

definition as_size :: "int \<Rightarrow> nat" where
  "as_size x = nat (x mod 18446744073709551616)"

section \<open>\<open>parse_args\<close>\<close>

text \<open>The value of an option is the next argument.\<close>

definition need_value :: "string \<Rightarrow> string \<Rightarrow> string list \<Rightarrow> (string \<Rightarrow> Args cli) \<Rightarrow> (Args \<times> string list) cli" where
  "need_value prog arg rest assign =
     (case rest of
        [] \<Rightarrow> usage_error prog (arg @ '' needs a value'')
      | v # rest' \<Rightarrow> (case assign v of Runs a \<Rightarrow> Runs (a, rest') | Exits code out \<Rightarrow> Exits code out))"

text \<open>One pass of the loop: the new arguments and what is left of the command line.\<close>

definition parse_arg ::
  "(string \<Rightarrow> int) \<Rightarrow> string \<Rightarrow> string \<Rightarrow> string list \<Rightarrow> Args \<Rightarrow> (Args \<times> string list) cli" where
  "parse_arg undef prog arg rest a =
     (if arg = ''--model'' then need_value prog arg rest (\<lambda>v. Runs (a\<lparr>ar_model := v\<rparr>))
      else if arg = ''--host'' then need_value prog arg rest (\<lambda>v. Runs (a\<lparr>ar_host := v\<rparr>))
      else if arg = ''--port'' then need_value prog arg rest (\<lambda>v. Runs (a\<lparr>ar_port := atoi undef v\<rparr>))
      else if arg = ''--threads'' then need_value prog arg rest (\<lambda>v. Runs (a\<lparr>ar_threads := atoi undef v\<rparr>))
      else if arg = ''--ctx'' then need_value prog arg rest (\<lambda>v. Runs (a\<lparr>ar_n_ctx := as_u32 (atoi undef v)\<rparr>))
      else if arg = ''--mock'' then need_value prog arg rest (\<lambda>v. Runs (a\<lparr>ar_mock := v, ar_has_mock := True\<rparr>))
      else if arg = ''--mock-echo'' then Runs (a\<lparr>ar_mock_echo := True, ar_has_mock := True\<rparr>, rest)
      else if arg = ''--queue'' then need_value prog arg rest (\<lambda>v. Runs (a\<lparr>ar_queue_depth := as_size (atoi undef v)\<rparr>))
      else if arg = ''--batch-size'' then
        need_value prog arg rest (\<lambda>v.
          if as_size (atoi undef v) = 0 then usage_error prog ''--batch-size must be >= 1''
          else Runs (a\<lparr>ar_batch_size := as_size (atoi undef v)\<rparr>))
      else if arg = ''--scheduler'' then
        need_value prog arg rest (\<lambda>v.
          if v = ''continuous'' then Runs (a\<lparr>ar_mode := kContinuous\<rparr>)
          else if v = ''static'' then Runs (a\<lparr>ar_mode := kStatic\<rparr>)
          else usage_error prog (''--scheduler must be 'continuous' or 'static'' @ [CHR 0x27]))
      else if arg = ''--prefill-chunk'' then
        need_value prog arg rest (\<lambda>v. Runs (a\<lparr>ar_prefill_chunk := as_size (atoi undef v)\<rparr>))
      else if arg = ''--kv-blocks'' then need_value prog arg rest (\<lambda>v. Runs (a\<lparr>ar_kv_blocks := as_u32 (atoi undef v)\<rparr>))
      else if arg = ''--block-size'' then need_value prog arg rest (\<lambda>v. Runs (a\<lparr>ar_block_size := as_u32 (atoi undef v)\<rparr>))
      else if arg = ''--no-prefix-cache'' then Runs (a\<lparr>ar_no_prefix_cache := True\<rparr>, rest)
      else if arg = ''--log-requests'' then Runs (a\<lparr>ar_log_requests := True\<rparr>, rest)
      else if arg = ''--prefix-donors'' then
        need_value prog arg rest (\<lambda>v. Runs (a\<lparr>ar_prefix_donors := as_u32 (atoi undef v)\<rparr>))
      else if arg = ''--quiet'' then Runs (a\<lparr>ar_quiet := True\<rparr>, rest)
      else if arg = ''--help'' \<or> arg = ''-h'' then Exits 0 (usage_text prog)
      else usage_error prog (''unknown argument '' @ [CHR 0x27] @ arg @ [CHR 0x27]))"

text \<open>
  What every pass of the loop keeps: the command line gets no longer, the fields stay in the ranges of their
  types, an exit has code 2 unless help was asked for.
\<close>

definition args_typed :: "Args \<Rightarrow> bool" where
  "args_typed a \<longleftrightarrow>
     ar_n_ctx a < 4294967296 \<and> ar_queue_depth a < 18446744073709551616 \<and>
     0 < ar_batch_size a \<and> ar_batch_size a < 18446744073709551616 \<and> ar_prefill_chunk a < 18446744073709551616 \<and>
     ar_kv_blocks a < 4294967296 \<and> ar_block_size a < 4294967296 \<and> ar_prefix_donors a < 4294967296"

definition step_ok :: "string \<Rightarrow> string \<Rightarrow> string list \<Rightarrow> Args \<Rightarrow> (Args \<times> string list) cli \<Rightarrow> bool" where
  "step_ok prog arg rest a r \<longleftrightarrow>
     (case r of
        Runs (a', rest') \<Rightarrow> suffix rest' rest \<and> (args_typed a \<longrightarrow> args_typed a')
      | Exits code out \<Rightarrow> code = 2 \<or> code = 0 \<and> out = usage_text prog \<and> arg \<in> {''--help'', ''-h''})"

lemma step_ok_if: "(c \<Longrightarrow> step_ok prog arg rest a x) \<Longrightarrow> step_ok prog arg rest a y \<Longrightarrow> step_ok prog arg rest a (if c then x else y)"
  by simp

lemma step_ok_value:
  assumes "\<And>v. case assign v of Runs a' \<Rightarrow> args_typed a \<longrightarrow> args_typed a' | Exits code out \<Rightarrow> code = 2"
  shows "step_ok prog arg rest a (need_value prog arg rest assign)"
proof (cases rest)
  case (Cons v rest')
  with assms [of v] show ?thesis by (auto simp: step_ok_def need_value_def suffix_def split: cli.splits)
qed (simp add: step_ok_def need_value_def usage_error_def)

lemma step_ok_flag: "args_typed a \<longrightarrow> args_typed a' \<Longrightarrow> step_ok prog arg rest a (Runs (a', rest))"
  by (simp add: step_ok_def)

lemma step_ok_usage: "step_ok prog arg rest a (usage_error prog message)"
  by (simp add: step_ok_def usage_error_def)

lemma as_u32_less [simp]: "as_u32 x < 4294967296"
  by (simp add: as_u32_def nat_less_iff)

lemma as_size_less [simp]: "as_size x < 18446744073709551616"
  by (simp add: as_size_def nat_less_iff)

lemma parse_arg_ok: "step_ok prog arg rest a (parse_arg undef prog arg rest a)"
  unfolding parse_arg_def
  by (intro step_ok_if step_ok_value step_ok_flag step_ok_usage)
    (simp_all add: step_ok_def usage_error_def args_typed_def)

lemma parse_arg_suffix: "parse_arg undef prog arg rest a = Runs (a', rest') \<Longrightarrow> suffix rest' rest"
  using parse_arg_ok [of prog arg rest a undef] by (simp add: step_ok_def)

lemma parse_arg_typed: "parse_arg undef prog arg rest a = Runs (a', rest') \<Longrightarrow> args_typed a \<Longrightarrow> args_typed a'"
  using parse_arg_ok [of prog arg rest a undef] by (simp add: step_ok_def)

lemma parse_arg_code:
  "parse_arg undef prog arg rest a = Exits code out \<Longrightarrow>
   code = 2 \<or> code = 0 \<and> out = usage_text prog \<and> arg \<in> {''--help'', ''-h''}"
  using parse_arg_ok [of prog arg rest a undef] by (simp add: step_ok_def)

function parse_loop :: "(string \<Rightarrow> int) \<Rightarrow> string \<Rightarrow> string list \<Rightarrow> Args \<Rightarrow> Args cli" where
  "parse_loop undef prog [] a = Runs a"
| "parse_loop undef prog (arg # rest) a =
     (case parse_arg undef prog arg rest a of
        Exits code out \<Rightarrow> Exits code out
      | Runs (a', rest') \<Rightarrow> parse_loop undef prog rest' a')"
  by pat_completeness auto

termination
  by (relation "measure (\<lambda>(undef, prog, args, a). length args)") (auto dest!: parse_arg_suffix suffix_length_le)

definition parse_args :: "(string \<Rightarrow> int) \<Rightarrow> string \<Rightarrow> string list \<Rightarrow> Args cli" where
  "parse_args undef prog args =
     (case parse_loop undef prog args Args_default of
        Exits code out \<Rightarrow> Exits code out
      | Runs a \<Rightarrow>
          if \<not> ar_has_mock a \<and> ar_model a = [] then usage_error prog ''one of --model or --mock is required''
          else Runs a)"

section \<open>\<open>main\<close>\<close>

definition server_config :: "Args \<Rightarrow> ServerConfig" where
  "server_config a =
     \<lparr>sc_host = ar_host a, sc_port = ar_port a, sc_max_queue_depth = ar_queue_depth a,
      sc_max_batch_size = ar_batch_size a, sc_mode = ar_mode a, sc_prefill_chunk = ar_prefill_chunk a,
      sc_kv_blocks = ar_kv_blocks a, sc_block_size = ar_block_size a,
      sc_prefix_caching = (\<not> ar_no_prefix_cache a), sc_log_requests = ar_log_requests a,
      sc_prefix_donors = ar_prefix_donors a\<rparr>"

definition mock_config :: "Args \<Rightarrow> MockConfig" where
  "mock_config a =
     \<lparr>mc_response = ar_mock a, mc_echo_prompt = ar_mock_echo a, mc_token_latency = 0,
      mc_n_ctx = 4096, mc_n_batch = 512, mc_n_seq_max = 16\<rparr>"

definition llama_config :: "Args \<Rightarrow> LlamaEngineConfig" where
  "llama_config a =
     (let cfg = LlamaEngineConfig_default\<lparr>lc_model_path := ar_model a, lc_n_ctx := ar_n_ctx a, lc_n_threads := ar_threads a\<rparr>;
          cfg = cfg\<lparr>lc_n_seq_max := u32 (max (ar_batch_size a) (lc_n_seq_max cfg))\<rparr>;
          cfg = cfg\<lparr>lc_n_ctx := u32 (ar_n_ctx a * lc_n_seq_max cfg)\<rparr>
      in cfg\<lparr>lc_kv_unified := (\<not> ar_no_prefix_cache a)\<rparr>)"

text \<open>
  The whole of \<open>main\<close>. The result is the exit code, \<open>None\<close> when an exception leaves \<open>main\<close>,
  and what was printed. \<open>served\<close> is what \<open>serve\<close> answers on the engine and the configuration it is
  given: whether the listener bound and ran, or the text of an exception. \<open>has_llama\<close> is the build
  flag, \<open>system_info\<close> the text llama.cpp gives about the machine.
\<close>

datatype ('m, 'c, 's) engine_choice = UsesMock MockModelEngine | UsesLlama "('m, 'c, 's) Impl"

definition main_mock ::
  "(('m, 'c, 's) engine_choice \<Rightarrow> ServerConfig \<Rightarrow> string + bool) \<Rightarrow> Args \<Rightarrow> int option \<times> string" where
  "main_mock served a =
     (case served (UsesMock (MockModelEngine_new (mock_config a))) (server_config a) of
        Inl what \<Rightarrow> None
      | Inr ok \<Rightarrow> Some (if ok then 0 else 1),
      ''microvllm '' @ kVersion @ '' (mock engine'' @ (if ar_mock_echo a then '', echo'' else []) @ '')'' @ nl)"

definition main_llama ::
  "('m, 'c, 's) llama \<Rightarrow> string \<Rightarrow> (('m, 'c, 's) engine_choice \<Rightarrow> ServerConfig \<Rightarrow> string + bool) \<Rightarrow> Args \<Rightarrow>
   int option \<times> string" where
  "main_llama L system_info served a =
     (let banner = ''microvllm '' @ kVersion @ '' | '' @ system_info @ nl
      in case (case LlamaModelEngine_new L (llama_config a) of
                 Inl what \<Rightarrow> Inl what
               | Inr impl \<Rightarrow> served (UsesLlama impl) (server_config a)) of
           Inl what \<Rightarrow> (Some 1, banner @ ''fatal: '' @ what @ nl)
         | Inr ok \<Rightarrow> (Some (if ok then 0 else 1), banner))"

definition run_main ::
  "bool \<Rightarrow> (string \<Rightarrow> int) \<Rightarrow> ('m, 'c, 's) llama \<Rightarrow> string \<Rightarrow>
   (('m, 'c, 's) engine_choice \<Rightarrow> ServerConfig \<Rightarrow> string + bool) \<Rightarrow> string \<Rightarrow> string list \<Rightarrow> int option \<times> string" where
  "run_main has_llama undef L system_info served prog args =
     (case parse_args undef prog args of
        Exits code out \<Rightarrow> (Some code, out)
      | Runs a \<Rightarrow>
          if ar_has_mock a then main_mock served a
          else if has_llama then main_llama L system_info served a
          else (Some 1, ''error: built without llama.cpp; only --mock is available'' @ nl))"

section \<open>What the command line can say\<close>

lemma parse_loop_typed: "parse_loop undef prog args a = Runs a' \<Longrightarrow> args_typed a \<Longrightarrow> args_typed a'"
  by (induction undef prog args a rule: parse_loop.induct) (auto split: cli.splits prod.splits dest: parse_arg_typed)

lemma parse_loop_code:
  "parse_loop undef prog args a = Exits code out \<Longrightarrow>
   code = 2 \<or> code = 0 \<and> out = usage_text prog \<and> set args \<inter> {''--help'', ''-h''} \<noteq> {}"
proof (induction undef prog args a rule: parse_loop.induct)
  case (2 undef prog arg rest a)
  show ?case
  proof (cases "parse_arg undef prog arg rest a")
    case (Runs r)
    obtain a' rest' where r: "r = (a', rest')" by (cases r)
    from parse_arg_suffix [of undef prog arg rest a a' rest'] Runs r have "set rest' \<subseteq> set rest" by (simp add: set_mono_suffix)
    moreover from 2(2) Runs r have "parse_loop undef prog rest' a' = Exits code out" by simp
    ultimately show ?thesis using 2(1) [OF Runs r [symmetric]] by auto
  next
    case (Exits code' out')
    with 2(2) parse_arg_code [OF Exits] show ?thesis by auto
  qed
qed simp

lemma Args_default_typed: "args_typed Args_default"
  by (simp add: args_typed_def Args_default_def)

lemma parse_args_Runs:
  "parse_args undef prog args = Runs a \<longleftrightarrow>
   parse_loop undef prog args Args_default = Runs a \<and> (ar_has_mock a \<or> ar_model a \<noteq> [])"
  by (auto simp: parse_args_def usage_error_def split: cli.splits if_splits)

lemma parse_args_Exits:
  "parse_args undef prog args = Exits code out \<Longrightarrow>
   code = 2 \<or> code = 0 \<and> out = usage_text prog \<and> set args \<inter> {''--help'', ''-h''} \<noteq> {}"
  by (auto simp: parse_args_def usage_error_def split: cli.splits if_splits dest: parse_loop_code)

text \<open>The configuration that the server starts with.\<close>

lemma parsed_config_ok:
  assumes "parse_args undef prog args = Runs a" and "0 < n_seq_max caps" and "n_seq_max caps < 2147483648"
  shows "config_ok caps (scheduler_config (server_config a))"
  using assms parse_loop_typed [OF _ Args_default_typed, of undef prog args a]
  by (simp add: parse_args_Runs config_ok_def scheduler_config_def server_config_def args_typed_def)

section \<open>Every configuration can be asked for\<close>

definition render_args :: "Args \<Rightarrow> string list" where
  "render_args a =
     [''--model'', ar_model a, ''--host'', ar_host a, ''--port'', int_str (ar_port a), ''--threads'', int_str (ar_threads a),
      ''--ctx'', nat_str (ar_n_ctx a)] @
     (if ar_has_mock a then [''--mock'', ar_mock a] else []) @
     (if ar_mock_echo a then [''--mock-echo''] else []) @
     [''--queue'', nat_str (ar_queue_depth a), ''--batch-size'', nat_str (ar_batch_size a),
      ''--scheduler'', (case ar_mode a of kContinuous \<Rightarrow> ''continuous'' | kStatic \<Rightarrow> ''static''),
      ''--prefill-chunk'', nat_str (ar_prefill_chunk a), ''--kv-blocks'', nat_str (ar_kv_blocks a),
      ''--block-size'', nat_str (ar_block_size a)] @
     (if ar_no_prefix_cache a then [''--no-prefix-cache''] else []) @
     (if ar_log_requests a then [''--log-requests''] else []) @
     [''--prefix-donors'', nat_str (ar_prefix_donors a)] @
     (if ar_quiet a then [''--quiet''] else [])"

text \<open>The values that \<open>std::atoi\<close> can name.\<close>

definition sayable :: "Args \<Rightarrow> bool" where
  "sayable a \<longleftrightarrow>
     - 2147483648 \<le> ar_port a \<and> ar_port a < 2147483648 \<and> - 2147483648 \<le> ar_threads a \<and> ar_threads a < 2147483648 \<and>
     ar_n_ctx a < 2147483648 \<and> ar_queue_depth a < 2147483648 \<and> 0 < ar_batch_size a \<and> ar_batch_size a < 2147483648 \<and>
     ar_prefill_chunk a < 2147483648 \<and> ar_kv_blocks a < 2147483648 \<and> ar_block_size a < 2147483648 \<and>
     ar_prefix_donors a < 2147483648 \<and>
     (if ar_has_mock a then True else ar_mock a = [] \<and> \<not> ar_mock_echo a \<and> ar_model a \<noteq> [])"

lemma digit_char_class: "d < 10 \<Longrightarrow> is_digit (digit_char d) \<and> \<not> is_space (digit_char d) \<and> digit_char d \<noteq> CHR ''-'' \<and> digit_char d \<noteq> CHR ''+''"
proof -
  assume "d < 10"
  from of_char_digit [OF this] have n: "(of_char (digit_char d) :: nat) = 48 + d" .
  have "digit_char d \<noteq> c" if "(of_char c :: nat) < 48" for c using n that by auto
  from this [of "CHR ''-''"] this [of "CHR ''+''"] n \<open>d < 10\<close> show ?thesis by (simp add: is_digit_def is_space_def)
qed

lemma nat_str_class: "c \<in> set (nat_str n) \<Longrightarrow> is_digit c \<and> \<not> is_space c \<and> c \<noteq> CHR ''-'' \<and> c \<noteq> CHR ''+''"
  by (drule nat_str_digits) (auto dest: digit_char_class)

lemma nat_str_nonempty: "nat_str n \<noteq> []"
  by (simp add: nat_str.simps [of n])

lemma digits_value_nat_str: "digits_value (nat_str n) = n"
proof -
  have "takeWhile is_digit (nat_str n) = nat_str n" using nat_str_class by (simp add: takeWhile_eq_all_conv)
  then show ?thesis unfolding digits_value_def by (simp only: nat_str_val)
qed

lemma atoi_nat_str: "n < 2147483648 \<Longrightarrow> atoi undef (nat_str n) = int n"
proof -
  assume n: "n < 2147483648"
  obtain c cs where s: "nat_str n = c # cs" using nat_str_nonempty [of n] by (cases "nat_str n") auto
  with nat_str_class [of c n] digits_value_nat_str [of n] n show ?thesis by (simp add: atoi_def)
qed

lemma atoi_int_str: "- 2147483648 \<le> x \<Longrightarrow> x < 2147483648 \<Longrightarrow> atoi undef (int_str x) = x"
proof (cases "x < 0")
  case True
  assume "- 2147483648 \<le> x"
  with True show ?thesis by (simp add: int_str_def atoi_def is_space_def digits_value_nat_str)
qed (simp add: int_str_def atoi_nat_str)

lemma as_u32_int: "n < 2147483648 \<Longrightarrow> as_u32 (int n) = n"
  by (simp add: as_u32_def)

lemma as_size_int: "n < 2147483648 \<Longrightarrow> as_size (int n) = n"
  by (simp add: as_size_def)

lemma parse_loop_step:
  "parse_arg undef prog arg rest a = Runs (a', rest') \<Longrightarrow> parse_loop undef prog (arg # rest) a = parse_loop undef prog rest' a'"
  by simp

lemma parse_arg_value_options:
  "parse_arg undef prog ''--model'' (v # rest) a = Runs (a\<lparr>ar_model := v\<rparr>, rest)"
  "parse_arg undef prog ''--host'' (v # rest) a = Runs (a\<lparr>ar_host := v\<rparr>, rest)"
  "parse_arg undef prog ''--port'' (v # rest) a = Runs (a\<lparr>ar_port := atoi undef v\<rparr>, rest)"
  "parse_arg undef prog ''--threads'' (v # rest) a = Runs (a\<lparr>ar_threads := atoi undef v\<rparr>, rest)"
  "parse_arg undef prog ''--ctx'' (v # rest) a = Runs (a\<lparr>ar_n_ctx := as_u32 (atoi undef v)\<rparr>, rest)"
  "parse_arg undef prog ''--mock'' (v # rest) a = Runs (a\<lparr>ar_mock := v, ar_has_mock := True\<rparr>, rest)"
  "parse_arg undef prog ''--queue'' (v # rest) a = Runs (a\<lparr>ar_queue_depth := as_size (atoi undef v)\<rparr>, rest)"
  "parse_arg undef prog ''--prefill-chunk'' (v # rest) a = Runs (a\<lparr>ar_prefill_chunk := as_size (atoi undef v)\<rparr>, rest)"
  "parse_arg undef prog ''--kv-blocks'' (v # rest) a = Runs (a\<lparr>ar_kv_blocks := as_u32 (atoi undef v)\<rparr>, rest)"
  "parse_arg undef prog ''--block-size'' (v # rest) a = Runs (a\<lparr>ar_block_size := as_u32 (atoi undef v)\<rparr>, rest)"
  "parse_arg undef prog ''--prefix-donors'' (v # rest) a = Runs (a\<lparr>ar_prefix_donors := as_u32 (atoi undef v)\<rparr>, rest)"
  by (simp_all add: parse_arg_def need_value_def)

lemma parse_arg_checked_options:
  "as_size (atoi undef v) \<noteq> 0 \<Longrightarrow>
     parse_arg undef prog ''--batch-size'' (v # rest) a = Runs (a\<lparr>ar_batch_size := as_size (atoi undef v)\<rparr>, rest)"
  "parse_arg undef prog ''--scheduler'' ((case m of kContinuous \<Rightarrow> ''continuous'' | kStatic \<Rightarrow> ''static'') # rest) a =
     Runs (a\<lparr>ar_mode := m\<rparr>, rest)"
  by (cases m; simp add: parse_arg_def need_value_def)+

lemma parse_arg_flags:
  "parse_arg undef prog ''--mock-echo'' rest a = Runs (a\<lparr>ar_mock_echo := True, ar_has_mock := True\<rparr>, rest)"
  "parse_arg undef prog ''--no-prefix-cache'' rest a = Runs (a\<lparr>ar_no_prefix_cache := True\<rparr>, rest)"
  "parse_arg undef prog ''--log-requests'' rest a = Runs (a\<lparr>ar_log_requests := True\<rparr>, rest)"
  "parse_arg undef prog ''--quiet'' rest a = Runs (a\<lparr>ar_quiet := True\<rparr>, rest)"
  by (simp_all add: parse_arg_def)

lemmas parse_options = parse_arg_value_options parse_arg_checked_options parse_arg_flags

lemma parse_rendered: "sayable a \<Longrightarrow> parse_loop undef prog (render_args a) Args_default = Runs a"
  unfolding render_args_def
  by (cases a; cases "ar_has_mock a"; cases "ar_mock_echo a"; cases "ar_no_prefix_cache a"; cases "ar_log_requests a"; cases "ar_quiet a")
    (simp_all add: sayable_def parse_options atoi_nat_str atoi_int_str as_u32_int as_size_int Args_default_def)

section \<open>The context that llama.cpp is asked for\<close>

text \<open>
  \<open>--ctx\<close> is the context of one request and is scaled by the number of sequences; the product
  is a 32-bit one.
\<close>

lemma ctx_scaling:
  assumes "ar_batch_size a < 4294967296" and "ar_n_ctx a * max (ar_batch_size a) 16 < 4294967296"
  shows "lc_n_seq_max (llama_config a) = max (ar_batch_size a) 16" and "lc_n_ctx (llama_config a) = ar_n_ctx a * lc_n_seq_max (llama_config a)"
  using assms by (simp_all add: llama_config_def LlamaEngineConfig_default_def u32_def Let_def)

lemma ctx_scaling_wraps:
  "\<exists>a. parse_args undef prog [''--model'', ''m'', ''--ctx'', ''268435456''] = Runs a \<and> ar_n_ctx a = 268435456 \<and>
    lc_n_ctx (llama_config a) = 0"
proof -
  have "takeWhile is_digit ''268435456'' = ''268435456''" by (simp add: is_digit_def)
  then have "atoi undef ''268435456'' = 268435456" by (simp add: atoi_def digits_value_def nat_val_def is_space_def)
  then show ?thesis
    by (simp add: parse_args_def parse_options as_u32_def llama_config_def LlamaEngineConfig_default_def Args_default_def u32_def Let_def)
qed

lemma negative_batch_size:
  "\<exists>a. parse_args undef prog [''--mock'', ''hi'', ''--batch-size'', ''-1''] = Runs a \<and> ar_batch_size a = 18446744073709551615"
proof -
  have "takeWhile is_digit ''1'' = ''1''" by (simp add: is_digit_def)
  then have "atoi undef ''-1'' = - 1" by (simp add: atoi_def digits_value_def nat_val_def is_space_def)
  then have "as_size (atoi undef ''-1'') = 18446744073709551615" by (simp add: as_size_def)
  then show ?thesis by (simp add: parse_args_def parse_options)
qed

end
