(* ===== verification/Mv_Scripted.thy ===== *)
theory Mv_Scripted
  imports Mv_Generator
begin

text \<open>
  Engines whose output is a script: the tokens sampled for a sequence are the script's, one
  after the other from \<open>begin_sequence\<close> on, whatever else is decoded in the same batches.
  The mock engine without echo is one. What a client must receive from such an engine is
  fixed by the request alone, and this theory says what it is.
\<close>

section \<open>Sequences that follow a script\<close>

text \<open>A script gives the token and the end-of-generation flag of each sampling step.\<close>

type_synonym script = "nat \<Rightarrow> Token \<times> bool"

definition step_at :: "script \<Rightarrow> SeqId \<Rightarrow> nat \<Rightarrow> GenStep" where
  "step_at sc q k = \<lparr>gs_seq = q, gs_token = fst (sc k), gs_is_eog = snd (sc k)\<rparr>"

primrec script_text :: "script \<Rightarrow> (Token \<Rightarrow> string) \<Rightarrow> nat \<Rightarrow> string" where
  "script_text sc tx 0 = []"
| "script_text sc tx (Suc k) = script_text sc tx k @ tx (fst (sc k))"

text \<open>
  A sequence has consumed as many tokens of the script as it has counted, stopped at none of
  them before, and if it has stopped, then for the reason that the script gives.
\<close>

definition on_script :: "script \<Rightarrow> (Token \<Rightarrow> string) \<Rightarrow> SequenceState \<Rightarrow> bool" where
  "on_script sc tx st \<longleftrightarrow>
     (let k = completion_tokens (sq_usage st) in
      sq_text st = script_text sc tx k \<and>
      (\<forall>i<k. \<not> snd (sc i) \<and> earliest_stop (script_text sc tx i) (stop (sq_spec st)) = None) \<and>
      sq_reason st \<noteq> kError \<and> (sq_reason st = kEos \<longrightarrow> snd (sc k)) \<and>
      (sq_reason st = kMaxTokens \<longrightarrow> \<not> snd (sc k) \<and> max_tokens (sq_spec st) \<le> k))"

lemma on_script_new: "on_script sc tx (SequenceState_new q spec sink toks)"
  by (simp add: on_script_def SequenceState_new_def Usage_default_def)

lemma on_script_frame:
  assumes "on_script sc tx st" and "sq_text st' = sq_text st" and "sq_spec st' = sq_spec st"
    and "completion_tokens (sq_usage st') = completion_tokens (sq_usage st)"
    and "sq_reason st' = sq_reason st \<or> sq_reason st' = kContextOverflow"
  shows "on_script sc tx st'"
  using assms by (auto simp: on_script_def Let_def)

lemma on_script_finish: "on_script sc tx st \<Longrightarrow> on_script sc tx (finish st)"
  by (erule on_script_frame) simp_all

lemma on_script_overflow: "on_script sc tx st \<Longrightarrow> on_script sc tx (fail st m kContextOverflow)"
  by (erule on_script_frame) (simp_all add: fail_def)

lemma on_script_chunk: "on_script sc tx st \<Longrightarrow> on_script sc tx (snd (take_prefill_chunk st n))"
  by (erule on_script_frame) simp_all

lemma on_script_adopt: "on_script sc tx st \<Longrightarrow> on_script sc tx (adopt_cached_prefix st n)"
  by (erule on_script_frame) simp_all

text \<open>Accepting the next token of the script stays on it, and counts it unless it ends the sequence.\<close>

lemma on_script_accept:
  assumes sc: "on_script sc tx st" and inv: "seq_inv base st" and nf: "\<not> sq_finished st"
    and run: "accept tx cxl st (step_at sc q (completion_tokens (sq_usage st))) = (go, st')"
  shows "on_script sc tx st'"
    and "go \<Longrightarrow> completion_tokens (sq_usage st') = Suc (completion_tokens (sq_usage st)) \<and>
      \<not> snd (sc (completion_tokens (sq_usage st)))"
proof -
  let ?k = "completion_tokens (sq_usage st)" and ?step = "step_at sc q (completion_tokens (sq_usage st))"
  have max: "max_tokens (sq_spec st) < 4294967296" and un: "sq_reason st = kUnset"
    and ns: "earliest_stop (sq_text st) (stop (sq_spec st)) = None"
    using inv nf by (simp_all add: seq_inv_def running_inv_def earliest_stop_None)
  have c: "on_script sc tx (consumed tx st ?step)" "completion_tokens (sq_usage (consumed tx st ?step)) = Suc ?k"
    if "?k < max_tokens (sq_spec st)" "\<not> snd (sc ?k)"
    using sc ns un that consumed_completion [OF that(1) max, of tx ?step]
    by (auto simp: on_script_def Let_def step_at_def less_Suc_eq)
  have fl: "on_script sc tx (flush_upto s n) = on_script sc tx s" for s n by (simp add: on_script_def Let_def)
  have "on_script sc tx st' \<and> (go \<longrightarrow> completion_tokens (sq_usage st') = Suc ?k \<and> \<not> snd (sc ?k))"
  proof (cases rule: accept_cases [of st tx cxl ?step])
    case finished
    with nf show ?thesis by simp
  next
    case eos
    with run sc show ?thesis by (auto simp: on_script_def Let_def step_at_def)
  next
    case budget
    with run sc show ?thesis by (auto simp: on_script_def Let_def step_at_def)
  next
    case (stopped i)
    with c fl [of "consumed tx st ?step" i] run show ?thesis by (auto simp: on_script_def Let_def step_at_def)
  next
    case cancelled
    with c run show ?thesis by (auto simp: on_script_def Let_def step_at_def)
  next
    case continue
    with c run show ?thesis by (auto simp: on_script_def Let_def step_at_def)
  qed
  then show "on_script sc tx st'" "go \<Longrightarrow> completion_tokens (sq_usage st') = Suc ?k \<and> \<not> snd (sc ?k)" by blast+
qed

section \<open>The contract of a scripted engine\<close>

text \<open>
  \<open>drawn\<close> counts the tokens of the script that a sequence has been given since it began;
  \<open>ready\<close> are the states for which the promise holds.
\<close>

locale scripted_engine = model_engine E live for E :: "'e IModelEngine" and live +
  fixes ready :: "'e \<Rightarrow> bool" and drawn :: "'e \<Rightarrow> SeqId \<Rightarrow> nat" and sc :: script and tx :: "Token \<Rightarrow> string"
  assumes begin_script: "ready e \<Longrightarrow> eg_begin_sequence E e s p = (x, e') \<Longrightarrow>
      x = None \<and> ready e' \<and> drawn e' = (drawn e)(s := 0)"
    and release_script: "ready e \<Longrightarrow> ready (eg_release_sequence E e s)"
      "q \<noteq> s \<Longrightarrow> drawn (eg_release_sequence E e s) q = drawn e q"
    and copy_script: "ready e \<Longrightarrow> eg_copy_sequence E e s d n = (x, e') \<Longrightarrow> x = None \<and> ready e' \<and> drawn e' = drawn e"
    and decode_script: "ready e \<Longrightarrow> distinct (map it_seq items) \<Longrightarrow> it_seq ` set items \<subseteq> live e \<Longrightarrow>
      \<exists>e'. eg_decode E e items = (Inr (map (\<lambda>it. step_at sc (it_seq it) (drawn e (it_seq it))) (filter it_sample items)), e') \<and>
        ready e' \<and>
        (\<forall>q. drawn e' q = (if q \<in> it_seq ` set (filter it_sample items) \<and> \<not> snd (sc (drawn e q))
           then Suc (drawn e q) else drawn e q))"
    and piece_script: "ready e \<Longrightarrow> eg_piece E e t = tx t"

section \<open>The mock engine\<close>

definition mock_script :: "string \<Rightarrow> script" where
  "mock_script resp k = (if k < length resp then (byte_token (resp ! k), False) else (kEosToken, True))"

definition mock_drawn :: "MockModelEngine \<Rightarrow> SeqId \<Rightarrow> nat" where
  "mock_drawn e q = (case map_of (mk_sequences e) q of None \<Rightarrow> 0 | Some st \<Rightarrow> ss_gen_index st)"

definition mock_text :: "Token \<Rightarrow> string" where
  "mock_text t = (if 0 \<le> t \<and> t \<le> 255 then [char_of (nat t)] else [])"

lemma mock_piece_text: "mock_piece e t = mock_text t"
  by (simp add: mock_piece_def mock_text_def kEosToken_def kBosToken_def)

text \<open>One item: the sequence's next step, and no other sequence moves.\<close>

lemma mock_item_script:
  assumes "mock_replays resp e" and "it_seq it \<in> mock_live e"
  shows "\<exists>e'. mock_decode_item e it =
      (Inr (if it_sample it then [step_at (mock_script resp) (it_seq it) (mock_drawn e (it_seq it))] else []), e') \<and>
    mock_replays resp e' \<and> mock_live e' = mock_live e \<and>
    mock_drawn e' = (if it_sample it \<and> \<not> snd (mock_script resp (mock_drawn e (it_seq it)))
      then (mock_drawn e)(it_seq it := Suc (mock_drawn e (it_seq it))) else mock_drawn e)"
proof -
  from assms(2) obtain st where st: "map_of (mk_sequences e) (it_seq it) = Some st" by (auto simp: mock_live_def)
  have r: "mk_response_tokens e = map byte_token resp" "\<not> mc_echo_prompt (mk_config e)" using assms(1) by (simp_all add: mock_replays_def)
  show ?thesis
    by (cases "it_sample it"; cases "ss_gen_index st < length resp")
       (auto simp: mock_decode_item_def st r mock_response_def mock_replays_def mock_live_def mock_drawn_def mock_script_def
         step_at_def Let_def update_conv' fun_eq_iff)
qed

lemma mock_decode_script:
  assumes "mock_replays resp e" and "distinct (map it_seq items)" and "it_seq ` set items \<subseteq> mock_live e"
  shows "\<exists>e'. mock_decode e items =
      (Inr (map (\<lambda>it. step_at (mock_script resp) (it_seq it) (mock_drawn e (it_seq it))) (filter it_sample items)), e') \<and>
    mock_replays resp e' \<and>
    (\<forall>q. mock_drawn e' q = (if q \<in> it_seq ` set (filter it_sample items) \<and> \<not> snd (mock_script resp (mock_drawn e q))
       then Suc (mock_drawn e q) else mock_drawn e q))"
  using assms
proof (induction items arbitrary: e)
  case Nil
  then show ?case by simp
next
  case (Cons it items)
  obtain e1 where e1: "mock_decode_item e it =
      (Inr (if it_sample it then [step_at (mock_script resp) (it_seq it) (mock_drawn e (it_seq it))] else []), e1)"
      "mock_replays resp e1" "mock_live e1 = mock_live e"
      "mock_drawn e1 = (if it_sample it \<and> \<not> snd (mock_script resp (mock_drawn e (it_seq it)))
        then (mock_drawn e)(it_seq it := Suc (mock_drawn e (it_seq it))) else mock_drawn e)"
    using mock_item_script [OF Cons.prems(1), of it] Cons.prems(3) by auto
  have same: "mock_drawn e1 (it_seq x) = mock_drawn e (it_seq x)" if "x \<in> set items" for x
  proof -
    from that Cons.prems(2) have "it_seq x \<noteq> it_seq it" by (metis distinct.simps(2) imageI list.map(2) list.set_map)
    then show ?thesis by (simp add: e1(4))
  qed
  obtain e2 where e2: "mock_decode e1 items =
      (Inr (map (\<lambda>it. step_at (mock_script resp) (it_seq it) (mock_drawn e1 (it_seq it))) (filter it_sample items)), e2)"
      "mock_replays resp e2"
      "\<forall>q. mock_drawn e2 q = (if q \<in> it_seq ` set (filter it_sample items) \<and> \<not> snd (mock_script resp (mock_drawn e1 q))
        then Suc (mock_drawn e1 q) else mock_drawn e1 q)"
    using Cons.IH [OF e1(2)] Cons.prems(2,3) e1(3) by auto
  have "map (\<lambda>it. step_at (mock_script resp) (it_seq it) (mock_drawn e1 (it_seq it))) (filter it_sample items) =
      map (\<lambda>it. step_at (mock_script resp) (it_seq it) (mock_drawn e (it_seq it))) (filter it_sample items)"
    using same by simp
  moreover have "mock_drawn e2 q = (if q \<in> it_seq ` set (filter it_sample (it # items)) \<and> \<not> snd (mock_script resp (mock_drawn e q))
       then Suc (mock_drawn e q) else mock_drawn e q)" for q
    using e2(3) [rule_format, of q] Cons.prems(2) by (auto simp: e1(4))
  ultimately show ?case using e1(1) e2(1,2) by auto
qed

interpretation mock_script: scripted_engine mock_engine mock_live "mock_replays resp" mock_drawn "mock_script resp" mock_text
  for resp :: string
proof unfold_locales
  fix e s p x e'
  assume "mock_replays resp e" "eg_begin_sequence mock_engine e s p = (x, e')"
  then show "x = None \<and> mock_replays resp e' \<and> mock_drawn e' = (mock_drawn e)(s := 0)"
    by (auto simp: mock_begin_sequence_def mock_replays_def mock_drawn_def SeqState_default_def update_conv' fun_eq_iff)
next
  fix e s d n x e'
  assume "mock_replays resp e" "eg_copy_sequence mock_engine e s d n = (x, e')"
  then show "x = None \<and> mock_replays resp e' \<and> mock_drawn e' = mock_drawn e"
    by (auto simp: mock_copy_sequence_def mock_replays_def mock_drawn_def Let_def update_conv' fun_eq_iff
        split: if_splits option.splits)
next
  fix e and items :: "BatchItem list"
  assume "mock_replays resp e" "distinct (map it_seq items)" "it_seq ` set items \<subseteq> mock_live e"
  from mock_decode_script [OF this]
  show "\<exists>e'. eg_decode mock_engine e items =
      (Inr (map (\<lambda>it. step_at (mock_script resp) (it_seq it) (mock_drawn e (it_seq it))) (filter it_sample items)), e') \<and>
    mock_replays resp e' \<and>
    (\<forall>q. mock_drawn e' q = (if q \<in> it_seq ` set (filter it_sample items) \<and> \<not> snd (mock_script resp (mock_drawn e q))
       then Suc (mock_drawn e q) else mock_drawn e q))" by simp
qed (auto simp: mock_release_sequence_def mock_replays_def mock_drawn_def delete_conv' mock_piece_text)

section \<open>What the mock's script makes of a request\<close>

lemma mock_text_byte [simp]: "mock_text (byte_token c) = [c]"
  using piece_byte_token [of undefined c] by (simp add: mock_piece_text)

lemma mock_script_text: "k \<le> length resp \<Longrightarrow> script_text (mock_script resp) mock_text k = take k resp"
  by (induction k) (simp_all add: mock_script_def take_Suc_conv_app_nth)

lemma consume_skip:
  assumes "\<And>i. 0 < i \<Longrightarrow> i \<le> j \<Longrightarrow> earliest_stop (take i t) stops = None" and "j \<le> length t"
  shows "consume_text [] t stops = consume_text (take j t) (drop j t) stops"
  using assms
proof (induction j)
  case 0
  then show ?case by simp
next
  case (Suc j)
  then have "j < length t" by simp
  then have d: "drop j t = t ! j # drop (Suc j) t" "take (Suc j) t = take j t @ [t ! j]"
    by (simp_all add: Cons_nth_drop_Suc take_Suc_conv_app_nth)
  have "consume_text [] t stops = consume_text (take j t) (drop j t) stops" using Suc.prems by (intro Suc.IH) simp_all
  also have "\<dots> = consume_text (take (Suc j) t) (drop (Suc j) t) stops" using Suc.prems(1) [of "Suc j"] by (simp add: d)
  finally show ?case .
qed

lemma on_mock_script_text:
  assumes "on_script (mock_script resp) mock_text st"
  shows "completion_tokens (sq_usage st) \<le> length resp" and "sq_text st = take (completion_tokens (sq_usage st)) resp"
proof -
  let ?k = "completion_tokens (sq_usage st)"
  have S: "\<And>i. i < ?k \<Longrightarrow> \<not> snd (mock_script resp i)" "sq_text st = script_text (mock_script resp) mock_text ?k"
    using assms by (simp_all add: on_script_def Let_def)
  show kl: "?k \<le> length resp"
  proof (rule ccontr)
    assume "\<not> ?k \<le> length resp"
    then show False using S(1) [of "length resp"] by (simp add: mock_script_def)
  qed
  show "sq_text st = take ?k resp" using S(2) kl by (simp add: mock_script_text)
qed

text \<open>
  The text and the reason of a sequence that ended on the script are those that
  \<open>generate_one_mock\<close> gives for a request served alone.
\<close>

lemma on_mock_script_ends:
  assumes sc: "on_script (mock_script resp) mock_text st" and inv: "seq_inv base st" and fin: "sq_finished st"
    and r: "sq_reason st \<in> {kEos, kMaxTokens, kStopString}"
  shows "sq_text st = consume_text [] (take (max_tokens (sq_spec st)) resp) (stop (sq_spec st)) \<and>
    sq_reason st = (if earliest_stop (sq_text st) (stop (sq_spec st)) \<noteq> None then kStopString
      else if length resp \<le> max_tokens (sq_spec st) then kEos else kMaxTokens)"
proof -
  let ?k = "completion_tokens (sq_usage st)" and ?m = "max_tokens (sq_spec st)" and ?stops = "stop (sq_spec st)"
  have S: "\<And>i. i < ?k \<Longrightarrow> \<not> snd (mock_script resp i) \<and> earliest_stop (script_text (mock_script resp) mock_text i) ?stops = None"
    "sq_text st = script_text (mock_script resp) mock_text ?k" "sq_reason st = kEos \<Longrightarrow> snd (mock_script resp ?k)"
    "sq_reason st = kMaxTokens \<Longrightarrow> \<not> snd (mock_script resp ?k) \<and> ?m \<le> ?k"
    using sc by (simp_all add: on_script_def Let_def)
  have km: "?k \<le> ?m" and st: "stopped_inv st" using inv fin by (simp_all add: seq_inv_def)
  note kl = on_mock_script_text(1) [OF sc] and t = on_mock_script_text(2) [OF sc]
  have ns: "earliest_stop (take i resp) ?stops = None" if "i < ?k" for i
    using S(1) [OF that] kl that by (simp add: mock_script_text)
  have skip: "consume_text [] (take ?m resp) ?stops = consume_text (take j resp) (drop j (take ?m resp)) ?stops"
    if "j \<le> ?k" "j < ?k \<or> earliest_stop (take ?k resp) ?stops = None" for j
  proof -
    have "earliest_stop (take i (take ?m resp)) ?stops = None" if "i \<le> j" for i
      using ns [of i] \<open>j \<le> ?k\<close> \<open>j < ?k \<or> _\<close> that km by (cases "i = ?k") (auto simp: min_absorb1)
    from consume_skip [of j "take ?m resp" ?stops, OF this] that(1) km kl show ?thesis by (simp add: min_absorb1)
  qed
  show ?thesis
  proof (cases "sq_reason st = kStopString")
    case True
    then have e: "earliest_stop (take ?k resp) ?stops \<noteq> None" using st t by (simp add: stopped_inv_def)
    then have k0: "0 < ?k" by (cases "?k = 0") (auto simp: earliest_stop_None stop_at_Nil)
    then obtain j where j: "?k = Suc j" by (cases ?k) auto
    have "j < length resp" "j < ?m" using j kl km by simp_all
    then have d: "drop j (take ?m resp) = resp ! j # drop (Suc j) (take ?m resp)" "take (Suc j) resp = take j resp @ [resp ! j]"
      by (simp_all add: Cons_nth_drop_Suc [symmetric] take_Suc_conv_app_nth)
    have "consume_text [] (take ?m resp) ?stops = take ?k resp" using skip [of j] j e by (simp add: d)
    with True t e show ?thesis by simp
  next
    case False
    then have e: "earliest_stop (take ?k resp) ?stops = None" using st t by (simp add: stopped_inv_def earliest_stop_None)
    have "length resp \<le> ?k \<or> ?m \<le> ?k" using r False S(3,4) by (auto simp: mock_script_def split: if_splits)
    then have "consume_text [] (take ?m resp) ?stops = take ?k resp" using skip [of ?k] e by auto
    moreover have "sq_reason st = (if length resp \<le> ?m then kEos else kMaxTokens)"
      using r False S(3,4) km kl by (auto simp: mock_script_def split: if_splits)
    ultimately show ?thesis using t e by simp
  qed
qed

end
