(* ===== verification/Mv_Transparency.thy ===== *)
theory Mv_Transparency
  imports Mv_ContinuousRun Mv_Scripted
begin

text \<open>
  Continuous batching does not show in the responses: on an engine that follows a script,
  every sequence of the batch is given the tokens it would be given alone, however the
  scheduler mixes prefills and decodes, shares prefixes, retains donors and preempts. The
  proof adds to the loop invariant what ties each job to the engine's state.
\<close>

section \<open>What the scheduler does to the engine\<close>

lemma retire_engine: "sd_engine (retire X E s j) = eg_release_sequence E (sd_engine (retained E s j)) (job_seq j)"
  by (simp add: retire_def Let_def retained_def job_seq_def release_def split: option.split)

lemma take_work_same:
  "take_work s = Some s' \<Longrightarrow> sd_engine s' = sd_engine s \<and> lp_active s' = lp_active s \<and> sd_fulfilled s' = sd_fulfilled s"
proof (induction s arbitrary: s' rule: take_work.induct)
  case (1 s)
  show ?case
  proof (cases "length (lp_pending s) + length (lp_active s) < cf_max_batch_size (sd_config s)")
    case True
    with 1(2) obtain r s1 where t: "take_one s = Some (r, s1)"
      by (cases "take_one s") (auto simp: take_work.simps [of s])
    note F = take_one_frame [OF t]
    show ?thesis
    proof (cases r)
      case None
      with 1(2) True t F show ?thesis by (simp add: take_work.simps [of s])
    next
      case (Some x)
      with 1(2) True t have "take_work (s1\<lparr>lp_pending := lp_pending s1 @ [x]\<rparr>) = Some s'" by (simp add: take_work.simps [of s])
      from 1(1) [OF True t [unfolded Some] refl refl this] F show ?thesis by simp
    qed
  next
    case False
    with 1(2) show ?thesis by (simp add: take_work.simps [of s])
  qed
qed

text \<open>The jobs of a batch before and after it is built differ only in how far their prompt has gone.\<close>

definition advanced :: "Job \<Rightarrow> Job \<Rightarrow> bool" where
  "advanced j j' \<longleftrightarrow> j' = j \<or> (\<exists>n. j' = j\<lparr>jb_state := snd (take_prefill_chunk (jb_state j) n)\<rparr>)"

lemma build_prefills_advanced: "list_all2 advanced js (fst (build_prefills cap js budget))"
  by (induction js arbitrary: budget) (auto simp: Let_def split_beta advanced_def)

lemma build_batch_advanced: "list_all2 advanced active (fst (build_batch nb chunk active))"
  using build_prefills_advanced [of active] by (simp add: build_batch_def Let_def split_beta)

lemma advanced_facts:
  assumes "advanced j j'"
  shows "job_seq j' = job_seq j" and "job_done j' = job_done j"
    and "completion_tokens (sq_usage (jb_state j')) = completion_tokens (sq_usage (jb_state j))"
    and "on_script sc tx (jb_state j) \<Longrightarrow> on_script sc tx (jb_state j')"
  using assms by (auto simp: advanced_def job_seq_def job_done_def on_script_chunk)

text \<open>The items of a batch belong to different unfinished jobs; those that sample are the sampling list.\<close>

lemma build_decodes_items:
  "map it_seq (fst (build_decodes js b)) = fst (snd (build_decodes js b)) \<and> list_all it_sample (fst (build_decodes js b)) \<and>
   subseq (map it_seq (fst (build_decodes js b))) (map job_seq (filter (\<lambda>j. \<not> job_done j \<and> \<not> prefilling (jb_state j)) js))"
  by (induction js b rule: build_decodes.induct) (auto simp: Let_def split_beta decode_item_def job_seq_def)

lemma build_prefills_items:
  "map it_seq (filter it_sample (fst (snd (build_prefills cap js b)))) = snd (snd (build_prefills cap js b)) \<and>
   subseq (map it_seq (fst (snd (build_prefills cap js b)))) (map job_seq (filter (\<lambda>j. \<not> job_done j \<and> prefilling (jb_state j)) js))"
proof (induction js arbitrary: b)
  case Nil
  then show ?case by simp
next
  case (Cons j js)
  have "it_seq (fst (take_prefill_chunk (jb_state j) n)) = job_seq j" for n
    by (simp add: take_prefill_chunk_def Let_def job_seq_def)
  with Cons show ?case by (auto simp: Let_def split_beta)
qed

lemma build_batch_items:
  assumes "distinct (map job_seq active)" and b: "build_batch nb chunk active = (active', items, qs)"
  shows "distinct (map it_seq items)" and "it_seq ` set items \<subseteq> job_seq ` {j \<in> set active. \<not> job_done j}"
    and "qs = map it_seq (filter it_sample items)"
proof -
  define D where "D = build_decodes active nb"
  define P where "P = build_prefills (if chunk = 0 then nb else chunk) active (snd (snd D))"
  have eq: "items = fst D @ fst (snd P)" "qs = fst (snd D) @ snd (snd P)"
    using b by (simp_all add: build_batch_def Let_def split_beta D_def [symmetric] P_def [symmetric])
  note d = build_decodes_items [of active nb, folded D_def]
  note p = build_prefills_items [of "if chunk = 0 then nb else chunk" active "snd (snd D)", folded P_def]
  have "filter it_sample (fst D) = fst D" using d by (simp add: list_all_iff)
  with d p eq show "qs = map it_seq (filter it_sample items)" by simp
  have s1: "set (map it_seq (fst D)) \<subseteq> job_seq ` {j \<in> set active. \<not> job_done j \<and> \<not> prefilling (jb_state j)}"
    using subseq_set [OF conjunct2 [OF conjunct2 [OF d]]] by auto
  have s2: "set (map it_seq (fst (snd P))) \<subseteq> job_seq ` {j \<in> set active. \<not> job_done j \<and> prefilling (jb_state j)}"
    using subseq_set [OF conjunct2 [OF p]] by auto
  from s1 s2 show "it_seq ` set items \<subseteq> job_seq ` {j \<in> set active. \<not> job_done j}" unfolding eq by auto
  have inj: "inj_on job_seq (set active)" using assms(1) by (simp add: distinct_map)
  have "set (map it_seq (fst D)) \<inter> set (map it_seq (fst (snd P))) = {}"
  proof -
    have "job_seq ` {j \<in> set active. \<not> job_done j \<and> \<not> prefilling (jb_state j)} \<inter>
        job_seq ` {j \<in> set active. \<not> job_done j \<and> prefilling (jb_state j)} = {}"
      using inj by (auto simp: inj_on_def)
    with s1 s2 show ?thesis by blast
  qed
  moreover have "distinct (map it_seq (fst D))" "distinct (map it_seq (fst (snd P)))"
    using subseq_distinct [OF conjunct2 [OF conjunct2 [OF d]]] subseq_distinct [OF conjunct2 [OF p]] assms(1)
    by (simp_all add: distinct_map_filter)
  ultimately show "distinct (map it_seq items)" unfolding eq by simp
qed

lemma finish_keeps_end: "sq_finished st \<Longrightarrow> sq_finished (finish st)" "sq_finished (fail st m k)"
  by (simp_all add: finish_def fail_def flush_upto_def Let_def)

lemma job_at_put_other: "q \<noteq> job_seq j \<Longrightarrow> job_at q (put_job j active) = job_at q active"
  by (induction active) (auto simp: job_at_def put_job_def)

text \<open>One turn of the accept loop replaces the state of one job.\<close>

lemma accept_one_effect:
  assumes "job_at q (lp_active s) = Some job" and "at_step steps k = Inr step"
    and run: "accept_one X E steps k q s = (x, short, s')"
  shows "x = None \<and> sd_engine s' = sd_engine s \<and> sd_fulfilled s' = sd_fulfilled s \<and>
    (\<exists>j' cxl go st. lp_active s' = put_job j' (lp_active s) \<and>
      accept (eg_piece E (sd_engine s)) cxl (jb_state job) step = (go, st) \<and> jb_state j' = (if go then st else finish st))"
proof -
  obtain job1 s1 where st: "stamp_first_token X s job = (job1, s1)" by fastforce
  note S = stamp_first_token_frame [OF st]
  obtain tk where s1: "s1 = s\<lparr>sd_ticks := tk\<rparr>" using S(1) by blast
  obtain go st1 where a: "accept (eg_piece E (sd_engine s)) (xt_cancelled X (rq_id (jb_request job1)) tk) (jb_state job) step = (go, st1)"
    by fastforce
  have ac: "accept_job X E s1 job1 step = (go, job1\<lparr>jb_state := st1\<rparr>, s\<lparr>sd_ticks := Suc tk\<rparr>)"
    using a S(3) by (simp add: accept_job_def s1)
  have p: "sd_engine (publish_prefix s j) = sd_engine s \<and> sd_fulfilled (publish_prefix s j) = sd_fulfilled s \<and>
      lp_active (publish_prefix s j) = lp_active s" for s :: "('a, 'b) Loop_scheme" and j
    by (simp add: publish_prefix_def Let_def)
  have "x = None \<and> sd_engine s' = sd_engine s \<and> sd_fulfilled s' = sd_fulfilled s \<and>
    (\<exists>j'. lp_active s' = put_job j' (lp_active s) \<and> jb_state j' = (if go then st1 else finish st1))"
  proof (cases go)
    case False
    with run show ?thesis
      by (auto simp: accept_one_def assms(1,2) st ac intro!: exI [of _ "job1\<lparr>jb_state := finish st1\<rparr>"])
  next
    case True
    let ?job2 = "job1\<lparr>jb_state := st1\<rparr>"
    obtain r b t where en: "ensure_capacity (sd_blocks s) (job_table ?job2) (tokens_needed ?job2) = (r, b, t)"
      by (metis prod_cases3)
    let ?job3 = "?job2\<lparr>jb_blocks := Some t\<rparr>"
    let ?s3 = "s\<lparr>sd_ticks := Suc tk, sd_blocks := b, lp_active := put_job ?job3 (lp_active s)\<rparr>"
    have "accept_one X E steps k q s = (None, \<not> r, if r then publish_prefix ?s3 ?job3 else ?s3)"
      by (simp add: accept_one_def assms(1,2) st ac True en Let_def del: job_table_upd)
    with run p [of ?s3 ?job3] True show ?thesis by (cases r) (auto intro!: exI [of _ ?job3])
  qed
  with a show ?thesis by blast
qed

section \<open>Jobs tied to the engine\<close>

context scripted_engine
begin

text \<open>
  A job is tied to the engine's state: it is on the script, and while it runs its sequence is
  live and the engine has drawn as many tokens for it as it has counted. For the sequences in
  \<open>P\<close> a step has been decoded that is still to be accepted.
\<close>

definition job_tied :: "SeqId set \<Rightarrow> 'e \<Rightarrow> Job \<Rightarrow> bool" where
  "job_tied P e j \<longleftrightarrow> on_script sc tx (jb_state j) \<and>
     (\<not> job_done j \<longrightarrow> job_seq j \<in> live e \<and>
        (let k = completion_tokens (sq_usage (jb_state j)) in
         drawn e (job_seq j) = k + (if job_seq j \<in> P \<and> \<not> snd (sc k) then 1 else 0)))"

definition delivered_script :: "Request \<times> GenResult \<times> sink_call list \<Rightarrow> bool" where
  "delivered_script d \<longleftrightarrow> (case d of (r, g, calls) \<Rightarrow>
     \<exists>st. seq_inv (sink_base r) st \<and> sq_notified st \<and> sq_spec st = rq_spec r \<and>
       gr_text g = emitted_text st \<and> gr_reason g = sq_reason st \<and> on_script sc tx st)"

definition script_inv :: "SeqId set \<Rightarrow> ('e, 'm) Loop_scheme \<Rightarrow> bool" where
  "script_inv P s \<longleftrightarrow> ready (sd_engine s) \<and> list_all (job_tied P (sd_engine s)) (lp_active s) \<and>
     list_all delivered_script (sd_fulfilled s)"

text \<open>An engine state in which the given sequences are as they were.\<close>

definition same_on :: "SeqId set \<Rightarrow> 'e \<Rightarrow> 'e \<Rightarrow> bool" where
  "same_on Q e e' \<longleftrightarrow> ready e' \<and> (\<forall>q\<in>Q. (q \<in> live e \<longrightarrow> q \<in> live e') \<and> drawn e' q = drawn e q)"

lemma same_on_refl: "ready e \<Longrightarrow> same_on Q e e"
  by (simp add: same_on_def)

lemma same_on_trans: "same_on Q e e1 \<Longrightarrow> same_on Q e1 e2 \<Longrightarrow> same_on Q e e2"
  by (auto simp: same_on_def)

lemma same_on_mono: "same_on Q e e' \<Longrightarrow> R \<subseteq> Q \<Longrightarrow> same_on R e e'"
  by (auto simp: same_on_def)

lemma same_on_ready: "same_on Q e e' \<Longrightarrow> ready e'"
  by (simp add: same_on_def)

lemma tied_same:
  "list_all (job_tied P e) js \<Longrightarrow> same_on (job_seq ` set js) e e' \<Longrightarrow> list_all (job_tied P e') js"
  by (auto simp: job_tied_def same_on_def list_all_iff)

lemma release_same: "ready e \<Longrightarrow> s \<notin> Q \<Longrightarrow> same_on Q e (eg_release_sequence E e s)"
  by (auto simp: same_on_def release_live release_script(1) intro!: release_script(2))

lemma begin_same: "ready e \<Longrightarrow> eg_begin_sequence E e s p = (x, e') \<Longrightarrow> s \<notin> Q \<Longrightarrow> same_on Q e e'"
  using begin_script [of e s p x e'] begin_live [of e s p e'] by (auto simp: same_on_def)

lemma copy_same: "ready e \<Longrightarrow> eg_copy_sequence E e s d n = (x, e') \<Longrightarrow> same_on Q e e'"
  using copy_script [of e s d n x e'] copy_live [of e s d n x e'] by (auto simp: same_on_def)

subsection \<open>Donors use slots above the batch\<close>

lemma reclaim_donor_same:
  assumes "reclaim_donor_blocks E s = (b, s')" and "kv_acc n (sd_blocks s) (sd_prefix_cache s) held L" and "ready (sd_engine s)"
  shows "same_on {q. q < int n} (sd_engine s) (sd_engine s')"
proof (cases "evict_lru_retained (sd_prefix_cache s)")
  case (Pair v c)
  show ?thesis
  proof (cases v)
    case None
    with assms Pair show ?thesis by (auto simp: reclaim_donor_blocks_def same_on_refl)
  next
    case (Some e)
    have "int n \<le> en_seq e"
      using kv_donor_slot_range [OF assms(2), of e] evict_lru_Some(1) [OF kv_accD(2) [OF assms(2)], of e c] Pair Some by auto
    with assms Pair Some release_same [of "sd_engine s" "en_seq e" "{q. q < int n}"] show ?thesis
      by (auto simp: reclaim_donor_blocks_def release_donor_def)
  qed
qed

lemma loop_inv_acc:
  assumes "loop_inv s"
  obtains L where "kv_acc (cf_max_batch_size (sd_config s)) (sd_blocks s) (sd_prefix_cache s) (holders_of (lp_active s)) L"
  using inv_coreD(4) [OF assms [unfolded loop_inv_def]] by blast

lemma loop_inv_slots:
  assumes "loop_inv s"
  shows "distinct (map job_seq (lp_active s))" and "job_seq ` set (lp_active s) \<subseteq> {q. q < int (cf_max_batch_size (sd_config s))}"
    and "set (lp_free_slots s) \<inter> job_seq ` set (lp_active s) = {}"
  using slots_facts(1,3,4) [OF inv_coreD(1) [OF assms [unfolded loop_inv_def]]] by (simp, blast, blast)

lemma reclaim_until_same:
  "loop_inv s \<Longrightarrow> ready (sd_engine s) \<Longrightarrow>
    same_on {q. q < int (cf_max_batch_size (sd_config s))} (sd_engine s) (sd_engine (reclaim_until E limit s))"
proof (induction "length (pc_entries (sd_prefix_cache s))" arbitrary: s rule: less_induct)
  case less
  show ?case
  proof (cases "free_blocks (sd_blocks s) < limit")
    case True
    obtain b s1 where b: "reclaim_donor_blocks E s = (b, s1)" by (cases "reclaim_donor_blocks E s")
    obtain L where L: "kv_acc (cf_max_batch_size (sd_config s)) (sd_blocks s) (sd_prefix_cache s) (holders_of (lp_active s)) L"
      by (rule loop_inv_acc [OF less.prems(1)])
    note one = reclaim_donor_same [OF b L less.prems(2)]
    show ?thesis
    proof (cases b)
      case True
      with b have "length (pc_entries (sd_prefix_cache s1)) < length (pc_entries (sd_prefix_cache s))"
        using reclaim_donor_shorter [of E s s1] by simp
      from less.hyps [OF this reclaim_donor_inv [OF less.prems(1) b] same_on_ready [OF one]] one True b
      show ?thesis using reclaim_donor_frame(1) [OF b] \<open>free_blocks (sd_blocks s) < limit\<close>
        by (auto simp: reclaim_until.simps [of E limit s] intro: same_on_trans)
    next
      case False
      with one b \<open>free_blocks (sd_blocks s) < limit\<close> show ?thesis by (simp add: reclaim_until.simps [of E limit s])
    qed
  next
    case False
    with less.prems show ?thesis by (simp add: reclaim_until.simps [of E limit s] same_on_refl)
  qed
qed

lemma donor_slot_same:
  assumes "donor_slot E s = (slot, s1)" and acc: "kv_acc n (sd_blocks s) (sd_prefix_cache s) held L" and "ready (sd_engine s)"
  shows "same_on {q. q < int n} (sd_engine s) (sd_engine s1)"
proof (cases "take_donor_slot (sd_prefix_cache s)")
  case (Pair r c)
  show ?thesis
  proof (cases r)
    case (Some q)
    with assms Pair show ?thesis by (auto simp: donor_slot_def same_on_refl)
  next
    case None
    with Pair have c: "c = sd_prefix_cache s" by (simp add: take_donor_slot_def split: if_splits)
    obtain b s2 where b: "reclaim_donor_blocks E s = (b, s2)" by fastforce
    from assms(1) Pair None c b have "sd_engine s1 = sd_engine s2" by (cases b) (auto simp: donor_slot_def split: prod.splits)
    with reclaim_donor_same [OF b acc assms(3)] show ?thesis by simp
  qed
qed

lemma donate_same:
  assumes "ready (sd_engine s)" and "int n \<le> slot"
  shows "same_on {q. q < int n} (sd_engine s) (sd_engine (donate E s job k slot))"
proof -
  obtain x1 e1 where b: "eg_begin_sequence E (sd_engine s) slot SamplingParams_default = (x1, e1)" by fastforce
  obtain x2 e2 where c: "eg_copy_sequence E e1 (job_seq job) slot (i32 (int k)) = (x2, e2)" by fastforce
  have r1: "x1 = None" "ready e1" using begin_script [OF assms(1) b] by simp_all
  have x2: "x2 = None" using copy_script [OF r1(2) c] by simp
  have "same_on {q. q < int n} (sd_engine s) e1" using begin_same [OF assms(1) b] assms(2) by simp
  from same_on_trans [OF this copy_same [OF r1(2) c]] show ?thesis
    by (simp add: donate_def b c r1(1) x2 Let_def)
qed

lemma retained_same:
  assumes acc: "kv_acc n (sd_blocks s) (sd_prefix_cache s) held L" and "job_seq j < int n" and r: "ready (sd_engine s)"
  shows "same_on {q. q < int n} (sd_engine s) (sd_engine (retained E s j))"
proof -
  let ?s1 = "s\<lparr>sd_prefix_cache := evict_sequence (sd_prefix_cache s) (job_seq j)\<rparr>"
  let ?j = "j\<lparr>jb_state := finish (jb_state j)\<rparr>"
  have acc1: "kv_acc n (sd_blocks ?s1) (sd_prefix_cache ?s1) held L" using kv_evict(1) [OF acc assms(2)] by simp
  obtain slot s2 where d: "donor_slot E ?s1 = (slot, s2)" by fastforce
  have same: "same_on {q. q < int n} (sd_engine s) (sd_engine s2)" using donor_slot_same [OF d acc1] r by simp
  have "sd_engine (retain_prefix E ?s1 ?j) \<in> {sd_engine s, sd_engine s2} \<or>
      (\<exists>sl k. slot = Some sl \<and> retain_prefix E ?s1 ?j = donate E s2 ?j k sl)"
    using d by (cases slot) (auto simp: retain_prefix_def Let_def)
  then show ?thesis
  proof (elim disjE exE conjE)
    fix sl k assume sl: "slot = Some sl" "retain_prefix E ?s1 ?j = donate E s2 ?j k sl"
    have "int n \<le> sl" using donor_slot_kv(3) [OF d acc1 sl(1)] .
    from same_on_trans [OF same donate_same [OF same_on_ready [OF same] this]] show ?thesis by (simp add: retained_def sl(2))
  qed (use same r in \<open>auto simp: retained_def same_on_refl\<close>)
qed

lemma retire_same:
  assumes "kv_acc n (sd_blocks s) (sd_prefix_cache s) held L" and "job_seq j < int n" and "ready (sd_engine s)"
  shows "same_on ({q. q < int n} - {job_seq j}) (sd_engine s) (sd_engine (retire X E s j))"
proof -
  note R = retained_same [OF assms]
  from same_on_trans [OF same_on_mono [OF R] release_same [OF same_on_ready [OF R]]] show ?thesis
    by (simp add: retire_engine)
qed

subsection \<open>Admission\<close>

lemma make_job_tied:
  assumes run: "make_job E e r q = (x, job, e')" and ready: "ready e"
  shows "x = None" and "job_tied {} e' job" and "q \<notin> Q \<Longrightarrow> same_on Q e e'" and "ready e'"
proof -
  let ?st = "SequenceState_new q (rq_spec r) (sink_base r) (eg_tokenize E e (prompt (rq_spec r)) True)"
  from run have b: "eg_begin_sequence E e q (sampling (rq_spec r)) = (x, e')"
    and "\<exists>b m. jb_state job = (if b then fail ?st m kContextOverflow else ?st)"
    by (fastforce simp: make_job_def Let_def sink_base_def split: prod.splits)+
  then obtain b m where st: "jb_state job = (if b then fail ?st m kContextOverflow else ?st)" by blast
  note B = begin_script [OF ready b]
  show "x = None" "ready e'" using B by simp_all
  show "q \<notin> Q \<Longrightarrow> same_on Q e e'" by (rule begin_same [OF ready b])
  have "q \<in> live e'" using begin_live [of e q _ e'] b B by blast
  moreover have "on_script sc tx (jb_state job)" using on_script_new on_script_overflow by (simp add: st)
  ultimately show "job_tied {} e' job"
    using B by (auto simp: job_tied_def job_seq_def job_done_def st SequenceState_new_def Usage_default_def)
qed

lemma job_tied_state: "jb_state j' = jb_state j \<Longrightarrow> job_tied P e j' = job_tied P e j"
  by (simp add: job_tied_def job_seq_def job_done_def)

lemma job_tied_same: "job_tied P e j \<Longrightarrow> same_on {job_seq j} e e' \<Longrightarrow> job_tied P e' j"
  using tied_same [of P e "[j]" e'] by simp

lemma delivery_script:
  "job_ok j \<Longrightarrow> sq_notified (jb_state j) \<Longrightarrow> on_script sc tx (jb_state j) \<Longrightarrow> delivered_script (delivery X n j)"
  by (auto simp: delivery_def delivered_script_def job_ok_def job_result_def)

lemma share_prefix_tied:
  assumes "job_tied {} (sd_engine s) job" and "ready (sd_engine s)"
  shows "\<exists>job' s'. share_prefix E s job = Inr (job', s') \<and> job_tied {} (sd_engine s') job' \<and> job_seq job' = job_seq job \<and>
    same_on Q (sd_engine s) (sd_engine s') \<and> lp_active s' = lp_active s \<and> sd_fulfilled s' = sd_fulfilled s"
proof (cases "cf_prefix_caching (sd_config s) \<and> \<not> job_done job")
  case False
  with assms show ?thesis by (auto simp: share_prefix_def same_on_refl)
next
  case True
  obtain hit c where f: "find_longest (sd_prefix_cache s) (sq_prompt (jb_state job)) (ba_block_size (sd_blocks s)) = (hit, c)"
    by fastforce
  show ?thesis
  proof (cases "\<exists>en. hit = Some en \<and> en_seq en \<noteq> job_seq job")
    case False
    with assms True f show ?thesis by (cases hit) (auto simp: share_prefix_def same_on_refl)
  next
    case hit: True
    then obtain en where en: "hit = Some en" "en_seq en \<noteq> job_seq job" by blast
    obtain x e' where cp: "eg_copy_sequence E (sd_engine s) (en_seq en) (job_seq job) (i32 (int (en_n_tokens en))) = (x, e')"
      by fastforce
    have x: "x = None" using copy_script [OF assms(2) cp] by simp
    obtain a t where ad: "adopt_shared_prefix (sd_blocks s) (job_table job) (en_blocks en) (en_n_tokens en) = (a, t)" by fastforce
    let ?j = "job\<lparr>jb_blocks := Some t, jb_state := adopt_cached_prefix (jb_state job) (en_n_tokens en)\<rparr>"
    have "job_tied {} (sd_engine s) ?j"
      using assms(1) by (auto simp: job_tied_def job_seq_def job_done_def on_script_adopt)
    then have "job_tied {} e' ?j" by (rule job_tied_same) (rule copy_same [OF assms(2) cp])
    then show ?thesis
      using True f en cp x ad copy_same [OF assms(2) cp, of Q] by (simp add: share_prefix_def Let_def job_seq_def)
  qed
qed

lemma admit_one_script:
  assumes inv: "loop_inv s" and scr: "script_inv {} s" and ne: "lp_pending s \<noteq> []" "lp_free_slots s \<noteq> []"
  shows "\<exists>go s'. admit_one X E s = Inr (go, s') \<and> script_inv {} s'"
proof -
  let ?q = "last (lp_free_slots s)" and ?n = "int (cf_max_batch_size (sd_config s))"
  let ?A = "job_seq ` set (lp_active s)"
  have ready: "ready (sd_engine s)" and tied: "list_all (job_tied {} (sd_engine s)) (lp_active s)"
    and del: "list_all delivered_script (sd_fulfilled s)" using scr by (simp_all add: script_inv_def)
  obtain r rest where p: "lp_pending s = r # rest" using ne(1) by (cases "lp_pending s") auto
  obtain x job0 eng where mk: "make_job E (sd_engine s) r ?q = (x, job0, eng)" by (metis prod_cases3)
  have "request_ok r" using inv by (simp add: loop_inv_def inv_core_def p)
  note J0 = make_job_ok [OF mk this] and T0 = make_job_tied [OF mk ready]
  have q: "?q \<notin> ?A" "?q < ?n"
    using slots_facts(3,4) [OF inv_coreD(1) [OF inv [unfolded loop_inv_def]]] last_in_set [OF ne(2)] by blast+
  define job where "job = job0\<lparr>jb_blocks := Some BlockTable_new\<rparr>"
  have J: "job_ok job" "job_seq job = ?q" "jb_request job = r" "job_table job = BlockTable_new" using J0 by (simp_all add: job_def)
  define s0 where "s0 = s\<lparr>sd_engine := eng\<rparr>"
  define limit where "limit = u32 (blocks_for (sd_blocks s0) (prompt_tokens (sq_usage (jb_state job))) + headroom s0)"
  define s1 where "s1 = reclaim_until E limit s0"
  obtain fits job2 s2 where fit: "admit_fits s1 job limit = (fits, job2, s2)" by (metis prod_cases3)
  have step: "admit_one X E s =
      (if \<not> fits then (if lp_active s2 = [] then Inr (True, reject_job X E s2 job2) else Inr (False, defer_job E s2 job2))
       else (case share_prefix E s2 job2 of Inl x \<Rightarrow> Inl x | Inr (job3, s3) \<Rightarrow> Inr (True, enter_job X s3 job3)))"
    by (simp only: admit_one_def p list.sel mk T0(1) prod.case option.case Let_def fit
        s0_def [symmetric] job_def [symmetric] limit_def [symmetric] s1_def [symmetric])
  have inv0: "loop_inv s0" using inv by (simp add: s0_def loop_inv_def)
  have same01: "same_on {q. q < ?n} eng (sd_engine s1)"
    using reclaim_until_same [OF inv0, of limit] T0(4) by (simp add: s1_def s0_def)
  have F1: "lp_pending s1 = r # rest" "lp_active s1 = lp_active s" "sd_fulfilled s1 = sd_fulfilled s"
    using reclaim_until_frame [of E limit s0] by (simp_all add: s1_def s0_def p)
  have F2: "sd_engine s2 = sd_engine s1" "lp_active s2 = lp_active s1" "sd_fulfilled s2 = sd_fulfilled s1"
    "lp_pending s2 = lp_pending s1" "jb_state job2 = jb_state job" "jb_request job2 = r"
    using fit J(3) by (auto simp: admit_fits_def split: if_splits prod.splits)
  have same: "same_on ?A (sd_engine s) (sd_engine s2)"
    using same_on_trans [OF T0(3) [OF q(1)] same_on_mono [OF same01 loop_inv_slots(2) [OF inv]]] F2(1) by simp
  have r2: "ready (sd_engine s2)" by (rule same_on_ready [OF same])
  have tied2: "list_all (job_tied {} (sd_engine s2)) (lp_active s)" by (rule tied_same [OF tied same])
  have "job_tied {} (sd_engine s1) job0"
    using J0(2) q(2) by (intro job_tied_same [OF T0(2)] same_on_mono [OF same01]) simp
  then have jt: "job_tied {} (sd_engine s2) job2"
    using job_tied_state [of job2 job0 "{}" "sd_engine s1"] F2(1,5) by (simp add: job_def)
  have seq2: "job_seq job2 = ?q" using F2(5) J(2) by (simp add: job_seq_def)
  have rel: "script_inv {} (s2\<lparr>sd_engine := eg_release_sequence E (sd_engine s2) (job_seq job2)\<rparr>)"
    using tied_same [OF tied2 release_same [OF r2, of "job_seq job2"]] release_script(1) [OF r2] q(1) del
    by (simp add: script_inv_def F1 F2 seq2)
  show ?thesis
  proof (cases fits)
    case True
    obtain job3 s3 where sh: "share_prefix E s2 job2 = Inr (job3, s3)" "job_tied {} (sd_engine s3) job3"
        "same_on ?A (sd_engine s2) (sd_engine s3)" "lp_active s3 = lp_active s2" "sd_fulfilled s3 = sd_fulfilled s2"
      using share_prefix_tied [OF jt r2, of ?A] by blast
    have "script_inv {} (enter_job X s3 job3)"
      using tied_same [OF tied2 sh(3)] same_on_ready [OF sh(3)] sh(2,4,5) del
      by (simp add: script_inv_def enter_job_def clock_now_def F1 F2 job_tied_def job_seq_def job_done_def)
    with step True sh(1) show ?thesis by auto
  next
    case False
    have "script_inv {} (defer_job E s2 job2)" using rel by (simp add: script_inv_def defer_job_def)
    moreover have "script_inv {} (reject_job X E s2 job2)"
    proof -
      define st where "st = finish (fail (jb_state job2)
        (pool_message ''KV cache exhausted: prompt needs '' (blocks_for (sd_blocks s2) (prompt_tokens (sq_usage (jb_state job2))))
          '' blocks but the pool holds '' (ba_total (sd_blocks s2))) kContextOverflow)"
      have nd: "\<not> sq_finished (jb_state job2)" using fit False F2(5) by (auto simp: admit_fits_def job_done_def split: if_splits)
      have "on_script sc tx st" using jt unfolding st_def by (intro on_script_finish on_script_overflow) (simp add: job_tied_def)
      moreover have "job_ok (job2\<lparr>jb_state := st\<rparr>)" "sq_notified st"
        using J(1,3) F2(5,6) nd unfolding st_def
        by (auto simp: job_ok_def finish_inv fail_inv)
      ultimately have "delivered_script (delivery X n (job2\<lparr>jb_state := st\<rparr>))" for n by (intro delivery_script) simp_all
      with rel show ?thesis by (simp add: script_inv_def reject_job_def deliver_fulfilled st_def [symmetric] Let_def)
    qed
    ultimately show ?thesis using step False by auto
  qed
qed

lemma admit_loop_script:
  "loop_inv s \<Longrightarrow> script_inv {} s \<Longrightarrow> \<exists>s'. admit_loop X E s = Inr s' \<and> script_inv {} s'"
proof (induction "length (lp_pending s)" arbitrary: s rule: less_induct)
  case less
  show ?case
  proof (cases "lp_pending s = [] \<or> lp_free_slots s = []")
    case True
    with less.prems show ?thesis by (simp add: admit_loop.simps [of X E s])
  next
    case False
    then obtain go s1 where o: "admit_one X E s = Inr (go, s1)" "script_inv {} s1"
      using admit_one_script [OF less.prems] by blast
    have inv1: "loop_inv s1" using admit_one_inv [OF less.prems(1) _ _ o(1)] False by blast
    have "length (lp_pending s1) < length (lp_pending s)" if go
      using admit_one_pending(1) [OF o(1)] that False by (cases "lp_pending s") auto
    with less.hyps [OF _ inv1 o(2)] o False show ?thesis by (cases go) (auto simp: admit_loop.simps [of X E s])
  qed
qed

subsection \<open>Decoding and accepting\<close>

lemma put_job_tied: "list_all (job_tied P e) active \<Longrightarrow> job_tied P e j \<Longrightarrow> list_all (job_tied P e) (put_job j active)"
  by (auto simp: list_all_iff put_job_def)

text \<open>Accepting the step that was decoded for a job.\<close>

lemma accept_tied:
  assumes ok: "job_ok job" and tied: "job_tied (insert (job_seq job) Q) e job" and nd: "\<not> job_done job" and nq: "job_seq job \<notin> Q"
    and run: "accept tx cxl (jb_state job) (step_at sc q (completion_tokens (sq_usage (jb_state job)))) = (go, st)"
    and j': "jb_state j' = (if go then st else finish st)"
  shows "job_tied Q e j'" and "job_seq j' = job_seq job" and "\<not> go \<Longrightarrow> job_done j'"
proof -
  let ?k = "completion_tokens (sq_usage (jb_state job))"
  have st: "on_script sc tx st" "go \<Longrightarrow> completion_tokens (sq_usage st) = Suc ?k \<and> \<not> snd (sc ?k)"
    using on_script_accept [OF _ _ _ run, of "sink_base (jb_request job)"] tied ok nd
    by (simp_all add: job_tied_def job_ok_def job_done_def)
  show seq: "job_seq j' = job_seq job"
    using accept_frame(1) [of tx cxl "jb_state job" "step_at sc q ?k"] run j' by (simp add: job_seq_def)
  show fin: "job_done j'" if "\<not> go"
    using accept_finished [of tx cxl "jb_state job" "step_at sc q ?k"] run j' that by (simp add: job_done_def finish_keeps_end)
  show "job_tied Q e j'"
    using tied st fin j' nq nd seq by (cases go) (auto simp: job_tied_def on_script_finish Let_def)
qed

lemma job_tied_drop: "job_seq j \<noteq> q \<Longrightarrow> job_tied (insert q Q) e j = job_tied Q e j"
  by (simp add: job_tied_def)

text \<open>Accepting the step of \<open>q\<close> leaves the other decoded steps to be accepted.\<close>

lemma accept_one_script:
  assumes inv: "loop_inv s" and scr: "script_inv (insert q Q) s" and "q \<notin> Q"
    and at: "job_at q (lp_active s) = Some job" and nd: "\<not> job_done job"
    and step: "at_step steps k = Inr (step_at sc q (completion_tokens (sq_usage (jb_state job))))"
    and run: "accept_one X E steps k q s = (x, short, s')"
  shows "x = None" and "script_inv Q s'" and "q' \<noteq> q \<Longrightarrow> job_at q' (lp_active s') = job_at q' (lp_active s)"
proof -
  let ?k = "completion_tokens (sq_usage (jb_state job))" and ?e = "sd_engine s"
  have S: "ready ?e" "list_all (job_tied (insert q Q) ?e) (lp_active s)" "list_all delivered_script (sd_fulfilled s)"
    using scr by (simp_all add: script_inv_def)
  have piece: "eg_piece E ?e = tx" using piece_script [OF S(1)] by blast
  obtain j' cxl go st where eff: "x = None" "sd_engine s' = ?e" "sd_fulfilled s' = sd_fulfilled s"
    "lp_active s' = put_job j' (lp_active s)" "accept tx cxl (jb_state job) (step_at sc q ?k) = (go, st)"
    "jb_state j' = (if go then st else finish st)"
    using accept_one_effect [OF at step run] unfolding piece by blast
  have job: "job \<in> set (lp_active s)" "job_seq job = q" using job_at_Some [OF at] by simp_all
  have tied: "job_tied (insert q Q) ?e job" using S(2) job(1) by (simp add: list_all_iff)
  have ok: "job_ok job" using job_ok_at [OF inv_coreD(6) [OF inv [unfolded loop_inv_def]] at] .
  note T = accept_tied [OF ok tied [folded job(2)] nd \<open>q \<notin> Q\<close> [folded job(2)] eff(5,6)]
  have "job_tied Q ?e y" if "y \<in> set (put_job j' (lp_active s))" for y
    using that S(2) T(1,2) job(2) job_tied_drop [of _ q Q ?e] by (auto simp: put_job_def list_all_iff)
  with S eff show "x = None" "script_inv Q s'" by (simp_all add: script_inv_def list_all_iff)
  show "q' \<noteq> q \<Longrightarrow> job_at q' (lp_active s') = job_at q' (lp_active s)"
    unfolding eff(4) using T(2) job(2) by (intro job_at_put_other) simp
qed

lemma accept_loop_script:
  assumes "loop_inv s" and "script_inv (set qs) s" and "distinct qs"
    and "\<forall>i<length qs. at_step steps (k + i) = Inr (step_at sc (qs ! i) (c (qs ! i)))"
    and "\<forall>q\<in>set qs. \<exists>j. job_at q (lp_active s) = Some j \<and> \<not> job_done j \<and> completion_tokens (sq_usage (jb_state j)) = c q"
  shows "fst (accept_loop X E steps k qs s) = None \<and> script_inv {} (snd (snd (accept_loop X E steps k qs s)))"
  using assms
proof (induction qs arbitrary: k s)
  case Nil
  then show ?case by simp
next
  case (Cons q qs)
  obtain x short s1 where o: "accept_one X E steps k q s = (x, short, s1)" by (metis prod_cases3)
  obtain j where j: "job_at q (lp_active s) = Some j" "\<not> job_done j" "completion_tokens (sq_usage (jb_state j)) = c q"
    using Cons.prems(5) by auto
  have st: "at_step steps k = Inr (step_at sc q (completion_tokens (sq_usage (jb_state j))))"
    using Cons.prems(4) [rule_format, of 0] j(3) by simp
  have scr: "script_inv (insert q (set qs)) s" and nq: "q \<notin> set qs" using Cons.prems(2,3) by simp_all
  note A = accept_one_script [OF Cons.prems(1) scr nq j(1,2) st o]
  have "fst (accept_loop X E steps (Suc k) qs s1) = None \<and> script_inv {} (snd (snd (accept_loop X E steps (Suc k) qs s1)))"
  proof (rule Cons.IH [OF accept_one_inv [OF Cons.prems(1) o] A(2)])
    show "distinct qs" using Cons.prems(3) by simp
    show "\<forall>i<length qs. at_step steps (Suc k + i) = Inr (step_at sc (qs ! i) (c (qs ! i)))"
    proof (intro allI impI)
      fix i assume "i < length qs"
      with Cons.prems(4) [rule_format, of "Suc i"] show "at_step steps (Suc k + i) = Inr (step_at sc (qs ! i) (c (qs ! i)))" by simp
    qed
    show "\<forall>q\<in>set qs. \<exists>j. job_at q (lp_active s1) = Some j \<and> \<not> job_done j \<and> completion_tokens (sq_usage (jb_state j)) = c q"
      using Cons.prems(5) A(3) nq by (metis list.set_intros(2))
  qed
  with o A(1) show ?case by (simp add: split_beta)
qed

lemma decode_phase_script:
  assumes inv: "loop_inv s" and scr: "script_inv {} s"
  shows "script_inv {} (snd (decode_phase X E nb s))"
proof -
  let ?e = "sd_engine s"
  obtain active items qs where b: "build_batch nb (cf_prefill_chunk (sd_config s)) (lp_active s) = (active, items, qs)"
    by (metis prod_cases3)
  have S: "ready ?e" "list_all (job_tied {} ?e) (lp_active s)" "list_all delivered_script (sd_fulfilled s)"
    using scr by (simp_all add: script_inv_def)
  note I = build_batch_items [OF loop_inv_slots(1) [OF inv] b]
  have adv: "list_all2 advanced (lp_active s) active"
    using build_batch_advanced [of "lp_active s" nb "cf_prefill_chunk (sd_config s)"] b by simp
  have origin: "\<exists>j\<in>set (lp_active s). advanced j j'" if "j' \<in> set active" for j'
    using adv that by (metis in_set_conv_nth list_all2_conv_all_nth)
  have adv_tied: "job_tied {} ?e j'" if j': "j' \<in> set active" for j'
  proof -
    obtain j where j: "j \<in> set (lp_active s)" "advanced j j'" using origin [OF j'] by blast
    with S(2) show ?thesis by (auto simp: job_tied_def list_all_iff advanced_facts(1-3) [OF j(2)] advanced_facts(4) [OF j(2)])
  qed
  show ?thesis
  proof (cases "items = []")
    case True
    with S adv_tied b show ?thesis by (simp add: decode_phase_def script_inv_def list_all_iff)
  next
    case False
    have lv: "it_seq ` set items \<subseteq> live ?e" using I(2) S(2) by (auto simp: list_all_iff job_tied_def)
    obtain e' where d: "eg_decode E ?e items =
        (Inr (map (\<lambda>it. step_at sc (it_seq it) (drawn ?e (it_seq it))) (filter it_sample items)), e')" "ready e'"
        "\<And>q. drawn e' q = (if q \<in> it_seq ` set (filter it_sample items) \<and> \<not> snd (sc (drawn ?e q))
          then Suc (drawn ?e q) else drawn ?e q)"
      using decode_script [OF S(1) I(1) lv] by blast
    define steps where "steps = map (\<lambda>q. step_at sc q (drawn ?e q)) qs"
    have dec: "eg_decode E ?e items = (Inr steps, e')" using d(1) by (simp add: steps_def I(3) comp_def)
    let ?s2 = "s\<lparr>lp_active := active, sd_engine := e'\<rparr>"
    have inv2: "loop_inv ?s2"
      using inv_core_moved [OF inv [unfolded loop_inv_def] build_batch_moved [of _ nb "cf_prefill_chunk (sd_config s)"]] b
      by (simp add: loop_inv_def)
    have "job_tied (set qs) e' j'" if "j' \<in> set active" for j'
      using adv_tied [OF that] decode_live [OF dec] d(3) [of "job_seq j'"] by (auto simp: job_tied_def I(3) Let_def)
    then have scr2: "script_inv (set qs) ?s2" using S d(2) by (simp add: script_inv_def list_all_iff)
    have qd: "distinct qs" using I(1) by (simp add: I(3) distinct_map_filter)
    have un: "\<exists>j. job_at q active = Some j \<and> \<not> job_done j \<and> completion_tokens (sq_usage (jb_state j)) = drawn ?e q"
      if "q \<in> set qs" for q
    proof -
      from that I(2) obtain j0 where j0: "j0 \<in> set (lp_active s)" "\<not> job_done j0" "job_seq j0 = q" by (auto simp: I(3))
      obtain j' where "j' \<in> set active" "job_seq j' = q"
        using adv j0(1,3) advanced_facts(1) by (metis in_set_conv_nth list_all2_conv_all_nth)
      then obtain j where j: "job_at q active = Some j" by (cases "job_at q active") (auto simp: job_at_def find_None_iff)
      then obtain j1 where j1: "j1 \<in> set (lp_active s)" "advanced j1 j" using origin job_at_Some by blast
      have "j1 = j0" using loop_inv_slots(1) [OF inv] j1 j0 advanced_facts(1) [OF j1(2)] job_at_Some [OF j]
        by (auto simp: distinct_map inj_on_def)
      then have "\<not> job_done j" using advanced_facts(2) [OF j1(2)] j0(2) by simp
      with j adv_tied [of j] job_at_Some [OF j] show ?thesis by (auto simp: job_tied_def)
    qed
    have "\<forall>i<length qs. at_step steps (0 + i) = Inr (step_at sc (qs ! i) (drawn ?e (qs ! i)))"
      by (simp add: at_step_def steps_def)
    from accept_loop_script [OF inv2 scr2 qd this, of X] un b dec False show ?thesis
      by (simp add: decode_phase_def Let_def split_beta)
  qed
qed

subsection \<open>Retiring\<close>

lemma sweep_loop_script:
  assumes "inv_core (sd_config s) (sd_queue s) (sd_blocks s) (sd_prefix_cache s) (lp_free_slots s)
      (kept @ js) (lp_pending s) (sd_fulfilled s)"
    and "ready (sd_engine s)" and "list_all (job_tied {} (sd_engine s)) (kept @ js)" and "list_all delivered_script (sd_fulfilled s)"
  shows "script_inv {} (sweep_loop X E js kept s)"
  using assms
proof (induction js arbitrary: kept s)
  case Nil
  then show ?case by (simp add: script_inv_def)
next
  case (Cons j js)
  show ?case
  proof (cases "job_done j")
    case False
    with Cons.IH [of s "kept @ [j]"] Cons.prems show ?thesis by simp
  next
    case True
    let ?s = "s\<lparr>lp_free_slots := lp_free_slots s @ [job_seq j]\<rparr>" and ?n = "cf_max_batch_size (sd_config s)"
    let ?s' = "retire X E ?s j"
    note D = inv_coreD [OF Cons.prems(1)]
    note F = retire_frame [of X E ?s j] and M = lp_more [OF retire_frame(3) [of X E ?s j]]
    have lt: "job_seq x < int ?n" if "x \<in> set (kept @ j # js)" for x
      using slots_facts(4) [OF D(1), of "job_seq x"] that by auto
    have "job_seq j \<notin> job_seq ` set (kept @ js)" using slots_facts(1) [OF D(1)] by auto
    then have "job_seq x \<noteq> job_seq j" if "x \<in> set (kept @ js)" for x using that by (metis imageI)
    with lt have q: "job_seq j < int ?n" "job_seq ` set (kept @ js) \<subseteq> {q. q < int ?n} - {job_seq j}" by auto
    obtain L where L: "kv_acc ?n (sd_blocks ?s) (sd_prefix_cache ?s) (holders_of (kept @ j # js)) L" using D(4) by auto
    have same: "same_on (job_seq ` set (kept @ js)) (sd_engine s) (sd_engine ?s')"
      using same_on_mono [OF retire_same [OF L q(1)] q(2)] Cons.prems(2) by simp
    have tied: "list_all (job_tied {} (sd_engine ?s')) (kept @ js)"
      by (rule tied_same [OF _ same]) (use Cons.prems(3) in simp)
    have ok: "job_ok j" "on_script sc tx (jb_state j)" using D(6) Cons.prems(3) by (simp_all add: job_tied_def)
    have "delivered_script (delivery X (sd_ticks s) (j\<lparr>jb_state := finish (jb_state j)\<rparr>))"
      using finish_job_ok [OF ok(1) True] on_script_finish [OF ok(2)] True by (intro delivery_script) (simp_all add: job_done_def)
    then have del: "list_all delivered_script (sd_fulfilled ?s')" using Cons.prems(4) by (simp add: retire_fulfilled)
    from retire_inv [of ?s "sd_queue s" "lp_free_slots s" kept j js "lp_pending s" X E] Cons.prems(1) True
    have "inv_core (sd_config s) (sd_queue s) (sd_blocks ?s') (sd_prefix_cache ?s')
      (lp_free_slots s @ [job_seq j]) (kept @ js) (lp_pending s) (sd_fulfilled ?s')" by simp
    with True Cons.IH [of ?s' kept] F(1,2) M same_on_ready [OF same] tied del show ?thesis by simp
  qed
qed

lemma sweep_script: "loop_inv s \<Longrightarrow> script_inv {} s \<Longrightarrow> script_inv {} (sweep X E s)"
  unfolding sweep_def by (rule sweep_loop_script) (simp_all add: loop_inv_def script_inv_def)

subsection \<open>Cache exhaustion\<close>

lemma grow_job_script:
  assumes "grow_job q needed s = (b, s')" and "script_inv {} s"
  shows "script_inv {} s'"
proof (cases "job_at q (lp_active s)")
  case None
  with assms show ?thesis by (simp add: grow_job_def)
next
  case (Some job)
  have "job_tied {} (sd_engine s) (job\<lparr>jb_blocks := t\<rparr>)" for t
    using assms(2) job_at_Some [OF Some] by (auto simp: script_inv_def list_all_iff job_tied_def job_seq_def job_done_def)
  then have "list_all (job_tied {} (sd_engine s)) (put_job (job\<lparr>jb_blocks := t\<rparr>) (lp_active s))" for t
    using assms(2) by (intro put_job_tied) (simp_all add: script_inv_def)
  with assms Some show ?thesis by (auto simp: grow_job_def script_inv_def split: prod.splits)
qed

lemma reclaim_donor_script:
  assumes inv: "loop_inv s" and scr: "script_inv {} s" and run: "reclaim_donor_blocks E s = (b, s')"
  shows "script_inv {} s'"
proof -
  obtain L where L: "kv_acc (cf_max_batch_size (sd_config s)) (sd_blocks s) (sd_prefix_cache s) (holders_of (lp_active s)) L"
    by (rule loop_inv_acc [OF inv])
  have same: "same_on {q. q < int (cf_max_batch_size (sd_config s))} (sd_engine s) (sd_engine s')"
    using reclaim_donor_same [OF run L] scr by (simp add: script_inv_def)
  have "lp_active s' = lp_active s" by (rule lp_more(2) [OF reclaim_donor_frame(5) [OF run]])
  moreover have "sd_fulfilled s' = sd_fulfilled s"
    using run by (auto simp: reclaim_donor_blocks_def release_donor_def split: prod.splits option.splits)
  ultimately show ?thesis
    using scr same_on_ready [OF same] tied_same [OF _ same_on_mono [OF same loop_inv_slots(2) [OF inv]]]
    by (simp add: script_inv_def)
qed

lemma preempt_one_script:
  assumes inv: "loop_inv s" and scr: "script_inv {} s" and run: "preempt_one E q s = (b, s')"
  shows "script_inv {} s'"
proof (cases "find (preemptible q) (rev (lp_active s))")
  case None
  with run scr show ?thesis by (simp add: preempt_one_def)
next
  case (Some j)
  from erase_first_split [OF Some] obtain us vs where u: "rev (lp_active s) = us @ j # vs"
    "erase_first (preemptible q) (rev (lp_active s)) = us @ vs" by blast
  have S: "ready (sd_engine s)" "list_all (job_tied {} (sd_engine s)) (rev (lp_active s))" "list_all delivered_script (sd_fulfilled s)"
    using scr by (simp_all add: script_inv_def)
  have "distinct (map job_seq (rev (lp_active s)))" using loop_inv_slots(1) [OF inv] by (simp add: rev_map [symmetric])
  then have out: "job_seq j \<notin> job_seq ` set (us @ vs)" unfolding u by auto
  have "list_all (job_tied {} (eg_release_sequence E (sd_engine s) (job_seq j))) (us @ vs)"
    by (rule tied_same [OF _ release_same [OF S(1) out]]) (use S(2) in \<open>simp add: u\<close>)
  then show ?thesis
    using run Some S(3) release_script(1) [OF S(1)] by (auto simp: preempt_one_def script_inv_def u(2))
qed

lemma reclaim_for_script: "loop_inv s \<Longrightarrow> script_inv {} s \<Longrightarrow> script_inv {} (reclaim_for E q needed s)"
proof (induction "length (pc_entries (sd_prefix_cache s))" arbitrary: s rule: less_induct)
  case less
  obtain b s1 where g: "grow_job q needed s = (b, s1)" by fastforce
  obtain r s2 where d: "reclaim_donor_blocks E s1 = (r, s2)" by fastforce
  note i1 = grow_job_inv [OF less.prems(1) g] and c1 = grow_job_script [OF g less.prems(2)]
  note i2 = reclaim_donor_inv [OF i1 d] and c2 = reclaim_donor_script [OF i1 c1 d]
  have "r \<Longrightarrow> script_inv {} (reclaim_for E q needed s2)"
    using reclaim_for_smaller [OF g, of E s2] d by (intro less.hyps [OF _ i2 c2]) simp
  with g d c1 c2 show ?case by (cases b; cases r) (simp_all add: reclaim_for.simps [of E q needed s])
qed

lemma preempt_for_script: "loop_inv s \<Longrightarrow> script_inv {} s \<Longrightarrow> script_inv {} (preempt_for E q needed s)"
proof (induction "length (lp_active s)" arbitrary: s rule: less_induct)
  case less
  obtain b s1 where g: "grow_job q needed s = (b, s1)" by fastforce
  obtain r s2 where d: "preempt_one E q s1 = (r, s2)" by fastforce
  note i1 = grow_job_inv [OF less.prems(1) g] and c1 = grow_job_script [OF g less.prems(2)]
  note i2 = preempt_one_inv [OF i1 d] and c2 = preempt_one_script [OF i1 c1 d]
  have "r \<Longrightarrow> script_inv {} (preempt_for E q needed s2)"
    using preempt_for_smaller [OF g, of E s2] d by (intro less.hyps [OF _ i2 c2]) simp
  with g d c1 c2 show ?case by (cases b; cases r) (simp_all add: preempt_for.simps [of E q needed s])
qed

lemma resolve_one_script:
  assumes inv: "loop_inv s" and scr: "script_inv {} s"
  shows "script_inv {} (resolve_one E q s)"
proof (cases "job_at q (lp_active s)")
  case None
  with scr show ?thesis by (simp add: resolve_one_def)
next
  case (Some job)
  have "job_tied {} (sd_engine s) (job\<lparr>jb_state := finish (fail (jb_state job) m kContextOverflow)\<rparr>)" for m
    using scr job_at_Some [OF Some]
    by (auto simp: script_inv_def list_all_iff job_tied_def job_seq_def job_done_def finish_keeps_end intro!: on_script_finish on_script_overflow)
  then have "list_all (job_tied {} (sd_engine s))
      (put_job (job\<lparr>jb_state := finish (fail (jb_state job) m kContextOverflow)\<rparr>) (lp_active s))" for m
    using scr by (intro put_job_tied) (simp_all add: script_inv_def)
  with Some scr preempt_for_script [OF reclaim_for_inv [OF inv] reclaim_for_script [OF inv scr]] show ?thesis
    by (simp add: resolve_one_def Let_def script_inv_def)
qed

lemma resolve_script:
  "loop_inv s \<Longrightarrow> undone qs (lp_active s) \<Longrightarrow> distinct qs \<Longrightarrow> script_inv {} s \<Longrightarrow> script_inv {} (resolve E qs s)"
proof (induction qs arbitrary: s)
  case Nil
  then show ?case by (simp add: resolve_def)
next
  case (Cons q qs)
  have nq: "q \<notin> set qs" using Cons.prems(3) by simp
  from Cons.IH [OF resolve_one_inv [OF Cons.prems(1,2) nq] _ resolve_one_script [OF Cons.prems(1,4)]] Cons.prems(3)
  show ?case by (simp add: resolve_def)
qed

subsection \<open>Turns and runs\<close>

lemma batch_step_script:
  assumes inv: "loop_inv s" and scr: "script_inv {} s"
  shows "script_inv {} (batch_step X E nb s)"
proof -
  obtain qs s1 where d: "decode_phase X E nb s = (qs, s1)" by fastforce
  have 1: "loop_inv s1" "script_inv {} s1" "distinct qs"
    using decode_phase_inv [OF inv, of X E nb] decode_phase_script [OF inv scr, of X nb] decode_phase_shorts [OF inv, of X E nb] d
    by simp_all
  have un: "undone qs (lp_active (sweep X E s1))" by (simp add: undone_def sweep_active)
  note i = resolve_inv [OF sweep_inv [OF 1(1)] un 1(3)]
    and c = resolve_script [OF sweep_inv [OF 1(1)] un 1(3) sweep_script [OF 1(1,2)]]
  from sweep_script [OF i c] show ?thesis by (simp add: batch_step_def d publish_usage_def script_inv_def)
qed

lemma iteration_script:
  assumes inv: "loop_inv s" and scr: "script_inv {} s"
  shows "case iteration X E nb s of Waits \<Rightarrow> True | Throws x \<Rightarrow> False
    | Returns s' \<Rightarrow> script_inv {} s' | Goes_on s' \<Rightarrow> script_inv {} s'"
proof (cases "take_work s")
  case None
  then show ?thesis by (simp add: iteration_def)
next
  case (Some s1)
  have s1: "loop_inv s1" "script_inv {} s1"
    using take_work_inv [OF inv Some] take_work_same [OF Some] scr by (simp_all add: script_inv_def)
  obtain s2 where a: "admit_loop X E s1 = Inr s2" "script_inv {} s2" using admit_loop_script [OF s1] by blast
  from batch_step_script [OF admit_loop_inv [OF s1(1) a(1)] a(2)] a s1(2) Some show ?thesis
    by (simp add: iteration_def)
qed

lemma reach_script: "loop_reach X E nb s0 s \<Longrightarrow> loop_inv s0 \<Longrightarrow> script_inv {} s0 \<Longrightarrow> script_inv {} s"
proof (induction rule: loop_reach.induct)
  case (turn s s')
  from iteration_script [OF loop_reach_inv [OF turn.hyps(1) turn.prems(1)] turn.IH [OF turn.prems], of X nb] turn.hyps(2)
  show ?case by simp
qed

lemma start_script: "ready e \<Longrightarrow> script_inv {} (loop_start (Scheduler_new E e w config))"
  by (simp add: script_inv_def loop_start_fields Scheduler_new_def Let_def)

end

section \<open>On the mock engine\<close>

lemma reach_mock_script:
  assumes "config_ok (eg_caps mock_engine (MockModelEngine_new mc)) config" and "world_start w" and "\<not> mc_echo_prompt mc"
    and "loop_reach X mock_engine nb (loop_start (Scheduler_new mock_engine (MockModelEngine_new mc) w config)) s"
  shows "loop_inv s" and "mock_script.script_inv (mc_response mc) {} s"
proof -
  have r: "mock_replays (mc_response mc) (MockModelEngine_new mc)"
    using assms(3) by (simp add: mock_replays_def MockModelEngine_new_def)
  show "loop_inv s" by (rule reach_inv [OF assms(1,2,4)])
  show "mock_script.script_inv (mc_response mc) {} s"
    by (rule mock_script.reach_script [OF assms(4) loop_start_inv [OF assms(1,2)] mock_script.start_script [OF r]])
qed

lemma mock_delivery_alone:
  assumes d: "mock_script.delivered_script (mc_response mc) (r, g, calls)" and echo: "\<not> mc_echo_prompt mc"
  shows "gr_reason g \<noteq> kError" and "prefix (gr_text g) (mc_response mc)"
    and "gr_reason g \<notin> {kCancelled, kContextOverflow} \<Longrightarrow>
      \<exists>st e'. generate_one (Suc (max_tokens (rq_spec r))) mock_engine (\<lambda>_. False) (MockModelEngine_new mc) seq (rq_spec r) sink =
        Some (None, st, e') \<and> gr_text g = emitted_text st \<and> gr_reason g = sq_reason st"
proof -
  from d obtain st where st: "seq_inv (sink_base r) st" "sq_notified st" "sq_spec st = rq_spec r" "gr_text g = emitted_text st"
    "gr_reason g = sq_reason st" "on_script (mock_script (mc_response mc)) mock_text st"
    by (auto simp: mock_script.delivered_script_def)
  have fin: "sq_finished st" and stp: "stopped_inv st" and max: "max_tokens (rq_spec r) < 4294967296"
    using st(1-3) by (simp_all add: seq_inv_def split: if_splits)
  show ne: "gr_reason g \<noteq> kError" using st(5,6) by (simp add: on_script_def Let_def)
  show "prefix (gr_text g) (mc_response mc)"
    using on_mock_script_text [OF st(6)] by (simp add: st(4) emitted_text_def take_is_prefix)
  assume "gr_reason g \<notin> {kCancelled, kContextOverflow}"
  with ne stp st(5) have rs: "sq_reason st \<in> {kEos, kMaxTokens, kStopString}"
    by (cases "sq_reason st") (simp_all add: stopped_inv_def)
  note E = on_mock_script_ends [OF st(6,1) fin rs]
  have "emitted_text st = response_spec (sq_text st) (stop (sq_spec st))"
    by (rule finished_response [OF st(1,2)]) (use rs in auto)
  with E st(3) generate_one_mock [OF echo max, of "Suc (max_tokens (rq_spec r))" seq sink] st(4,5)
  show "\<exists>st e'. generate_one (Suc (max_tokens (rq_spec r))) mock_engine (\<lambda>_. False) (MockModelEngine_new mc) seq (rq_spec r) sink =
      Some (None, st, e') \<and> gr_text g = emitted_text st \<and> gr_reason g = sq_reason st" by auto
qed

text \<open>
  An answer is what the request would have got alone: \<open>generate_one\<close> on a fresh mock engine
  gives the same text for the same reason. A cancelled request, or one that does not fit, is
  answered with a part of the response.
\<close>

definition as_alone :: "MockConfig \<Rightarrow> Request \<Rightarrow> GenResult \<Rightarrow> bool" where
  "as_alone mc r g \<longleftrightarrow> gr_reason g \<noteq> kError \<and> prefix (gr_text g) (mc_response mc) \<and>
     (gr_reason g \<in> {kCancelled, kContextOverflow} \<or>
      (\<forall>seq sink. \<exists>st e'.
         generate_one (Suc (max_tokens (rq_spec r))) mock_engine (\<lambda>_. False) (MockModelEngine_new mc) seq (rq_spec r) sink =
           Some (None, st, e') \<and> gr_text g = emitted_text st \<and> gr_reason g = sq_reason st))"

lemma delivered_as_alone:
  assumes "list_all (mock_script.delivered_script (mc_response mc)) ds" and "\<not> mc_echo_prompt mc" and "(r, g, calls) \<in> set ds"
  shows "as_alone mc r g"
proof -
  have d: "mock_script.delivered_script (mc_response mc) (r, g, calls)" using assms(1,3) by (auto simp: list_all_iff)
  show ?thesis unfolding as_alone_def using mock_delivery_alone [OF d assms(2)] by blast
qed

lemma continuous_mock_alone:
  assumes "config_ok (eg_caps mock_engine (MockModelEngine_new mc)) config" and "world_start w" and echo: "\<not> mc_echo_prompt mc"
    and "loop_reach X mock_engine nb (loop_start (Scheduler_new mock_engine (MockModelEngine_new mc) w config)) s"
  shows "iteration X mock_engine nb s \<noteq> Throws m" and "(r, g, calls) \<in> set (sd_fulfilled s) \<Longrightarrow> as_alone mc r g"
proof -
  note R = reach_mock_script [OF assms]
  from mock_script.iteration_script [OF R, of X nb] show "iteration X mock_engine nb s \<noteq> Throws m" by auto
  show "(r, g, calls) \<in> set (sd_fulfilled s) \<Longrightarrow> as_alone mc r g"
    using R(2) by (intro delivered_as_alone [OF _ echo]) (simp_all add: mock_script.script_inv_def)
qed

end
