(* ===== verification/Mv_StaticTransparency.thy ===== *)
theory Mv_StaticTransparency
  imports Mv_Transparency Mv_ServerInv
begin

text \<open>
  Static batching does not show in the responses either, and neither does the server around
  the scheduler: the counterpart of \<open>Mv_Transparency\<close> for \<open>run_batch\<close> and \<open>run_static\<close>, then
  both modes of \<open>run\<close> and \<open>serve\<close> on the mock engine.
\<close>

section \<open>What the phases do to the jobs\<close>

lemma admit_static_script:
  assumes "admit_static X s job0 = (job, s')" and "on_script sc tx (jb_state job0)"
  shows "sd_engine s' = sd_engine s" and "job_seq job = job_seq job0" and "on_script sc tx (jb_state job)"
    and "job_done job \<or> jb_state job = jb_state job0"
  using assms on_script_overflow [OF assms(2)]
  by (auto simp: admit_static_def Let_def clock_now_def job_seq_def job_done_def split: if_splits prod.splits)

lemma prefill_item_facts:
  "it_seq (fst (prefill_item st)) = sq_seq st" "sq_prefilled st \<le> length (sq_prompt st) \<Longrightarrow> it_sample (fst (prefill_item st))"
  by (simp_all add: prefill_item_def take_prefill_chunk_def prefill_remaining_def Let_def)

text \<open>The items of a slice are those of the submitted jobs, in order; the jobs only advance.\<close>

lemma gather_items:
  "gather nb i js started tokens = (i', js', items, sub) \<Longrightarrow> list_all job_ok js \<Longrightarrow>
    list_all2 advanced js js' \<and> map it_seq items = map (\<lambda>k. job_seq (js ! (k - i))) sub \<and> list_all it_sample items \<and>
    set sub \<subseteq> {k. i \<le> k \<and> k < i + length js \<and> \<not> job_done (js ! (k - i))}"
proof (induction js arbitrary: i started tokens i' js' items sub)
  case Nil
  then show ?case by simp
next
  case (Cons j js)
  obtain i1 js1 it1 sub1 where a: "gather nb (Suc i) js started tokens = (i1, js1, it1, sub1)" by (metis prod_cases4)
  obtain i2 js2 it2 sub2 where b: "gather nb (Suc i) js True (tokens + prefill_remaining (jb_state j)) = (i2, js2, it2, sub2)"
    by (metis prod_cases4)
  have ok: "list_all job_ok js" "sq_prefilled (jb_state j) \<le> length (sq_prompt (jb_state j))"
    using Cons.prems(2) by (simp, simp add: job_ok_def seq_inv_def)
  have shift: "map (\<lambda>k. job_seq ((j # js) ! (k - i))) xs = map (\<lambda>k. job_seq (js ! (k - Suc i))) xs \<and>
      set xs \<subseteq> {k. i \<le> k \<and> k < i + length (j # js) \<and> \<not> job_done ((j # js) ! (k - i))}"
    if "set xs \<subseteq> {k. Suc i \<le> k \<and> k < Suc i + length js \<and> \<not> job_done (js ! (k - Suc i))}" for xs
  proof -
    have "(j # js) ! (k - i) = js ! (k - Suc i)" if "Suc i \<le> k" for k
      using that by (simp add: nth_Cons' Suc_diff_le [symmetric])
    with that show ?thesis by force
  qed
  have adv: "advanced j (j\<lparr>jb_state := snd (prefill_item (jb_state j))\<rparr>)" "advanced j j"
    by (auto simp: advanced_def prefill_item_def)
  have all: "list_all2 advanced js js" by (simp add: list_all2_refl advanced_def)
  show ?case
  proof (cases "job_done j")
    case True
    with Cons.prems(1) a have eq: "js' = j # js1" "items = it1" "sub = sub1" by simp_all
    from Cons.IH [OF a ok(1)] shift [of sub1] adv(2) show ?thesis unfolding eq by auto
  next
    case nd: False
    show ?thesis
    proof (cases "started \<and> nb < tokens + prefill_remaining (jb_state j)")
      case True
      with nd Cons.prems(1) all adv(2) show ?thesis by auto
    next
      case False
      with nd Cons.prems(1) b have eq: "js' = j\<lparr>jb_state := snd (prefill_item (jb_state j))\<rparr> # js2"
          "items = fst (prefill_item (jb_state j)) # it2" "sub = i # sub2"
        by (auto simp: Let_def split_beta)
      from Cons.IH [OF b ok(1)] shift [of sub2] adv(1) nd prefill_item_facts [of "jb_state j"] ok(2)
      show ?thesis unfolding eq by (auto simp: job_seq_def)
    qed
  qed
qed

section \<open>A batch on the script\<close>

context scripted_engine
begin

definition batch_tied :: "SeqId set \<Rightarrow> 'e \<Rightarrow> Job list \<Rightarrow> bool" where
  "batch_tied P e jobs \<longleftrightarrow> ready e \<and> list_all (job_tied P e) jobs \<and> distinct (map job_seq jobs) \<and> list_all job_ok jobs"

lemma make_jobs_script:
  assumes "ready (sd_engine s)" and "i + length batch < 2147483648" and "list_all request_ok batch"
  shows "\<exists>jobs s'. make_jobs X E i batch s = Inr (jobs, s') \<and> ready (sd_engine s') \<and> list_all (job_tied {} (sd_engine s')) jobs \<and>
    map job_seq jobs = map int [i..<i + length batch] \<and> same_on {q. q < int i} (sd_engine s) (sd_engine s')"
  using assms
proof (induction batch arbitrary: i s)
  case Nil
  then show ?case by (simp add: same_on_refl)
next
  case (Cons r rs)
  obtain x job0 eng where mk: "make_job E (sd_engine s) r (i32 (int i)) = (x, job0, eng)" by (metis prod_cases3)
  have i: "i32 (int i) = int i" using Cons.prems(2) by (simp add: i32_id)
  note T = make_job_tied [OF mk Cons.prems(1)]
  have seq: "job_seq job0 = int i" using make_job_ok(2) [OF mk] Cons.prems(3) i by simp
  obtain job s1 where ad: "admit_static X (s\<lparr>sd_engine := eng\<rparr>) job0 = (job, s1)" by fastforce
  note A = admit_static_script [OF ad, of sc tx]
  have on: "on_script sc tx (jb_state job0)" using T(2) by (simp add: job_tied_def)
  have e1: "sd_engine s1 = eng" using A(1) [OF on] by simp
  have jt: "job_tied {} eng job" using T(2) A(2-4) [OF on] by (auto simp: job_tied_def job_done_def)
  obtain jobs s' where IH: "make_jobs X E (Suc i) rs s1 = Inr (jobs, s')" "ready (sd_engine s')"
      "list_all (job_tied {} (sd_engine s')) jobs" "map job_seq jobs = map int [Suc i..<Suc i + length rs]"
      "same_on {q. q < int (Suc i)} eng (sd_engine s')"
    using Cons.IH [of s1 "Suc i"] T(4) e1 Cons.prems(2,3) by auto
  have jt': "job_tied {} (sd_engine s') job"
    by (rule job_tied_same [OF jt same_on_mono [OF IH(5)]]) (use A(2) [OF on] seq in simp)
  have "same_on {q. q < int i} (sd_engine s) (sd_engine s')"
    by (rule same_on_trans [OF T(3) same_on_mono [OF IH(5)]]) (auto simp: i)
  moreover have "[i..<i + length (r # rs)] = i # [Suc i..<Suc i + length rs]" by (simp add: upt_conv_Cons del: upt_Suc)
  ultimately show ?case using mk T(1) ad IH(1-4) jt' A(2) [OF on] seq by (simp del: upt_Suc)
qed

lemma static_accept_script:
  assumes B: "batch_tied (insert (job_seq (jobs ! i)) Q) (sd_engine s) jobs" and i: "i < length jobs"
    and nd: "\<not> job_done (jobs ! i)" and nq: "job_seq (jobs ! i) \<notin> Q"
    and step: "at_step steps k = Inr (step_at sc (job_seq (jobs ! i)) (completion_tokens (sq_usage (jb_state (jobs ! i)))))"
    and run: "static_accept X E steps k i jobs s = (x, jobs', s')"
  shows "x = None" and "batch_tied Q (sd_engine s') jobs'" and "m \<noteq> i \<Longrightarrow> jobs' ! m = jobs ! m" and "length jobs' = length jobs"
proof -
  let ?j = "jobs ! i" and ?e = "sd_engine s"
  have D: "ready ?e" "list_all (job_tied (insert (job_seq ?j) Q) ?e) jobs" "distinct (map job_seq jobs)" "list_all job_ok jobs"
    using B by (simp_all add: batch_tied_def)
  obtain j1 s1 where st: "stamp_first_token X s ?j = (j1, s1)" by fastforce
  note S = stamp_first_token_frame [OF st]
  obtain tk where s1: "s1 = s\<lparr>sd_ticks := tk\<rparr>" using S(1) by blast
  have piece: "eg_piece E ?e = tx" using piece_script [OF D(1)] by blast
  obtain go st' where ac: "accept tx (xt_cancelled X (rq_id (jb_request j1)) tk) (jb_state ?j)
      (step_at sc (job_seq ?j) (completion_tokens (sq_usage (jb_state ?j)))) = (go, st')" by fastforce
  have aj: "accept_job X E s1 j1 (step_at sc (job_seq ?j) (completion_tokens (sq_usage (jb_state ?j)))) =
      (go, j1\<lparr>jb_state := st'\<rparr>, s\<lparr>sd_ticks := Suc tk\<rparr>)"
    using ac by (simp add: accept_job_def s1 piece S(3))
  define j' where "j' = (if go then j1\<lparr>jb_state := st'\<rparr> else j1\<lparr>jb_state := finish st'\<rparr>)"
  have j': "jb_state j' = (if go then st' else finish st')" by (simp add: j'_def)
  have res: "x = None" "jobs' = jobs[i := j']"
      "sd_engine s' = (if go then ?e else eg_release_sequence E ?e (job_seq (j1\<lparr>jb_state := st'\<rparr>)))"
    using run by (auto simp: static_accept_def st step aj Let_def j'_def split: if_splits)
  have ok: "job_ok ?j" "job_tied (insert (job_seq ?j) Q) ?e ?j" using D(2,4) i by (simp_all add: list_all_length)
  note T = accept_tied [OF ok nd nq ac j']
  have sq: "sq_seq st' = job_seq ?j" using T(2) j' by (simp add: job_seq_def split: if_splits)
  obtain j2 where "jobs' = jobs[i := j2]" "carried ?j j2" using static_accept_step(2) [OF run i] by blast
  then have c: "carried ?j j'" using res(2) i by (metis nth_list_update_eq)
  have maps: "map job_seq jobs' = map job_seq jobs" using T(2) i by (simp add: res(2) map_update list_update_same_conv)
  have "job_tied Q (sd_engine s') (jobs' ! m)" if m: "m < length jobs" for m
  proof (cases "m = i")
    case True
    then show ?thesis using T(1,3) i by (cases go) (auto simp: res(2,3) job_tied_def)
  next
    case False
    have ne: "job_seq (jobs ! m) \<noteq> job_seq ?j"
      using D(3) m i False by (metis distinct_conv_nth length_map nth_map)
    then have t: "job_tied Q ?e (jobs ! m)" using D(2) m job_tied_drop [OF ne, of Q ?e] by (simp add: list_all_length)
    then have "job_tied Q (eg_release_sequence E ?e (job_seq ?j)) (jobs ! m)"
      by (rule job_tied_same [OF _ release_same [OF D(1)]]) (use ne in simp)
    with t False show ?thesis by (simp add: res(2,3) sq)
  qed
  moreover have "list_all job_ok jobs'"
    using carried_maps(3) [OF all_carried_update [OF i c]] D(4) by (simp add: res(2))
  moreover have "ready (sd_engine s')" using D(1) by (simp add: res(3) release_script(1))
  ultimately show "batch_tied Q (sd_engine s') jobs'"
    using D(3) maps by (simp add: batch_tied_def list_all_length res(2))
  show "x = None" "m \<noteq> i \<Longrightarrow> jobs' ! m = jobs ! m" "length jobs' = length jobs" by (simp_all add: res)
qed

lemma static_accepts_script:
  assumes "batch_tied ((\<lambda>i. job_seq (jobs ! i)) ` set is) (sd_engine s) jobs" and "distinct is"
    and "\<forall>i\<in>set is. i < length jobs \<and> \<not> job_done (jobs ! i)"
    and "\<forall>m<length is. at_step steps (k + m) = Inr (step_at sc (job_seq (jobs ! (is ! m)))
      (completion_tokens (sq_usage (jb_state (jobs ! (is ! m))))))"
    and "static_accepts X E steps k is jobs s = (x, jobs', s')"
  shows "x = None \<and> batch_tied {} (sd_engine s') jobs'"
  using assms
proof (induction "is" arbitrary: k jobs s)
  case Nil
  then show ?case by simp
next
  case (Cons i "is")
  let ?Q = "(\<lambda>i. job_seq (jobs ! i)) ` set is"
  obtain y jobs1 s1 where a: "static_accept X E steps k i jobs s = (y, jobs1, s1)" by (metis prod_cases3)
  have i: "i < length jobs" "\<not> job_done (jobs ! i)" "i \<notin> set is" using Cons.prems(2,3) by simp_all
  have d: "distinct (map job_seq jobs)" using Cons.prems(1) by (simp add: batch_tied_def)
  have nq: "job_seq (jobs ! i) \<notin> ?Q"
    using d i(1,3) Cons.prems(3) by (auto simp: distinct_conv_nth)
  have st: "at_step steps k = Inr (step_at sc (job_seq (jobs ! i)) (completion_tokens (sq_usage (jb_state (jobs ! i)))))"
    using Cons.prems(4) [rule_format, of 0] by simp
  note A = static_accept_script [OF _ i(1,2) nq st a]
  have B: "batch_tied (insert (job_seq (jobs ! i)) ?Q) (sd_engine s) jobs" using Cons.prems(1) by simp
  note A = A [OF B]
  have same: "jobs1 ! m = jobs ! m" if "m \<in> set is" for m using A(3) [of m] i(3) that by metis
  have "x = None \<and> batch_tied {} (sd_engine s') jobs'"
  proof (rule Cons.IH [of jobs1 s1 "Suc k"])
    show "batch_tied ((\<lambda>i. job_seq (jobs1 ! i)) ` set is) (sd_engine s1) jobs1" using A(2) same by (simp cong: image_cong)
    show "distinct is" using Cons.prems(2) by simp
    show "\<forall>i\<in>set is. i < length jobs1 \<and> \<not> job_done (jobs1 ! i)" using Cons.prems(3) same A(4) by simp
    show "\<forall>m<length is. at_step steps (Suc k + m) = Inr (step_at sc (job_seq (jobs1 ! (is ! m)))
      (completion_tokens (sq_usage (jb_state (jobs1 ! (is ! m))))))"
    proof (intro allI impI)
      fix m assume "m < length is"
      with Cons.prems(4) [rule_format, of "Suc m"] same [of "is ! m"]
      show "at_step steps (Suc k + m) = Inr (step_at sc (job_seq (jobs1 ! (is ! m)))
        (completion_tokens (sq_usage (jb_state (jobs1 ! (is ! m))))))" by simp
    qed
    show "static_accepts X E steps (Suc k) is jobs1 s1 = (x, jobs', s')" using Cons.prems(5) a A(1) by simp
  qed
  then show ?case .
qed

lemma static_decode_script:
  assumes B: "batch_tied {} (sd_engine s) jobs" and "distinct is" and I: "\<forall>i\<in>set is. i < length jobs \<and> \<not> job_done (jobs ! i)"
    and items: "map it_seq items = map (\<lambda>i. job_seq (jobs ! i)) is" "list_all it_sample items"
    and run: "static_decode X E items is jobs s = (x, jobs', s')"
  shows "x = None" and "batch_tied {} (sd_engine s') jobs'"
proof -
  let ?e = "sd_engine s" and ?Q = "(\<lambda>i. job_seq (jobs ! i)) ` set is"
  have D: "ready ?e" "list_all (job_tied {} ?e) jobs" "distinct (map job_seq jobs)" "list_all job_ok jobs"
    using B by (simp_all add: batch_tied_def)
  have all: "filter it_sample items = items" using items(2) by (simp add: list_all_iff)
  have inj: "inj_on (\<lambda>i. job_seq (jobs ! i)) (set is)"
    using D(3) I by (auto simp: inj_on_def distinct_conv_nth)
  have dist: "distinct (map it_seq items)" unfolding items(1) using \<open>distinct is\<close> inj by (simp add: distinct_map)
  have seqs: "it_seq ` set items = ?Q" using arg_cong [OF items(1), of set] by simp
  have lv: "it_seq ` set items \<subseteq> live ?e" unfolding seqs using I D(2) by (auto simp: list_all_length job_tied_def)
  obtain e' where d: "eg_decode E ?e items = (Inr (map (\<lambda>it. step_at sc (it_seq it) (drawn ?e (it_seq it))) items), e')" "ready e'"
      "\<And>q. drawn e' q = (if q \<in> ?Q \<and> \<not> snd (sc (drawn ?e q)) then Suc (drawn ?e q) else drawn ?e q)"
    using decode_script [OF D(1) dist lv] unfolding all seqs by blast
  define steps where "steps = map (\<lambda>q. step_at sc q (drawn ?e q)) (map it_seq items)"
  have dec: "eg_decode E ?e items = (Inr steps, e')" using d(1) by (simp add: steps_def comp_def)
  have "job_tied ?Q e' j" if "j \<in> set jobs" for j
    using D(2) that decode_live [OF dec] d(3) [of "job_seq j"] by (auto simp: job_tied_def list_all_iff Let_def)
  then have B2: "batch_tied ?Q (sd_engine (s\<lparr>sd_engine := e'\<rparr>)) jobs" using D d(2) by (simp add: batch_tied_def list_all_iff)
  have "\<forall>m<length is. at_step steps (0 + m) = Inr (step_at sc (job_seq (jobs ! (is ! m)))
      (completion_tokens (sq_usage (jb_state (jobs ! (is ! m))))))"
    using I D(2) by (auto simp: steps_def items(1) at_step_def list_all_length job_tied_def)
  from static_accepts_script [OF B2 \<open>distinct is\<close> I this] run dec
  show "x = None" "batch_tied {} (sd_engine s') jobs'" by (simp_all add: static_decode_def)
qed

lemma batch_tied_advanced:
  assumes "batch_tied {} e jobs" and "list_all2 advanced jobs jobs'"
  shows "batch_tied {} e jobs'"
proof -
  have ok: "job_ok j \<Longrightarrow> job_ok j'" and tied: "job_tied {} e j \<Longrightarrow> job_tied {} e j'" if "advanced j j'" for j j'
  proof -
    show "job_tied {} e j \<Longrightarrow> job_tied {} e j'"
      using advanced_facts [OF that] by (auto simp: job_tied_def)
    show "job_ok j \<Longrightarrow> job_ok j'" using that by (auto simp: advanced_def job_ok_def take_prefill_chunk_inv)
  qed
  from assms(2) have "map job_seq jobs' = map job_seq jobs \<and> (list_all job_ok jobs \<longrightarrow> list_all job_ok jobs') \<and>
      (list_all (job_tied {} e) jobs \<longrightarrow> list_all (job_tied {} e) jobs')"
    by (induction rule: list_all2_induct) (auto simp: advanced_facts(1) ok tied)
  with assms(1) show ?thesis by (simp add: batch_tied_def)
qed

lemma prefill_phase_script:
  assumes "batch_tied {} (sd_engine s) jobs" and "prefill_phase X E nb i jobs s = (x, jobs', s')"
  shows "x = None \<and> batch_tied {} (sd_engine s') jobs'"
  using assms
proof (induction "length jobs - i" arbitrary: i jobs s rule: less_induct)
  case less
  show ?case
  proof (cases "i < length jobs")
    case False
    with less.prems show ?thesis by (simp add: prefill_phase.simps [of X E nb i jobs s])
  next
    case i: True
    obtain i' js' items sub where g: "gather nb i (drop i jobs) False 0 = (i', js', items, sub)" by (metis prod_cases4)
    let ?jobs1 = "take i jobs @ js'"
    have "list_all job_ok (drop i jobs)"
      using less.prems(1) by (auto simp: batch_tied_def list_all_iff dest: in_set_dropD)
    note G = gather_items [OF g this]
    have adv: "list_all2 advanced jobs ?jobs1"
    proof -
      have "list_all2 advanced (take i jobs) (take i jobs)" by (simp add: list_all2_refl advanced_def)
      from list_all2_appendI [OF this conjunct1 [OF G]] show ?thesis by simp
    qed
    note B1 = batch_tied_advanced [OF less.prems(1) adv] and sm = prefill_phase_smaller [OF g i]
    have sub: "k < length ?jobs1 \<and> \<not> job_done (?jobs1 ! k) \<and> job_seq (?jobs1 ! k) = job_seq (drop i jobs ! (k - i))"
      if "k \<in> set sub" for k
    proof -
      from that G have k: "i \<le> k" "k < length jobs" "\<not> job_done (drop i jobs ! (k - i))" by auto
      then have "drop i jobs ! (k - i) = jobs ! k" by simp
      moreover have "advanced (jobs ! k) (?jobs1 ! k)" using adv k(2) by (simp add: list_all2_conv_all_nth)
      ultimately show ?thesis using k sm(2) advanced_facts(1,2) by metis
    qed
    show ?thesis
    proof (cases "items = []")
      case True
      with less.prems(2) i g have r: "prefill_phase X E nb i' ?jobs1 s = (x, jobs', s')"
        by (simp add: prefill_phase.simps [of X E nb i jobs s])
      have "length ?jobs1 - i' < length jobs - i" using sm(1,2) i by simp
      from less.hyps [OF this B1 r] show ?thesis .
    next
      case False
      obtain y jobs2 s2 where d: "static_decode X E items sub ?jobs1 s = (y, jobs2, s2)" by (metis prod_cases3)
      have it: "map it_seq items = map (\<lambda>k. job_seq (?jobs1 ! k)) sub" using G sub by simp
      have "distinct sub" using gather_step [OF g, of 0] by blast
      note D = static_decode_script [OF B1 this _ it _ d]
      have y: "y = None" and B2: "batch_tied {} (sd_engine s2) jobs2" using D sub G by blast+
      have "prefill_phase X E nb i' jobs2 s2 = (x, jobs', s')"
        using less.prems(2) i g False d y by (simp add: prefill_phase.simps [of X E nb i jobs s])
      from less.hyps [OF sm(3) [OF d] B2 this] show ?thesis .
    qed
  qed
qed

lemma decode_rounds_script:
  assumes "batch_tied {} (sd_engine s) jobs" and "decode_rounds fuel X E jobs s = Some (x, jobs', s')"
  shows "x = None \<and> batch_tied {} (sd_engine s') jobs'"
  using assms
proof (induction fuel arbitrary: jobs s)
  case 0
  then show ?case by simp
next
  case (Suc fuel)
  let ?items = "map (\<lambda>i. decode_item (jb_state (jobs ! i))) (unfinished jobs)"
  show ?case
  proof (cases "unfinished jobs = []")
    case True
    with Suc.prems show ?thesis by simp
  next
    case False
    obtain y jobs2 s2 where d: "static_decode X E ?items (unfinished jobs) jobs s = (y, jobs2, s2)" by (metis prod_cases3)
    have "\<forall>i\<in>set (unfinished jobs). i < length jobs \<and> \<not> job_done (jobs ! i)" by (auto simp: unfinished_def)
    moreover have "map it_seq ?items = map (\<lambda>i. job_seq (jobs ! i)) (unfinished jobs)" "list_all it_sample ?items"
      by (simp_all add: decode_item_def job_seq_def list_all_iff)
    ultimately have "y = None" "batch_tied {} (sd_engine s2) jobs2"
      using static_decode_script [OF Suc.prems(1) unfinished_facts(2) _ _ _ d] by blast+
    with Suc.IH [of s2 jobs2] Suc.prems(2) False d show ?thesis by (simp add: Let_def)
  qed
qed

lemma settle_script:
  assumes "list_all job_ok jobs" and "list_all job_done jobs" and "list_all (\<lambda>j. on_script sc tx (jb_state j)) jobs"
    and "list_all delivered_script (sd_fulfilled s)"
  shows "sd_engine (fold (settle_job X) jobs s) = sd_engine s \<and> list_all delivered_script (sd_fulfilled (fold (settle_job X) jobs s))"
  using assms
proof (induction jobs arbitrary: s)
  case Nil
  then show ?case by simp
next
  case (Cons j js)
  have "delivered_script (delivery X n (j\<lparr>jb_state := finish (jb_state j)\<rparr>))" for n
    using Cons.prems finish_job_ok [of j] by (intro delivery_script) (simp_all add: on_script_finish job_done_def)
  then have "list_all delivered_script (sd_fulfilled (settle_job X j s))" "sd_engine (settle_job X j s) = sd_engine s"
    using Cons.prems(4) by (auto simp: settle_job_def Let_def deliver_fulfilled split: option.splits prod.splits)
  with Cons.IH [of "settle_job X j s"] Cons.prems show ?case by simp
qed

lemma run_batch_script:
  assumes r: "ready (sd_engine s)" and d: "list_all delivered_script (sd_fulfilled s)" and refs: "refs_of (sd_blocks s) H"
    and ok: "list_all request_ok batch" and len: "length batch < 2147483648" and run: "run_batch fuel X E batch s = Some res"
  shows "\<exists>s'. res = Inr s' \<and> ready (sd_engine s') \<and> list_all delivered_script (sd_fulfilled s')"
proof (cases "batch = []")
  case True
  with run r d show ?thesis by (auto simp: run_batch_def)
next
  case ne: False
  obtain jobs s1 where mk: "make_jobs X E 0 batch s = Inr (jobs, s1)" "ready (sd_engine s1)"
      "list_all (job_tied {} (sd_engine s1)) jobs" "map job_seq jobs = map int [0..<0 + length batch]"
    using make_jobs_script [OF r _ ok, of 0 X] len by auto
  note J = make_jobs_step [OF mk(1) ok refs, of 0]
  have B1: "batch_tied {} (sd_engine s1) jobs" using mk J by (simp add: batch_tied_def distinct_map)
  obtain x jobs2 s2 where pf: "prefill_phase X E (n_batch (eg_caps E (sd_engine s1))) 0 jobs s1 = (x, jobs2, s2)"
    by (metis prod_cases3)
  have P: "x = None" "batch_tied {} (sd_engine s2) jobs2" using prefill_phase_script [OF B1 pf] by blast+
  have "list_all job_ok jobs" using J by blast
  note P2 = prefill_phase_step [OF pf this, of 0]
  obtain y jobs3 s3 where dr: "decode_rounds fuel X E jobs2 s2 = Some (y, jobs3, s3)"
    using run ne mk(1) pf P(1) by (auto simp: run_batch_def split: option.splits)
  note R = decode_rounds_step [OF dr]
  have D: "y = None" "batch_tied {} (sd_engine s3) jobs3" using decode_rounds_script [OF P(2) dr] by blast+
  have ful: "sd_fulfilled s3 = sd_fulfilled s" using J P2 R by (simp add: same_rest_def)
  have res: "res = Inr (publish_usage (fold (settle_job X) jobs3 s3))"
    using run ne mk(1) pf P(1) dr D(1) by (simp add: run_batch_def)
  have T: "list_all job_ok jobs3" "list_all job_done jobs3" "list_all (\<lambda>j. on_script sc tx (jb_state j)) jobs3" "ready (sd_engine s3)"
    using D R by (auto simp: batch_tied_def list_all_iff job_tied_def)
  from settle_script [OF T(1-3), of s3 X] d ful T(4) show ?thesis by (simp add: res publish_usage_def)
qed

lemma run_static_script:
  assumes "static_inv s" and "ready (sd_engine s)" and "list_all delivered_script (sd_fulfilled s)"
    and "0 < cf_max_batch_size (sd_config s)" and "cf_max_batch_size (sd_config s) < 2147483648"
    and "run_static n fuel X E s = Some t"
  shows "(\<forall>m. t \<noteq> Throws m) \<and> (\<forall>s'. t = Returns s' \<longrightarrow> list_all delivered_script (sd_fulfilled s'))"
  using assms
proof (induction n arbitrary: s)
  case 0
  then show ?case by simp
next
  case (Suc n)
  show ?case
  proof (cases "next_batch s")
    case None
    with Suc.prems(6) show ?thesis by (auto simp: static_turn_def)
  next
    case (Some bs)
    obtain batch s1 where nb: "next_batch s = Some (batch, s1)" using Some by (cases bs) simp
    have D: "outside (sd_queue s) (tickets (map fst (sd_fulfilled s)))" "world_ok (sd_queue s)" "refs_of (sd_blocks s) {#}"
      using Suc.prems(1) by (simp_all add: static_inv_def)
    note B = next_batch_step [OF nb D(1,2)]
    obtain w where w: "s1 = s\<lparr>sd_queue := w\<rparr>" using B(4) by blast
    show ?thesis
    proof (cases "batch = []")
      case True
      with Suc.prems(3,6) nb w show ?thesis by (auto simp: static_turn_def)
    next
      case False
      have len: "length batch < 2147483648" using B(5) Suc.prems(4,5) by simp
      obtain res where rb: "run_batch fuel X E batch s1 = Some res"
        using Suc.prems(6) nb False by (auto simp: static_turn_def split: option.splits)
      have "ready (sd_engine s1)" "list_all delivered_script (sd_fulfilled s1)" "refs_of (sd_blocks s1) {#}"
        using Suc.prems(2,3) D(3) by (simp_all add: w)
      note R = run_batch_script [OF this B(3) len rb]
      obtain s2 where s2: "res = Inr s2" "ready (sd_engine s2)" "list_all delivered_script (sd_fulfilled s2)" using R by blast
      have t: "static_turn fuel X E s = Some (Goes_on s2)" using nb False rb s2(1) by (simp add: static_turn_def)
      have "sd_config s2 = sd_config s"
        using run_batch_ok(2) [OF rb [unfolded s2(1)] B(3), of "{#}"] D(3) by (simp add: w same_queue_def)
      with Suc.IH [OF static_turn_inv(1) [OF Suc.prems(1) t] s2(2,3)] Suc.prems(4-6) t show ?thesis by simp
    qed
  qed
qed

end

section \<open>Both modes on the mock engine\<close>

lemma run_mock_alone:
  assumes ok: "config_ok (eg_caps mock_engine (MockModelEngine_new mc)) config" and w: "world_start w" and echo: "\<not> mc_echo_prompt mc"
    and run: "run n fuel X mock_engine (Scheduler_new mock_engine (MockModelEngine_new mc) w config) = Some t"
  shows "t \<noteq> Throws m" and "t = Returns s \<Longrightarrow> (r, g, calls) \<in> set (sd_fulfilled s) \<Longrightarrow> as_alone mc r g"
proof -
  let ?e = "MockModelEngine_new mc"
  let ?s0 = "Scheduler_new mock_engine ?e w config"
  note F = Scheduler_new_facts [OF ok, of w]
  have ready: "mock_replays (mc_response mc) ?e" using echo by (simp add: mock_replays_def MockModelEngine_new_def)
  have "(\<forall>m. t \<noteq> Throws m) \<and>
    (\<forall>s. t = Returns s \<longrightarrow> list_all (mock_script.delivered_script (mc_response mc)) (sd_fulfilled s))"
  proof (cases "cf_mode (sd_config ?s0) = kContinuous")
    case True
    let ?nb = "n_batch (eg_caps mock_engine (sd_engine ?s0))"
    from True run obtain t1 where r: "run_continuous n X mock_engine ?s0 = Some t1" and t: "t = map_turn scheduler_of t1"
      by (auto simp: run_def)
    obtain s1 where s1: "loop_reach X mock_engine ?nb (loop_start ?s0) s1" "iteration X mock_engine ?nb s1 = t1"
      using run_loop_reach [OF r [unfolded run_continuous_def] loop_reach.start] by blast
    note R = reach_mock_script [OF ok w echo s1(1)]
    from mock_script.iteration_script [OF R, of X ?nb] s1(2) show ?thesis
      by (cases t1) (auto simp: t mock_script.script_inv_def scheduler_of_def Scheduler.truncate_def)
  next
    case False
    with run have r: "run_static n fuel X mock_engine ?s0 = Some t" by (simp add: run_def)
    show ?thesis
      by (rule mock_script.run_static_script [OF Scheduler_new_static [OF ok w] _ _ F(1,2) r]) (simp_all add: F(7,8) ready)
  qed
  then show "t \<noteq> Throws m" "t = Returns s \<Longrightarrow> (r, g, calls) \<in> set (sd_fulfilled s) \<Longrightarrow> as_alone mc r g"
    using delivered_as_alone [OF _ echo] by blast+
qed

end
