(* ===== verification/Mv_Livelock.thy ===== *)
theory Mv_Livelock
  imports Mv_ContinuousRun Mv_MockEngine
begin

text \<open>
  A run of \<open>run_continuous\<close> that never returns although the queue is closed and every request
  fits the pool on its own: two requests preempt each other forever. The clock is arbitrary
  and nobody cancels. What the loop never reads back (statistics, histograms, time stamps,
  the ledger, the number of reads so far, the engine's count of prefilled tokens) is a
  parameter of the states of the cycle, so each four turns are evaluated once for all of them.
\<close>

section \<open>Turns that go on\<close>

primrec goes :: "nat \<Rightarrow> outer \<Rightarrow> 'e IModelEngine \<Rightarrow> nat \<Rightarrow> ('e, 'm) Loop_scheme \<Rightarrow> ('e, 'm) Loop_scheme option" where
  "goes 0 X E nb s = Some s"
| "goes (Suc n) X E nb s = (case iteration X E nb s of Goes_on s1 \<Rightarrow> goes n X E nb s1 | _ \<Rightarrow> None)"

lemma run_loop_goes:
  "goes n X E nb s = Some s' \<Longrightarrow> run_loop fuel X E nb s = (if fuel \<le> n then None else run_loop (fuel - n) X E nb s')"
proof (induction n arbitrary: s fuel)
  case 0
  then show ?case by simp
next
  case (Suc n)
  then show ?case by (cases fuel) (auto split: turn.splits)
qed

lemma goes_add: "goes m X E nb s = Some s1 \<Longrightarrow> goes (m + n) X E nb s = goes n X E nb s1"
  by (induction m arbitrary: s) (auto split: turn.splits)

lemma run_loop_forever:
  assumes "\<And>s. P s \<Longrightarrow> \<exists>s'. goes n X E nb s = Some s' \<and> P s'" and "0 < n" and "P s"
  shows "run_loop fuel X E nb s = None"
  using assms(3)
proof (induction fuel arbitrary: s rule: less_induct)
  case (less fuel)
  obtain s' where s': "goes n X E nb s = Some s'" "P s'" using assms(1) [OF less.prems] by blast
  show ?case
  proof (cases "fuel \<le> n")
    case False
    then have "fuel - n < fuel" using assms(2) by simp
    from less.IH [OF this s'(2)] run_loop_goes [OF s'(1), of fuel] show ?thesis by simp
  qed (use run_loop_goes [OF s'(1), of fuel] in simp)
qed

section \<open>The scenario\<close>

text \<open>Three requests with an empty prompt and a budget of four tokens; seven blocks of one token.\<close>

definition lv_outer :: "(nat \<Rightarrow> TimePoint) \<Rightarrow> outer" where
  "lv_outer c = \<lparr>xt_clock = c, xt_cancelled = (\<lambda>_ _. False)\<rparr>"

definition lv_mock :: MockConfig where
  "lv_mock = \<lparr>mc_response = ''xxxxx'', mc_echo_prompt = False, mc_token_latency = 0,
     mc_n_ctx = 64, mc_n_batch = 16, mc_n_seq_max = 3\<rparr>"

definition lv_spec :: RequestSpec where
  "lv_spec = \<lparr>prompt = [], stop = [], max_tokens = 4, sampling = SamplingParams_default\<rparr>"

definition lv_request :: "nat \<Rightarrow> RequestTiming \<Rightarrow> Request" where
  "lv_request i t = \<lparr>rq_id = i, rq_spec = lv_spec, rq_sink = None, rq_timing = t\<rparr>"

definition lv_requests :: "Request list" where
  "lv_requests = map (\<lambda>i. lv_request i RequestTiming_default) [1, 2, 3]"

definition lv_world :: queue_world where
  "lv_world = \<lparr>qw_queue = \<lparr>qu_queue = lv_requests, qu_capacity = 4, qu_closed = True\<rparr>,
     qw_script = [], qw_accepted = lv_requests\<rparr>"

definition lv_config :: SchedulerConfig where
  "lv_config = \<lparr>cf_max_batch_size = 3, cf_mode = kContinuous, cf_kv_blocks = 7, cf_block_size = 1,
     cf_prefix_donors = 0, cf_prefix_caching = False, cf_prefill_chunk = 4\<rparr>"

definition lv_scheduler :: "MockModelEngine Scheduler" where
  "lv_scheduler = Scheduler_new mock_engine (MockModelEngine_new lv_mock) lv_world lv_config"

section \<open>The states of the cycle\<close>

text \<open>Request 1 holds three blocks and has two tokens; request 3 waits; four blocks are free.\<close>

definition lv_engine :: "nat \<Rightarrow> MockModelEngine" where
  "lv_engine pf = \<lparr>mk_config = lv_mock, mk_response_tokens = map byte_token (mc_response lv_mock),
     mk_sequences = [(0, \<lparr>ss_gen_index = 2, ss_prefilled = []\<rparr>)], mk_tokens_copied = 0, mk_tokens_prefilled = pf\<rparr>"

definition lv_job :: "nat list \<Rightarrow> RequestTiming \<Rightarrow> Job" where
  "lv_job bs t = \<lparr>jb_request = lv_request 1 t,
     jb_state = \<lparr>sq_seq = 0, sq_spec = lv_spec, sq_sink = [OnText ''x'', OnText ''x''], sq_prompt = [kBosToken],
       sq_holdback = 0, sq_prefilled = 1, sq_pending = 120, sq_text = ''xx'', sq_emitted = 2,
       sq_usage = \<lparr>prompt_tokens = 1, completion_tokens = 2, cached_prompt_tokens = 0\<rparr>,
       sq_reason = kUnset, sq_finished = False, sq_notified = False, sq_error = []\<rparr>,
     jb_blocks = Some \<lparr>bt_blocks = bs, bt_n_tokens = 3, bt_shared_prefix_blocks = 0, bt_shared_prefix_tokens = 0\<rparr>\<rparr>"

definition lv_state :: "nat list \<Rightarrow> nat list \<Rightarrow> nat \<Rightarrow> TimePoint \<Rightarrow> TimePoint \<Rightarrow> Stats \<Rightarrow> LatencyHistogram \<Rightarrow> LatencyHistogram \<Rightarrow>
   nat \<Rightarrow> (Request \<times> GenResult \<times> sink_call list) list \<Rightarrow> MockModelEngine Loop" where
  "lv_state bs fs pf t u st h1 h2 tk ful =
     \<lparr>sd_engine = lv_engine pf, sd_queue = lv_world\<lparr>qw_queue := (qw_queue lv_world)\<lparr>qu_queue := []\<rparr>\<rparr>, sd_config = lv_config,
      sd_blocks = \<lparr>ba_total = 7, ba_block_size = 1, ba_free_list = fs,
        ba_refcounts = map (\<lambda>b. if b \<in> set bs then 1 else 0) [0, 1, 2, 3, 4, 5, 6]\<rparr>,
      sd_prefix_cache = \<lparr>pc_entries = [], pc_free_donor_slots = [], pc_first_donor_slot = 3, pc_donor_capacity = 0, pc_tick = 0\<rparr>,
      sd_stats = st, sd_ttft_hist = h1, sd_e2e_hist = h2, sd_ticks = tk, sd_fulfilled = ful,
      lp_free_slots = [2, 1],
      lp_active = [lv_job bs (RequestTiming_default\<lparr>tm_admitted := Some t, tm_first_token := Some u\<rparr>)],
      lp_pending = [lv_request 3 RequestTiming_default]\<rparr>"

text \<open>A state with what the loop never reads back blanked out.\<close>

definition blank_job :: "Job \<Rightarrow> Job" where
  "blank_job j = j\<lparr>jb_request := (jb_request j)\<lparr>rq_timing := (rq_timing (jb_request j))\<lparr>
     tm_admitted := map_option (\<lambda>_. 0) (tm_admitted (rq_timing (jb_request j))),
     tm_first_token := map_option (\<lambda>_. 0) (tm_first_token (rq_timing (jb_request j)))\<rparr>\<rparr>\<rparr>"

definition blank :: "MockModelEngine Loop \<Rightarrow> MockModelEngine Loop" where
  "blank s = s\<lparr>sd_engine := (sd_engine s)\<lparr>mk_tokens_prefilled := 0\<rparr>, sd_stats := Stats_default,
     sd_ttft_hist := LatencyHistogram_new, sd_e2e_hist := LatencyHistogram_new, sd_ticks := 0, sd_fulfilled := [],
     lp_active := map blank_job (lp_active s)\<rparr>"

definition lv_blank :: "nat list \<Rightarrow> nat list \<Rightarrow> MockModelEngine Loop" where
  "lv_blank bs fs = lv_state bs fs 0 0 0 Stats_default LatencyHistogram_new LatencyHistogram_new 0 []"

lemma blank_job_eq:
  assumes "blank_job j = lv_job bs (RequestTiming_default\<lparr>tm_admitted := Some 0, tm_first_token := Some 0\<rparr>)"
  shows "\<exists>t u. j = lv_job bs (RequestTiming_default\<lparr>tm_admitted := Some t, tm_first_token := Some u\<rparr>)"
proof -
  obtain r st b where j: "j = \<lparr>jb_request = r, jb_state = st, jb_blocks = b\<rparr>" by (cases j)
  obtain i sp si tm where r: "r = \<lparr>rq_id = i, rq_spec = sp, rq_sink = si, rq_timing = tm\<rparr>" by (cases r)
  obtain en ad fi fn where tm: "tm = \<lparr>tm_enqueued = en, tm_admitted = ad, tm_first_token = fi, tm_finished = fn\<rparr>" by (cases tm)
  from assms show ?thesis
    by (auto simp: j r tm blank_job_def lv_job_def lv_request_def RequestTiming_default_def)
qed

lemma blank_eq:
  assumes "blank s = lv_blank bs fs"
  shows "\<exists>pf t u st h1 h2 tk ful. s = lv_state bs fs pf t u st h1 h2 tk ful"
proof -
  obtain e w cf a c st h1 h2 tk ful sl act pend where
    s: "s = \<lparr>sd_engine = e, sd_queue = w, sd_config = cf, sd_blocks = a, sd_prefix_cache = c, sd_stats = st,
      sd_ttft_hist = h1, sd_e2e_hist = h2, sd_ticks = tk, sd_fulfilled = ful, lp_free_slots = sl, lp_active = act, lp_pending = pend\<rparr>"
    by (cases s)
  obtain j where j: "act = [j]" "blank_job j = lv_job bs (RequestTiming_default\<lparr>tm_admitted := Some 0, tm_first_token := Some 0\<rparr>)"
    using assms by (auto simp: s blank_def lv_blank_def lv_state_def)
  obtain pf where "e = lv_engine pf"
    using assms by (cases e) (auto simp: s blank_def lv_blank_def lv_state_def lv_engine_def)
  with j(1) blank_job_eq [OF j(2)] assms show ?thesis
    by (auto simp: s blank_def lv_blank_def lv_state_def)
qed

definition lv_goes :: "nat \<Rightarrow> (nat \<Rightarrow> TimePoint) \<Rightarrow> MockModelEngine Loop \<Rightarrow> MockModelEngine Loop option" where
  "lv_goes n c s = map_option blank (goes n (lv_outer c) mock_engine 16 s)"

text \<open>
  Four turns bring the cycle back with the blocks renamed; the renaming has order five.
  Request 1 gets its third token and request 3 is admitted and gets its first; request 3
  needs a block and preempts request 1; request 1 is admitted again; request 1 needs a
  block and preempts request 3.
\<close>

lemma lv_start: "lv_goes 5 c (loop_start lv_scheduler) = Some (lv_blank [6, 0, 3] [1, 4, 5, 2])"
  by code_simp

lemma lv_cycle_1: "lv_goes 4 c (lv_state [6, 0, 3] [1, 4, 5, 2] pf t u st h1 h2 tk ful) = Some (lv_blank [5, 0, 6] [2, 4, 1, 3])"
  by code_simp

lemma lv_cycle_2: "lv_goes 4 c (lv_state [5, 0, 6] [2, 4, 1, 3] pf t u st h1 h2 tk ful) = Some (lv_blank [1, 0, 5] [3, 4, 2, 6])"
  by code_simp

lemma lv_cycle_3: "lv_goes 4 c (lv_state [1, 0, 5] [3, 4, 2, 6] pf t u st h1 h2 tk ful) = Some (lv_blank [2, 0, 1] [6, 4, 3, 5])"
  by code_simp

lemma lv_cycle_4: "lv_goes 4 c (lv_state [2, 0, 1] [6, 4, 3, 5] pf t u st h1 h2 tk ful) = Some (lv_blank [3, 0, 2] [5, 4, 6, 1])"
  by code_simp

lemma lv_cycle_5: "lv_goes 4 c (lv_state [3, 0, 2] [5, 4, 6, 1] pf t u st h1 h2 tk ful) = Some (lv_blank [6, 0, 3] [1, 4, 5, 2])"
  by code_simp

lemma lv_goesD: "lv_goes n c s = Some b \<Longrightarrow> \<exists>s'. goes n (lv_outer c) mock_engine 16 s = Some s' \<and> blank s' = b"
  by (auto simp: lv_goes_def)

lemma lv_step:
  assumes "\<And>pf t u st h1 h2 tk ful. lv_goes n c (lv_state bs fs pf t u st h1 h2 tk ful) = Some b"
    and "goes m (lv_outer c) mock_engine 16 s = Some s1 \<and> blank s1 = lv_blank bs fs"
  shows "\<exists>s'. goes (m + n) (lv_outer c) mock_engine 16 s = Some s' \<and> blank s' = b"
  using assms(1) blank_eq [of s1 bs fs] goes_add [of m _ _ _ s s1 n] assms(2) lv_goesD [of n c s1 b] by metis

lemma lv_round:
  assumes "blank s = lv_blank [6, 0, 3] [1, 4, 5, 2]"
  shows "\<exists>s'. goes (0 + 4 + 4 + 4 + 4 + 4) (lv_outer c) mock_engine 16 s = Some s' \<and> blank s' = lv_blank [6, 0, 3] [1, 4, 5, 2]"
proof -
  have 0: "goes 0 (lv_outer c) mock_engine 16 s = Some s \<and> blank s = lv_blank [6, 0, 3] [1, 4, 5, 2]"
    unfolding goes.simps(1) assms by (rule conjI [OF refl refl])
  from lv_step [OF lv_cycle_1 0] show ?thesis by (elim exE lv_step [OF lv_cycle_2, THEN exE] lv_step [OF lv_cycle_3, THEN exE]
    lv_step [OF lv_cycle_4, THEN exE] lv_step [OF lv_cycle_5])
qed

lemma lv_config_ok: "config_ok (eg_caps mock_engine (MockModelEngine_new lv_mock)) lv_config"
  by (simp add: config_ok_def lv_config_def MockModelEngine_new_def mock_caps_def lv_mock_def)

lemma lv_world_start: "world_start lv_world"
  by (simp add: world_start_def world_all_def lv_world_def lv_requests_def lv_request_def request_ok_def lv_spec_def)

text \<open>The prompt is the one token that begins a sequence.\<close>

lemma lv_fits: "blocks_for (sd_blocks lv_scheduler) (1 + max_tokens lv_spec) \<le> free_blocks (sd_blocks lv_scheduler)"
  by code_simp

lemma lv_never_returns: "run_continuous fuel (lv_outer c) mock_engine lv_scheduler = None"
proof -
  have nb: "n_batch (eg_caps mock_engine (sd_engine lv_scheduler)) = 16"
    by (simp add: lv_scheduler_def Scheduler_new_def Let_def mock_caps_def MockModelEngine_new_def lv_mock_def)
  obtain s where s: "goes 5 (lv_outer c) mock_engine 16 (loop_start lv_scheduler) = Some s" "blank s = lv_blank [6, 0, 3] [1, 4, 5, 2]"
    using lv_goesD [OF lv_start] by blast
  have "run_loop (fuel - 5) (lv_outer c) mock_engine 16 s = None"
    by (rule run_loop_forever [of "\<lambda>s. blank s = lv_blank [6, 0, 3] [1, 4, 5, 2]", OF lv_round _ s(2)]) simp_all
  then show ?thesis unfolding run_continuous_def nb run_loop_goes [OF s(1), of fuel] by simp
qed

end
