(* ===== verification/Mv_PrefixHit.thy ===== *)
theory Mv_PrefixHit
  imports Mv_ContinuousRun Mv_Generator
begin

text \<open>
  A prefix hit that covers the whole prompt. The scheduler copies all of the prompt's
  positions into the new sequence, but the sequence adopts one token less, so that its last
  prompt token is fed again at a position the copy has already filled. On the mock engine in
  echo mode the repeated token shows in the response.
\<close>

section \<open>What is fed after a full hit\<close>

lemma full_hit_refeeds:
  assumes on: "cf_prefix_caching (sd_config s)" and nd: "\<not> job_done job"
    and hit: "find_longest (sd_prefix_cache s) (sq_prompt (jb_state job)) (ba_block_size (sd_blocks s)) = (Some e, c)"
    and other: "en_seq e \<noteq> job_seq job" and full: "en_n_tokens e = length (sq_prompt (jb_state job))"
    and ne: "sq_prompt (jb_state job) \<noteq> []" and run: "share_prefix E s job = Inr (job', s')" and b: "0 < budget"
  defines "n \<equiv> length (sq_prompt (jb_state job))"
  shows "eg_copy_sequence E (sd_engine s) (en_seq e) (job_seq job) (i32 (int n)) = (None, sd_engine s')"
    and "it_tokens (fst (take_prefill_chunk (jb_state job') budget)) = [last (sq_prompt (jb_state job))]"
    and "it_pos0 (fst (take_prefill_chunk (jb_state job') budget)) = i32 (int (n - 1))"
proof -
  obtain x eng where cp: "eg_copy_sequence E (sd_engine s) (en_seq e) (job_seq job) (i32 (int n)) = (x, eng)" by fastforce
  obtain a t where ad: "adopt_shared_prefix (sd_blocks s) (job_table job) (en_blocks e) n = (a, t)" by fastforce
  have step: "share_prefix E s job = (case x of Some m \<Rightarrow> Inl m | None \<Rightarrow>
      Inr (job\<lparr>jb_blocks := Some t, jb_state := adopt_cached_prefix (jb_state job) n\<rparr>,
        s\<lparr>sd_prefix_cache := c, sd_engine := eng, sd_blocks := a,
          sd_stats := (sd_stats s)\<lparr>sx_prefix_hits := u64 (sx_prefix_hits (sd_stats s) + 1),
            sx_prefix_tokens_saved := u64 (sx_prefix_tokens_saved (sd_stats s) + n)\<rparr>\<rparr>))"
    using on nd other full [folded n_def] cp ad by (simp add: share_prefix_def hit Let_def split: option.split)
  then have x: "x = None" using run by (cases x) simp_all
  with step run have eng: "sd_engine s' = eng" and st: "jb_state job' = adopt_cached_prefix (jb_state job) n" by auto
  show "eg_copy_sequence E (sd_engine s) (en_seq e) (job_seq job) (i32 (int n)) = (None, sd_engine s')" using cp x eng by simp
  have p: "sq_prompt (jb_state job') = sq_prompt (jb_state job)" "sq_prefilled (jb_state job') = n - 1"
    using ne by (simp_all add: st adopt_cached_prefix_def Let_def n_def)
  have "take (min budget 1) (drop (n - 1) (sq_prompt (jb_state job))) = [last (sq_prompt (jb_state job))]"
    using ne b unfolding n_def by (cases "sq_prompt (jb_state job)" rule: rev_cases) simp_all
  moreover have "n - (n - 1) = 1" using ne by (cases "sq_prompt (jb_state job)") (simp_all add: n_def)
  ultimately show "it_tokens (fst (take_prefill_chunk (jb_state job') budget)) = [last (sq_prompt (jb_state job))]"
    "it_pos0 (fst (take_prefill_chunk (jb_state job') budget)) = i32 (int (n - 1))"
    using p by (simp_all add: take_prefill_chunk_def Let_def prefill_remaining_def n_def [symmetric])
qed

section \<open>The same request twice\<close>

definition ph_outer :: "(nat \<Rightarrow> TimePoint) \<Rightarrow> outer" where
  "ph_outer c = \<lparr>xt_clock = c, xt_cancelled = (\<lambda>_ _. False)\<rparr>"

definition ph_mock :: MockConfig where
  "ph_mock = \<lparr>mc_response = [], mc_echo_prompt = True, mc_token_latency = 0,
     mc_n_ctx = 64, mc_n_batch = 16, mc_n_seq_max = 2\<rparr>"

definition ph_spec :: RequestSpec where
  "ph_spec = \<lparr>prompt = ''a'', stop = [], max_tokens = 8, sampling = SamplingParams_default\<rparr>"

definition ph_requests :: "Request list" where
  "ph_requests = map (\<lambda>i. \<lparr>rq_id = i, rq_spec = ph_spec, rq_sink = None, rq_timing = RequestTiming_default\<rparr>) [1, 2]"

definition ph_world :: queue_world where
  "ph_world = \<lparr>qw_queue = \<lparr>qu_queue = ph_requests, qu_capacity = 4, qu_closed = True\<rparr>,
     qw_script = [], qw_accepted = ph_requests\<rparr>"

definition ph_config :: SchedulerConfig where
  "ph_config = \<lparr>cf_max_batch_size = 1, cf_mode = kContinuous, cf_kv_blocks = 8, cf_block_size = 2,
     cf_prefix_donors = 1, cf_prefix_caching = True, cf_prefill_chunk = 8\<rparr>"

definition ph_scheduler :: "MockModelEngine Scheduler" where
  "ph_scheduler = Scheduler_new mock_engine (MockModelEngine_new ph_mock) ph_world ph_config"

definition ph_delivered :: "MockModelEngine Loop \<Rightarrow> (nat \<times> string \<times> FinishReason) list" where
  "ph_delivered s = map (\<lambda>(r, g, calls). (rq_id r, gr_text g, gr_reason g)) (sd_fulfilled s)"

lemma ph_run:
  "case run_continuous 7 (ph_outer c) mock_engine ph_scheduler of
     Some (Returns s) \<Rightarrow> ph_delivered s = [(1, ''a'', kEos), (2, ''aa'', kEos)]
   | _ \<Rightarrow> False"
  by code_simp

lemma ph_alone:
  "case generate_one 9 mock_engine (\<lambda>_. False) (MockModelEngine_new ph_mock) 0 ph_spec [] of
     Some (None, st, e) \<Rightarrow> emitted_text st = ''a'' \<and> sq_reason st = kEos | _ \<Rightarrow> False"
  by code_simp

section \<open>Two prompts with one hash\<close>

text \<open>
  Two prompts of one block of 16 tokens, in a vocabulary of 128000, with the same hash.
\<close>

definition prompt_a :: "Token list" where
  "prompt_a = replicate 12 1 @ [48715, 100600, 123584, 0]"

definition prompt_b :: "Token list" where
  "prompt_b = replicate 12 1 @ [115753, 22801, 29137, 17644]"

lemma prompts_collide: "hash_prefix prompt_a 16 = hash_prefix prompt_b 16"
  by code_simp

lemma prompts_facts: "length prompt_a = 16" "length prompt_b = 16" "prompt_a \<noteq> prompt_b"
  "list_all (\<lambda>t. 0 \<le> t \<and> t < 128000) prompt_a" "list_all (\<lambda>t. 0 \<le> t \<and> t < 128000) prompt_b"
  by (simp_all add: prompt_a_def prompt_b_def list_all_iff)

lemma collision_served:
  assumes "en_n_tokens e = 16"
  shows "fst (find_longest (insert_entry c (hash_prefix prompt_a 16) e) prompt_b 16) = Some e"
proof -
  have "map_of (pc_entries (insert_entry c (hash_prefix prompt_b 16) e)) (hash_prefix prompt_b 16) =
      Some \<lparr>cr_entry = e, cr_last_used = u64 (pc_tick c + 1)\<rparr>"
    by (simp add: insert_entry_def Let_def update_conv')
  moreover have "prompt_b \<noteq> []" "u32 (length prompt_b div 16) = Suc 0" "u32 16 = 16"
    by (simp_all add: prompt_b_def u32_def)
  ultimately show ?thesis unfolding prompts_collide by (simp add: find_longest_def assms Let_def)
qed

end
