(* ===== verification/Mv_Shutdown.thy ===== *)
theory Mv_Shutdown
  imports Mv_Prelude
begin

text \<open>
  The threads of \<open>serve\<close> in \<open>src/http/server.cpp\<close> around the scheduler: the main thread from the
  installation of the signal handlers to the return, the watcher thread, the worker, and the
  handlers that the HTTP library runs. Every access to an atomic is one step, and the steps
  of the threads interleave in any order. Of the library it is used that \<open>listen\<close> returns once
  it was told to stop and its handlers have returned, or at once when it cannot bind; whether
  a \<open>stop\<close> that comes before \<open>listen\<close> is remembered is the parameter \<open>early\<close>. A handler returns
  when its request is answered, which is the business of the scheduler.
\<close>

section \<open>State\<close>

datatype main_pc = MReset | MInt | MTerm | MWatch | MListen | MListening | MUnwind | MJoinWatcher
  | MDflInt | MDflTerm | MClose | MJoinWorker | MReturned

datatype watcher_pc = WIdle | WLoop | WCheck | WFlag | WStop | WSleep | WExit

record Shutdown =
  sh_main :: main_pc
  sh_watcher :: watcher_pc
  sh_signal_received :: bool
  sh_int_handled :: bool
  sh_term_handled :: bool
  sh_watcher_done :: bool
  sh_shutting_down :: bool
  sh_stop :: bool
  sh_handlers :: nat
  sh_closed :: bool
  sh_worker_done :: bool
  sh_ok :: bool

text \<open>The worker thread has been started and the handlers are registered.\<close>

definition shutdown_start :: "bool \<Rightarrow> Shutdown" where
  "shutdown_start received =
     \<lparr>sh_main = MReset, sh_watcher = WIdle, sh_signal_received = received, sh_int_handled = False, sh_term_handled = False,
      sh_watcher_done = False, sh_shutting_down = False, sh_stop = False, sh_handlers = 0, sh_closed = False,
      sh_worker_done = False, sh_ok = False\<rparr>"

section \<open>Steps\<close>

text \<open>\<open>None\<close>: the thread waits, or has ended.\<close>

definition main_step :: "Shutdown \<Rightarrow> Shutdown option" where
  "main_step s =
     (case sh_main s of
        MReset \<Rightarrow> Some (s\<lparr>sh_signal_received := False, sh_main := MInt\<rparr>)
      | MInt \<Rightarrow> Some (s\<lparr>sh_int_handled := True, sh_main := MTerm\<rparr>)
      | MTerm \<Rightarrow> Some (s\<lparr>sh_term_handled := True, sh_main := MWatch\<rparr>)
      | MWatch \<Rightarrow> Some (s\<lparr>sh_watcher_done := False, sh_watcher := WLoop, sh_main := MListen\<rparr>)
      | MListen \<Rightarrow> Some (s\<lparr>sh_main := MListening\<rparr>)
      | MListening \<Rightarrow> if sh_stop s \<and> sh_handlers s = 0 then Some (s\<lparr>sh_ok := True, sh_main := MUnwind\<rparr>) else None
      | MUnwind \<Rightarrow> Some (s\<lparr>sh_watcher_done := True, sh_main := MJoinWatcher\<rparr>)
      | MJoinWatcher \<Rightarrow> if sh_watcher s = WExit then Some (s\<lparr>sh_main := MDflInt\<rparr>) else None
      | MDflInt \<Rightarrow> Some (s\<lparr>sh_int_handled := False, sh_main := MDflTerm\<rparr>)
      | MDflTerm \<Rightarrow> Some (s\<lparr>sh_term_handled := False, sh_main := MClose\<rparr>)
      | MClose \<Rightarrow> Some (s\<lparr>sh_closed := True, sh_main := MJoinWorker\<rparr>)
      | MJoinWorker \<Rightarrow> if sh_worker_done s then Some (s\<lparr>sh_main := MReturned\<rparr>) else None
      | MReturned \<Rightarrow> None)"

definition watcher_step :: "bool \<Rightarrow> Shutdown \<Rightarrow> Shutdown option" where
  "watcher_step early s =
     (case sh_watcher s of
        WIdle \<Rightarrow> None
      | WLoop \<Rightarrow> Some (s\<lparr>sh_watcher := (if sh_watcher_done s then WExit else WCheck)\<rparr>)
      | WCheck \<Rightarrow> Some (s\<lparr>sh_watcher := (if sh_signal_received s then WFlag else WSleep)\<rparr>)
      | WFlag \<Rightarrow> Some (s\<lparr>sh_shutting_down := True, sh_watcher := WStop\<rparr>)
      | WStop \<Rightarrow> Some (s\<lparr>sh_stop := sh_stop s \<or> early \<or> sh_main s = MListening, sh_watcher := WExit\<rparr>)
      | WSleep \<Rightarrow> Some (s\<lparr>sh_watcher := WLoop\<rparr>)
      | WExit \<Rightarrow> None)"

text \<open>
  The other steps: \<open>on_signal\<close> while it is installed, the return of \<open>scheduler.run\<close>, which only
  a closed queue brings about, and the handlers of the HTTP library.
\<close>

datatype shutdown_event = Main | Watcher | Worker | HandlerEnd | HandlerStart | Sigint | Sigterm | ListenFails

fun shutdown_step :: "bool \<Rightarrow> shutdown_event \<Rightarrow> Shutdown \<Rightarrow> Shutdown option" where
  "shutdown_step early Main s = main_step s"
| "shutdown_step early Watcher s = watcher_step early s"
| "shutdown_step early Worker s = (if sh_closed s \<and> \<not> sh_worker_done s then Some (s\<lparr>sh_worker_done := True\<rparr>) else None)"
| "shutdown_step early HandlerEnd s = (if 0 < sh_handlers s then Some (s\<lparr>sh_handlers := sh_handlers s - 1\<rparr>) else None)"
| "shutdown_step early HandlerStart s =
     (if sh_main s = MListening \<and> \<not> sh_stop s then Some (s\<lparr>sh_handlers := Suc (sh_handlers s)\<rparr>) else None)"
| "shutdown_step early Sigint s = (if sh_int_handled s then Some (s\<lparr>sh_signal_received := True\<rparr>) else None)"
| "shutdown_step early Sigterm s = (if sh_term_handled s then Some (s\<lparr>sh_signal_received := True\<rparr>) else None)"
| "shutdown_step early ListenFails s =
     (if sh_main s = MListen then Some (s\<lparr>sh_ok := False, sh_main := MUnwind\<rparr>) else None)"

primrec shutdown_run :: "bool \<Rightarrow> shutdown_event list \<Rightarrow> Shutdown \<Rightarrow> Shutdown option" where
  "shutdown_run early [] s = Some s"
| "shutdown_run early (ev # evs) s =
     (case shutdown_step early ev s of None \<Rightarrow> None | Some s1 \<Rightarrow> shutdown_run early evs s1)"

section \<open>The order of the shutdown\<close>

text \<open>How many statements of the main thread, and at most how many of the watcher, are still to come.\<close>

primrec main_left :: "main_pc \<Rightarrow> nat" where
  "main_left MReset = 12" | "main_left MInt = 11" | "main_left MTerm = 10" | "main_left MWatch = 9"
| "main_left MListen = 8" | "main_left MListening = 7" | "main_left MUnwind = 6" | "main_left MJoinWatcher = 5"
| "main_left MDflInt = 4" | "main_left MDflTerm = 3" | "main_left MClose = 2" | "main_left MJoinWorker = 1"
| "main_left MReturned = 0"

primrec watcher_left :: "watcher_pc \<Rightarrow> nat" where
  "watcher_left WIdle = 6" | "watcher_left WSleep = 5" | "watcher_left WLoop = 4" | "watcher_left WCheck = 3"
| "watcher_left WFlag = 2" | "watcher_left WStop = 1" | "watcher_left WExit = 0"

definition shutdown_ok :: "bool \<Rightarrow> nat \<Rightarrow> watcher_pc \<Rightarrow> bool \<Rightarrow> bool \<Rightarrow> bool \<Rightarrow> bool \<Rightarrow> bool \<Rightarrow> bool \<Rightarrow> nat \<Rightarrow> bool \<Rightarrow> bool \<Rightarrow> bool \<Rightarrow> bool" where
  "shutdown_ok early m w sig int_on term_on done_on down stopped h qc wd ok \<longleftrightarrow>
     (w = WIdle \<longleftrightarrow> 9 \<le> m) \<and> (w = WIdle \<longrightarrow> \<not> down) \<and> (m \<le> 4 \<longrightarrow> w = WExit) \<and>
     (int_on \<longleftrightarrow> 4 \<le> m \<and> m \<le> 10) \<and> (term_on \<longleftrightarrow> 3 \<le> m \<and> m \<le> 9) \<and> (done_on \<longleftrightarrow> m \<le> 5) \<and>
     (0 < h \<longrightarrow> m = 7) \<and> (qc \<longleftrightarrow> m \<le> 1) \<and> (wd \<longrightarrow> qc) \<and> (m = 0 \<longrightarrow> wd) \<and>
     (w = WFlag \<or> down \<longrightarrow> sig) \<and> (stopped \<or> w = WStop \<longrightarrow> down) \<and>
     (w = WExit \<and> 7 \<le> m \<longrightarrow> down \<and> (early \<longrightarrow> stopped)) \<and> (stopped \<longrightarrow> w = WExit) \<and> (ok \<longrightarrow> stopped)"

definition shutdown_inv :: "bool \<Rightarrow> Shutdown \<Rightarrow> bool" where
  "shutdown_inv early s \<longleftrightarrow>
     shutdown_ok early (main_left (sh_main s)) (sh_watcher s) (sh_signal_received s) (sh_int_handled s) (sh_term_handled s)
       (sh_watcher_done s) (sh_shutting_down s) (sh_stop s) (sh_handlers s) (sh_closed s) (sh_worker_done s) (sh_ok s)"

lemma shutdown_start_inv: "shutdown_inv early (shutdown_start received)"
  by (simp add: shutdown_inv_def shutdown_ok_def shutdown_start_def)

lemma main_step_inv:
  assumes "main_step s = Some s'" and "shutdown_inv early s"
  shows "shutdown_inv early s'"
proof (cases s)
  case (fields m w sig int_on term_on done_on down stopped h qc wd ok)
  show ?thesis
    using assms unfolding fields main_step_def shutdown_inv_def
    by (cases m; cases w; simp split: if_splits; clarsimp simp: shutdown_ok_def)
qed

lemma watcher_step_inv:
  assumes "watcher_step early s = Some s'" and "shutdown_inv early s"
  shows "shutdown_inv early s'"
proof (cases s)
  case (fields m w sig int_on term_on done_on down stopped h qc wd ok)
  show ?thesis
    using assms unfolding fields watcher_step_def shutdown_inv_def
    by (cases w; cases m; simp split: if_splits; clarsimp simp: shutdown_ok_def)
qed

lemma shutdown_ok_steps:
  assumes "shutdown_ok early m w sig int_on term_on done_on down stopped h qc wd ok"
  shows "shutdown_ok early m w True int_on term_on done_on down stopped h qc wd ok"
    and "shutdown_ok early m w sig int_on term_on done_on down stopped (h - 1) qc wd ok"
    and "qc \<Longrightarrow> shutdown_ok early m w sig int_on term_on done_on down stopped h qc True ok"
    and "m = 7 \<Longrightarrow> shutdown_ok early m w sig int_on term_on done_on down stopped (Suc h) qc wd ok"
    and "m = 8 \<Longrightarrow> shutdown_ok early 6 w sig int_on term_on done_on down stopped h qc wd False"
proof -
  note D = assms [unfolded shutdown_ok_def]
  show "shutdown_ok early m w True int_on term_on done_on down stopped h qc wd ok"
    "qc \<Longrightarrow> shutdown_ok early m w sig int_on term_on done_on down stopped h qc True ok"
    using D unfolding shutdown_ok_def by blast+
  have "0 < h - 1 \<Longrightarrow> 0 < h" by simp
  with D show "shutdown_ok early m w sig int_on term_on done_on down stopped (h - 1) qc wd ok" unfolding shutdown_ok_def by blast
  show "m = 7 \<Longrightarrow> shutdown_ok early m w sig int_on term_on done_on down stopped (Suc h) qc wd ok"
    using D unfolding shutdown_ok_def by blast
  show "m = 8 \<Longrightarrow> shutdown_ok early 6 w sig int_on term_on done_on down stopped h qc wd False"
    using D by (elim conjE) (simp add: shutdown_ok_def)
qed

lemma other_step_inv:
  assumes "shutdown_step early ev s = Some s'" and "ev \<noteq> Main" and "ev \<noteq> Watcher" and "shutdown_inv early s"
  shows "shutdown_inv early s'"
proof (cases s)
  case (fields m w sig int_on term_on done_on down stopped h qc wd ok)
  note S = shutdown_ok_steps [OF assms(4) [unfolded fields shutdown_inv_def, simplified]]
  show ?thesis
    using assms(1-3) S by (cases ev) (auto simp: fields shutdown_inv_def split: if_splits)
qed

lemma shutdown_step_inv:
  "shutdown_step early ev s = Some s' \<Longrightarrow> shutdown_inv early s \<Longrightarrow> shutdown_inv early s'"
  by (cases ev) (simp_all add: main_step_inv watcher_step_inv other_step_inv del: shutdown_step.simps(3-))

lemma shutdown_run_ConsE:
  assumes "shutdown_run early (ev # evs) s = Some s'"
  obtains s1 where "shutdown_step early ev s = Some s1" and "shutdown_run early evs s1 = Some s'"
  using assms by (cases "shutdown_step early ev s") simp_all

lemma shutdown_run_inv:
  "shutdown_run early evs s = Some s' \<Longrightarrow> shutdown_inv early s \<Longrightarrow> shutdown_inv early s'"
proof (induction evs arbitrary: s)
  case (Cons ev evs)
  from Cons.prems(1) obtain s1 where "shutdown_step early ev s = Some s1" "shutdown_run early evs s1 = Some s'"
    by (rule shutdown_run_ConsE)
  with Cons.IH [OF _ shutdown_step_inv] Cons.prems(2) show ?case by blast
qed simp

lemma shutdown_ordered:
  assumes "shutdown_run early evs (shutdown_start received) = Some s"
  shows "sh_closed s \<Longrightarrow> sh_handlers s = 0 \<and> sh_watcher s = WExit \<and> \<not> sh_int_handled s \<and> \<not> sh_term_handled s"
    and "sh_worker_done s \<Longrightarrow> sh_closed s" and "sh_ok s \<Longrightarrow> sh_shutting_down s \<and> sh_signal_received s"
    and "sh_main s = MReturned \<Longrightarrow> sh_closed s \<and> sh_worker_done s"
proof -
  note D = shutdown_run_inv [OF assms shutdown_start_inv, unfolded shutdown_inv_def shutdown_ok_def]
  show "sh_worker_done s \<Longrightarrow> sh_closed s" "sh_ok s \<Longrightarrow> sh_shutting_down s \<and> sh_signal_received s" using D by blast+
  have m: "main_left (sh_main s) \<le> 1" if "sh_closed s" using D that by blast
  show "sh_closed s \<Longrightarrow> sh_handlers s = 0 \<and> sh_watcher s = WExit \<and> \<not> sh_int_handled s \<and> \<not> sh_term_handled s"
    using D m by (elim conjE) simp
  assume "sh_main s = MReturned"
  then have "main_left (sh_main s) = 0" by simp
  with D show "sh_closed s \<and> sh_worker_done s" by blast
qed

section \<open>The shutdown completes\<close>

text \<open>
  After a signal the watcher acts at its next look at the flag. The stop reaches the library
  if that remembers an early stop, or if the main thread is listening by then.
\<close>

definition stop_heard :: "bool \<Rightarrow> Shutdown \<Rightarrow> bool" where
  "stop_heard early s \<longleftrightarrow> sh_signal_received s \<and> main_left (sh_main s) \<le> 8 \<and>
     (early \<or> sh_main s \<noteq> MListen \<and> (sh_main s = MListening \<longrightarrow> sh_watcher s \<noteq> WExit \<or> sh_stop s))"

definition program :: "shutdown_event \<Rightarrow> bool" where
  "program ev \<longleftrightarrow> ev \<in> {Main, Watcher, Worker, HandlerEnd, ListenFails}"

definition steps_left :: "Shutdown \<Rightarrow> nat" where
  "steps_left s = main_left (sh_main s) + watcher_left (sh_watcher s) + sh_handlers s + (if sh_worker_done s then 0 else 1)"

lemma stop_heard_main:
  assumes "main_step s = Some s'" and "shutdown_inv early s" and "stop_heard early s"
  shows "stop_heard early s' \<and> Suc (steps_left s') \<le> steps_left s"
proof (cases s)
  case (fields m w sig int_on term_on done_on down stopped h qc wd ok)
  show ?thesis
    using assms unfolding fields shutdown_inv_def stop_heard_def steps_left_def
    by (cases m; simp add: main_step_def split: if_splits; clarsimp)
qed

lemma stop_heard_watcher:
  assumes "watcher_step early s = Some s'" and "shutdown_inv early s" and "stop_heard early s"
  shows "stop_heard early s' \<and> Suc (steps_left s') \<le> steps_left s"
proof (cases s)
  case (fields m w sig int_on term_on done_on down stopped h qc wd ok)
  have d: "done_on \<longleftrightarrow> main_left m \<le> 5" using assms(2) unfolding fields shutdown_inv_def shutdown_ok_def by simp
  show ?thesis
    using assms(1,3) d unfolding fields stop_heard_def steps_left_def
    by (cases w; cases m; simp add: watcher_step_def split: if_splits; clarsimp)
qed

lemma stop_heard_step:
  assumes "shutdown_step early ev s = Some s'" and "shutdown_inv early s" and "stop_heard early s"
  shows "stop_heard early s'" and "ev \<noteq> HandlerStart \<Longrightarrow> steps_left s' + (if program ev then 1 else 0) \<le> steps_left s"
proof -
  have "stop_heard early s' \<and> (ev \<noteq> HandlerStart \<longrightarrow> steps_left s' + (if program ev then 1 else 0) \<le> steps_left s)"
  proof (cases ev)
    case Main
    with assms stop_heard_main [of s s' early] show ?thesis by (simp add: program_def)
  next
    case Watcher
    with assms stop_heard_watcher [of early s s'] show ?thesis by (simp add: program_def)
  qed (use assms(1,3) in \<open>auto simp: stop_heard_def steps_left_def program_def split: if_splits\<close>)
  then show "stop_heard early s'" "ev \<noteq> HandlerStart \<Longrightarrow> steps_left s' + (if program ev then 1 else 0) \<le> steps_left s" by blast+
qed

lemma stop_heard_enabled:
  assumes inv: "shutdown_inv early s" and heard: "stop_heard early s" and "sh_main s \<noteq> MReturned"
  shows "\<exists>ev. program ev \<and> shutdown_step early ev s \<noteq> None"
proof (rule ccontr)
  assume "\<not> ?thesis"
  then have n: "shutdown_step early ev s = None" if "program ev" for ev using that by blast
  have none: "main_step s = None" "watcher_step early s = None" "sh_closed s \<Longrightarrow> sh_worker_done s" "sh_handlers s = 0"
    using n [of Main] n [of Watcher] n [of Worker] n [of HandlerEnd] by (simp_all add: program_def split: if_splits)
  note D = inv [unfolded shutdown_inv_def shutdown_ok_def]
  have "\<not> 9 \<le> main_left (sh_main s)" using heard by (simp add: stop_heard_def)
  with none(2) D have w: "sh_watcher s = WExit" by (cases "sh_watcher s") (simp_all add: watcher_step_def)
  show False
  proof (cases "sh_main s")
    case MListening
    then have "7 \<le> main_left (sh_main s)" by simp
    with D w have "early \<longrightarrow> sh_stop s" by blast
    with MListening w heard have "sh_stop s" by (auto simp: stop_heard_def)
    with MListening none show False by (simp add: main_step_def)
  next
    case MJoinWorker
    then have "main_left (sh_main s) \<le> 1" by simp
    with D have "sh_closed s" by blast
    with MJoinWorker none show False by (simp add: main_step_def)
  qed (use none w assms(3) in \<open>simp_all add: main_step_def\<close>)
qed

lemma shutdown_completes_from:
  assumes "shutdown_inv early s" and "stop_heard early s" and "shutdown_run early evs s = Some s'" and "HandlerStart \<notin> set evs"
  shows "steps_left s' + length (filter program evs) \<le> steps_left s \<and>
    (sh_main s' = MReturned \<or> (\<exists>ev. program ev \<and> shutdown_step early ev s' \<noteq> None))"
  using assms
proof (induction evs arbitrary: s)
  case Nil
  then have "s' = s" by simp
  with Nil.prems stop_heard_enabled [of early s] show ?case by (cases "sh_main s = MReturned") simp_all
next
  case (Cons ev evs)
  from Cons.prems(3) obtain s1 where s1: "shutdown_step early ev s = Some s1" "shutdown_run early evs s1 = Some s'"
    by (rule shutdown_run_ConsE)
  note H = stop_heard_step [OF s1(1) Cons.prems(1,2)]
  have nh: "ev \<noteq> HandlerStart" "HandlerStart \<notin> set evs" using Cons.prems(4) by auto
  note IH = Cons.IH [OF shutdown_step_inv [OF s1(1) Cons.prems(1)] H(1) s1(2) nh(2)]
  have "steps_left s' + length (filter program (ev # evs)) \<le> steps_left s"
    using conjunct1 [OF IH] H(2) [OF nh(1)] by (cases "program ev") simp_all
  with IH show ?case by blast
qed

section \<open>A signal before the server listens\<close>

text \<open>If the library does not remember an early stop, the watcher spends the only one on nothing.\<close>

definition early_signal :: "shutdown_event list" where
  "early_signal = [Main, Main, Main, Main, Sigint, Watcher, Watcher, Watcher, Watcher, Main]"

definition deaf :: "Shutdown \<Rightarrow> bool" where
  "deaf s \<longleftrightarrow> sh_main s = MListening \<and> sh_watcher s = WExit \<and> \<not> sh_stop s \<and> \<not> sh_closed s"

lemma deaf_step: "deaf s \<Longrightarrow> shutdown_step early ev s = Some s' \<Longrightarrow> deaf s'"
  by (cases ev) (auto simp: deaf_def main_step_def watcher_step_def split: if_splits)

lemma deaf_run: "deaf s \<Longrightarrow> shutdown_run early evs s = Some s' \<Longrightarrow> deaf s'"
proof (induction evs arbitrary: s)
  case (Cons ev evs)
  from Cons.prems(2) obtain s1 where "shutdown_step early ev s = Some s1" "shutdown_run early evs s1 = Some s'"
    by (rule shutdown_run_ConsE)
  with Cons.IH [OF deaf_step] Cons.prems(1) show ?case by blast
qed simp

lemma early_signal_deaf:
  "\<exists>s. shutdown_run False early_signal (shutdown_start received) = Some s \<and> deaf s \<and> sh_signal_received s"
  by (simp add: early_signal_def shutdown_start_def main_step_def watcher_step_def deaf_def)

lemma early_signal_stuck:
  "\<exists>s. shutdown_run False early_signal (shutdown_start received) = Some s \<and> sh_signal_received s \<and>
    \<not> (\<exists>evs s'. shutdown_run False evs s = Some s' \<and> sh_main s' \<noteq> MListening)"
proof -
  obtain s where s: "shutdown_run False early_signal (shutdown_start received) = Some s" "deaf s" "sh_signal_received s"
    using early_signal_deaf by blast
  have "sh_main s' = MListening" if "shutdown_run False evs s = Some s'" for evs s'
    using deaf_run [OF s(2) that] by (simp add: deaf_def)
  with s show ?thesis by blast
qed

end
