(* ===== verification/Mv_Examples.thy ===== *)
theory Mv_Examples
  imports Mv_ContinuousRun Mv_Static Mv_Generator
begin

text \<open>
  A small concrete run of the continuous scheduler on the mock engine, used wherever a
  statement about runs is applied to an input: two requests, a batch of two, a pool of
  eight blocks of two tokens, a queue that is closed once both requests are in it.
\<close>

definition ex_outer :: outer where
  "ex_outer = \<lparr>xt_clock = (\<lambda>n. 0), xt_cancelled = (\<lambda>_ _. False)\<rparr>"

definition ex_mock :: MockConfig where
  "ex_mock = \<lparr>mc_response = ''xy'', mc_echo_prompt = False, mc_token_latency = 0,
     mc_n_ctx = 64, mc_n_batch = 16, mc_n_seq_max = 2\<rparr>"

definition ex_spec :: "string \<Rightarrow> nat \<Rightarrow> RequestSpec" where
  "ex_spec p m = \<lparr>prompt = p, stop = [''y''], max_tokens = m, sampling = SamplingParams_default\<rparr>"

definition ex_request :: "nat \<Rightarrow> string \<Rightarrow> nat \<Rightarrow> Request" where
  "ex_request i p m =
     \<lparr>rq_id = i, rq_spec = ex_spec p m, rq_sink = None, rq_timing = RequestTiming_default\<rparr>"

definition ex_requests :: "Request list" where
  "ex_requests = [ex_request 1 ''a'' 1, ex_request 2 ''b'' 4]"

definition ex_world :: queue_world where
  "ex_world = \<lparr>qw_queue = \<lparr>qu_queue = ex_requests, qu_capacity = 4, qu_closed = True\<rparr>,
     qw_script = [], qw_accepted = ex_requests\<rparr>"

definition ex_config :: SchedulerConfig where
  "ex_config = \<lparr>cf_max_batch_size = 2, cf_mode = kContinuous, cf_kv_blocks = 8, cf_block_size = 2,
     cf_prefix_donors = 0, cf_prefix_caching = False, cf_prefill_chunk = 4\<rparr>"

definition ex_engine :: MockModelEngine where
  "ex_engine = MockModelEngine_new ex_mock"

definition ex_scheduler :: "MockModelEngine Scheduler" where
  "ex_scheduler = Scheduler_new mock_engine ex_engine ex_world ex_config"

lemma ex_config_ok: "config_ok (eg_caps mock_engine ex_engine) ex_config"
  by (simp add: config_ok_def ex_config_def ex_engine_def MockModelEngine_new_def mock_caps_def ex_mock_def)

lemma ex_world_start: "world_start ex_world"
  by (simp add: world_start_def world_all_def ex_world_def ex_requests_def ex_request_def request_ok_def ex_spec_def)

text \<open>What the run delivers: the first request hits its budget, the second its stop string.\<close>

definition ex_delivered :: "MockModelEngine Loop \<Rightarrow> (nat \<times> string \<times> FinishReason) list" where
  "ex_delivered s = map (\<lambda>(r, g, calls). (rq_id r, gr_text g, gr_reason g)) (sd_fulfilled s)"

lemma ex_run_eval:
  "case run_continuous 6 ex_outer mock_engine ex_scheduler of
     Some (Returns s) \<Rightarrow> ex_delivered s = [(1, ''x'', kMaxTokens), (2, ''x'', kStopString)]
   | _ \<Rightarrow> False"
  by code_simp

lemma ex_returns:
  obtains s where "run_continuous 6 ex_outer mock_engine ex_scheduler = Some (Returns s)"
    and "ex_delivered s = [(1, ''x'', kMaxTokens), (2, ''x'', kStopString)]"
  using ex_run_eval by (auto split: option.splits turn.splits)

definition ex_turn :: "nat \<Rightarrow> MockModelEngine Loop" where
  "ex_turn n = turns n ex_outer mock_engine 16 (loop_start ex_scheduler)"

lemma ex_reach:
  "loop_reach ex_outer mock_engine 16 (loop_start (Scheduler_new mock_engine ex_engine ex_world ex_config)) (ex_turn n)"
  unfolding ex_turn_def ex_scheduler_def by (intro turns_reach loop_reach.start)

text \<open>After one turn both requests are active, each with the blocks of its prompt and first token.\<close>

lemma ex_turn_1:
  "map job_seq (lp_active (ex_turn 1)) = [0, 1]"
  "map (bt_blocks \<circ> job_table) (lp_active (ex_turn 1)) = [[0, 2], [1, 3]]"
  by code_simp+

lemma ex_turn_1_count: "count (held_refs (holders_of (lp_active (ex_turn 1)))) 2 = 1"
proof -
  have "held_refs (holders_of js) = mset (concat (map (bt_blocks \<circ> job_table) js))" for js
    by (simp add: held_refs_def holders_of_def comp_def)
  then show ?thesis unfolding ex_turn_1(2) by (simp only: ex_turn_1(2)) simp
qed

lemma ex_turn_2: "length (sd_fulfilled (ex_turn 2)) = 2"
  by code_simp

lemma ex_turn_2_delivered: "ex_delivered (ex_turn 2) = [(1, ''x'', kMaxTokens), (2, ''x'', kStopString)]"
  by code_simp

section \<open>The same requests in static batches of one\<close>

definition ex_serial :: "MockModelEngine Scheduler" where
  "ex_serial = Scheduler_new mock_engine ex_engine ex_world (ex_config\<lparr>cf_max_batch_size := 1\<rparr>)"

lemma ex_serial_ok: "config_ok (eg_caps mock_engine ex_engine) (ex_config\<lparr>cf_max_batch_size := 1\<rparr>)"
  by (simp add: config_ok_def ex_config_def ex_engine_def MockModelEngine_new_def mock_caps_def ex_mock_def)

lemma ex_requests_ok: "list_all request_ok ex_requests"
  by (simp add: ex_requests_def ex_request_def request_ok_def ex_spec_def)

lemma ex_batch_eval:
  "case run_batch 8 ex_outer mock_engine [ex_request 2 ''b'' 4] ex_serial of
     Some (Inr s) \<Rightarrow> length (sd_fulfilled s) = 1 | _ \<Rightarrow> False"
  by code_simp

lemma ex_batch:
  obtains s where "run_batch 8 ex_outer mock_engine [ex_request 2 ''b'' 4] ex_serial = Some (Inr s)" and "length (sd_fulfilled s) = 1"
  using ex_batch_eval by (auto split: option.splits sum.splits)

lemma ex_static_eval:
  "case run_static 3 8 ex_outer mock_engine ex_serial of
     Some (Returns s) \<Rightarrow> length (sd_fulfilled s) = 2 | _ \<Rightarrow> False"
  by code_simp

lemma ex_static_run:
  obtains s where "run_static 3 8 ex_outer mock_engine ex_serial = Some (Returns s)" and "length (sd_fulfilled s) = 2"
  using ex_static_eval by (auto split: option.splits turn.splits)

section \<open>Small evaluations\<close>

lemma ex_accept_run_finished:
  "sq_finished (accept_run (\<lambda>t. [char_of (nat t)])
     [(\<lparr>gs_seq = 0, gs_token = 120, gs_is_eog = False\<rparr>, False), (\<lparr>gs_seq = 0, gs_token = 121, gs_is_eog = False\<rparr>, False)]
     (SequenceState_new 0 (ex_spec ''a'' 4) [] [7]))"
  by code_simp

lemma ex_accept_run_running:
  "\<not> sq_finished (accept_run (\<lambda>t. [char_of (nat t)])
     [(\<lparr>gs_seq = 0, gs_token = 120, gs_is_eog = False\<rparr>, False)] (SequenceState_new 0 (ex_spec ''a'' 4) [] [7]))"
  by code_simp

lemma ex_consume:
  "consume_text [] (take 4 ''xy'') [''y''] = ''xy''" "earliest_stop ''xy'' [''y''] = Some 1"
  "response_spec ''xy'' [''y''] = ''x''"
  by code_simp+

lemma ex_allocate: "map_option snd (allocate (BlockAllocator_new 3 2) 2) = Some [0, 1]"
  by code_simp

lemma ex_ensure: "blocks_for (BlockAllocator_new 3 2) 5 = 3" "free_blocks (BlockAllocator_new 3 2) = 3"
  by code_simp+

lemma ex_find_none: "fst (find_longest PrefixCache_new [1, 2, 3] 2) = None"
  by code_simp

text \<open>A cache with two donors, the older of which is hit.\<close>

definition ex_cache :: PrefixCache where
  "ex_cache = retain (retain (configure_donors PrefixCache_new 3 2) (hash_prefix [1] 1) 4 1 [0]) (hash_prefix [9] 1) 3 1 [1]"

lemma ex_cache_hit:
  "find_longest ex_cache [1, 2] 1 =
     (Some \<lparr>en_seq = 4, en_n_tokens = 1, en_blocks = [0], en_retained = True\<rparr>, snd (find_longest ex_cache [1, 2] 1))"
  by code_simp

lemma ex_cache_evict:
  "evict_lru_retained (snd (find_longest ex_cache [1, 2] 1)) =
     (Some \<lparr>en_seq = 3, en_n_tokens = 1, en_blocks = [1], en_retained = True\<rparr>,
      snd (evict_lru_retained (snd (find_longest ex_cache [1, 2] 1))))"
  by code_simp

lemma ex_cache_ok: "keys_ok ex_cache" "ticks_ok ex_cache" "pc_tick ex_cache + 1 < 18446744073709551616" "2 \<le> size (donors ex_cache)"
proof -
  have k: "keys_ok (configure_donors PrefixCache_new 3 2)" "ticks_ok (configure_donors PrefixCache_new 3 2)"
    by (simp_all add: keys_ok_def ticks_ok_def configure_donors_def PrefixCache_new_def)
  have t: "pc_tick (retain c h q n bs) = u64 (pc_tick c + 1)" for c h q n bs by (simp add: retain_def insert_entry_def Let_def)
  have t0: "pc_tick (configure_donors PrefixCache_new 3 2) = 0" by (simp add: configure_donors_def PrefixCache_new_def)
  show "keys_ok ex_cache" by (simp add: ex_cache_def retain_def insert_entry_keys k)
  show "pc_tick ex_cache + 1 < 18446744073709551616" by (simp add: ex_cache_def t t0 u64_def)
  show "ticks_ok ex_cache"
    using insert_entry_ticks insert_entry_keys k t t0 by (simp add: ex_cache_def retain_def u64_def)
  have "donors ex_cache = mset (filter en_retained (map (cr_entry \<circ> snd) (pc_entries ex_cache)))"
    by (simp add: donors_def donor_part_def comp_def)
  moreover have "length (filter en_retained (map (cr_entry \<circ> snd) (pc_entries ex_cache))) = 2" by code_simp
  ultimately show "2 \<le> size (donors ex_cache)" by (simp only: size_mset)
qed

end
