(* ===== verification/Mv_ServerExamples.thy ===== *)
theory Mv_ServerExamples
  imports Mv_ServerInv Mv_Metrics Mv_Main Mv_Examples
begin

text \<open>
  Concrete inputs for the statements about the server, the llama.cpp adapter and the command
  line: a text format that stands in for the JSON library, a small library of the shape of
  llama.cpp, and one request through the whole server.
\<close>

section \<open>A stand-in for the JSON library\<close>

text \<open>
  A value is its own text: a letter for the kind, then the contents. In an object every
  character of a key or value has an \<open>x\<close> before it and a full stop ends each.
\<close>

definition tx_quote :: "string \<Rightarrow> string" where
  "tx_quote s = concat (map (\<lambda>c. [CHR ''x'', c]) s) @ ''.''"

fun tx_unquote :: "string \<Rightarrow> string list" where
  "tx_unquote (m # s) =
     (if m = CHR ''x''
      then (case s of
              [] \<Rightarrow> []
            | c # t \<Rightarrow> (case tx_unquote t of [] \<Rightarrow> [] | w # ws \<Rightarrow> (c # w) # ws))
      else [] # tx_unquote s)"
| "tx_unquote [] = []"

fun tx_pairs :: "'a list \<Rightarrow> ('a \<times> 'a) list" where
  "tx_pairs (k # v # t) = (k, v) # tx_pairs t"
| "tx_pairs t = []"

definition ex_json :: "string json" where
  "ex_json =
     \<lparr>js_parse = (\<lambda>b. if b = [] then Inl ''empty'' else Inr b), js_dump = (\<lambda>v. if v = [] then Inl ''empty'' else Inr v),
      js_is_object = (\<lambda>v. take 1 v = ''o''),
      js_find = (\<lambda>v k. map_of (tx_pairs (tx_unquote (drop 1 v))) k),
      js_is_string = (\<lambda>v. take 1 v = ''s''), js_get_string = drop 1,
      js_is_number_unsigned = (\<lambda>v. take 1 v = ''n''), js_get_u32 = (\<lambda>v. nat_val (drop 1 v) mod 4294967296),
      js_is_number = (\<lambda>v. take 1 v = ''n''), js_get_float = (\<lambda>v. of_nat (nat_val (drop 1 v))),
      js_is_number_integer = (\<lambda>v. take 1 v = ''n''), js_get_i32 = (\<lambda>v. int (nat_val (drop 1 v) mod 2147483648)),
      js_is_array = (\<lambda>v. False), js_elems = (\<lambda>v. []),
      js_string = (\<lambda>s. CHR ''s'' # s), js_uint = (\<lambda>n. CHR ''n'' # nat_str n),
      js_double = (\<lambda>x. CHR ''d'' # double_str x),
      js_object = (\<lambda>kvs. CHR ''o'' # concat (map (\<lambda>(k, v). tx_quote k @ tx_quote v) kvs))\<rparr>"

lemma tx_unquote_quote: "tx_unquote (tx_quote s @ t) = s # tx_unquote t"
  by (induction s) (simp_all add: tx_quote_def)

lemma tx_pairs_object: "tx_pairs (tx_unquote (concat (map (\<lambda>(k, v). tx_quote k @ tx_quote v) kvs))) = kvs"
  by (induction kvs) (simp_all add: tx_unquote_quote split_beta)

lemma ex_json_ranges: "json_ranges ex_json"
proof -
  have "- 2147483648 \<le> int (n mod 2147483648)" "int (n mod 2147483648) < 2147483648" for n :: nat by linarith+
  then show ?thesis unfolding json_ranges_def ex_json_def json.simps by simp
qed

lemma ex_json_reads: "json_reads ex_json"
  unfolding json_reads_def by (simp add: ex_json_def tx_pairs_object nat_str_val)

section \<open>One request through the server\<close>

definition ex_fields :: "(string \<times> string) list" where
  "ex_fields = [(''prompt'', ''sa''), (''max_tokens'', ''n2'')]"

definition ex_body :: string where
  "ex_body = js_object ex_json ex_fields"

lemma ex_find: "js_find ex_json ex_body k = map_of ex_fields k" "js_is_object ex_json ex_body" "js_parse ex_json ex_body = Inr ex_body"
  by (simp_all add: ex_body_def ex_json_def tx_pairs_object)

lemma ex_reads:
  "js_is_string ex_json ''sa''" "js_get_string ex_json ''sa'' = ''a''"
  "js_is_number_unsigned ex_json ''n2''" "js_get_u32 ex_json ''n2'' = 2"
  by (simp_all add: ex_json_def nat_val_def)

lemma ex_body_parsed:
  "parse_generate_request ex_json ex_body =
     Inr \<lparr>prompt = ''a'', stop = [], max_tokens = 2, sampling = SamplingParams_default\<rparr>"
  by (simp add: parse_generate_request_def parse_object_checks body_checks_def field_bad_def body_spec_def field_or_def
      ex_find ex_reads ex_fields_def SamplingParams_default_def)

lemma ex_nonsense: "parse_generate_request ex_json ''nonsense'' = Inl ''request body must be a JSON object''"
  by (simp add: parse_generate_request_def parse_object_checks body_checks_def ex_json_def)

definition ex_server :: ServerConfig where
  "ex_server = ServerConfig_default\<lparr>sc_max_batch_size := 1, sc_mode := kStatic, sc_kv_blocks := 8, sc_block_size := 2,
     sc_prefix_caching := False, sc_prefix_donors := 0\<rparr>"

definition ex_traffic :: "http_event list list" where
  "ex_traffic = [[PostGenerate ex_body 0, PostGenerate ''nonsense'' 0]]"

definition ex_serve_world :: queue_world where
  "ex_serve_world = \<lparr>qw_queue = RequestQueue_new 64,
     qw_script = [[TryPush (new_request 1 \<lparr>prompt = ''a'', stop = [], max_tokens = 2, sampling = SamplingParams_default\<rparr> 0 None)],
       [Close]], qw_accepted = []\<rparr>"

lemma ex_world_served: "serve_world ex_json ex_server ex_traffic = ex_serve_world"
  by (simp add: serve_world_def ex_serve_world_def ex_traffic_def http_turn.simps ex_body_parsed ex_nonsense ex_server_def
      ServerConfig_default_def)

lemma ex_server_ok: "config_ok (eg_caps mock_engine ex_engine) (scheduler_config ex_server)"
  by (simp add: config_ok_def ex_server_def ServerConfig_default_def scheduler_config_def ex_engine_def MockModelEngine_new_def mock_caps_def ex_mock_def)

lemma ex_serve_eval:
  "case run 3 8 ex_outer mock_engine (Scheduler_new mock_engine ex_engine ex_serve_world (scheduler_config ex_server)) of
     Some (Returns s) \<Rightarrow> map (rq_id \<circ> fst) (sd_fulfilled s) = [1] | _ \<Rightarrow> False"
  by code_simp

lemma ex_serve:
  obtains s where "serve ex_json ex_server ex_traffic 3 8 ex_outer mock_engine ex_engine = Some (Returns s)"
    and "map (rq_id \<circ> fst) (sd_fulfilled s) = [1]"
  using ex_serve_eval unfolding serve_def ex_world_served by (auto split: option.splits turn.splits)

section \<open>A library of the shape of llama.cpp\<close>

text \<open>
  Tokens are bytes, every sample is the token 120, the context is the batch size it was made
  with. A buffer that is large enough receives the result, one that is not is left alone.
\<close>

definition tx_into :: "'a list \<Rightarrow> 'a list \<Rightarrow> int \<times> 'a list" where
  "tx_into xs buf =
     (if length xs \<le> length buf then (int (length xs), xs @ drop (length xs) buf) else (- int (length xs), buf))"

definition tx_tokens :: "string \<Rightarrow> bool \<Rightarrow> Token list" where
  "tx_tokens t add = (if add then [257] else []) @ map byte_token t"

definition ex_llama :: "(unit, nat, unit) llama" where
  "ex_llama =
     \<lparr>ll_model_load_from_file = (\<lambda>path layers. if path = [] then None else Some ()),
      ll_init_from_model = (\<lambda>model params. Some (cp_n_batch params)),
      ll_batch_init = (\<lambda>n embd seqs. \<lparr>lb_n_tokens = 0, lb_token = replicate (nat n) 0, lb_pos = replicate (nat n) 0,
        lb_n_seq_id = replicate (nat n) 0, lb_seq_id = replicate (nat n) 0, lb_logits = replicate (nat n) 0\<rparr>),
      ll_n_ctx = (\<lambda>c. 64), ll_n_batch = (\<lambda>c. min c 512), ll_n_seq_max = (\<lambda>c. 4), ll_n_ctx_seq = (\<lambda>c. 16),
      ll_vocab_eos = (\<lambda>m. 256), ll_vocab_is_eog = (\<lambda>m t. t = 256),
      ll_tokenize = (\<lambda>m t size buf room add special. tx_into (tx_tokens t add) buf),
      ll_token_to_piece = (\<lambda>m t buf room lstrip special. tx_into [char_of (nat t)] buf),
      ll_stack_buffer = replicate 256 (CHR 0x00), ll_default_seed = 7,
      ll_sampler_chain_init = (), ll_sampler_chain_add = (\<lambda>s x. s), ll_sampler_sample = (\<lambda>s c i. (120, s, c)),
      ll_decode = (\<lambda>c b. (0, c)), ll_memory_seq_rm = (\<lambda>c s a b. c), ll_memory_seq_cp = (\<lambda>c s d a b. c)\<rparr>"

lemma ex_batch_inits: "batch_inits ex_llama"
  by (simp add: batch_inits_def ex_llama_def batch_room_def min_less_iff_disj)

lemma tx_into_whole:
  "(let (n, buf') = tx_into xs buf in length buf' = length buf \<and>
    (if length xs \<le> length buf then n = int (length xs) \<and> take (length xs) buf' = xs else n = - int (length xs)))"
  by (simp add: tx_into_def)

lemma ex_tokenizes: "tokenizes ex_llama m t add (tx_tokens t add)"
  using tx_into_whole [of "tx_tokens t add"] by (simp add: tokenizes_def ex_llama_def)

lemma ex_renders: "renders ex_llama m t [char_of (nat t)]"
  using tx_into_whole [of "[char_of (nat t)]"] by (simp add: renders_def ex_llama_def)

definition ex_llama_cfg :: LlamaEngineConfig where
  "ex_llama_cfg = LlamaEngineConfig_default\<lparr>lc_model_path := ''m'', lc_n_batch := 4\<rparr>"

definition ex_impl :: "(unit, nat, unit) Impl" where
  "ex_impl = snd (eg_begin_sequence (llama_engine ex_llama) (projr (LlamaModelEngine_new ex_llama ex_llama_cfg)) 0 SamplingParams_default)"

lemma ex_llama_reach: "llama_reach ex_llama ex_llama_cfg ex_impl"
  unfolding ex_impl_def
  by (intro llama_reach.intros) (simp add: LlamaModelEngine_new_def ex_llama_def ex_llama_cfg_def)

lemma ex_impl_n_batch: "im_n_batch ex_impl = 4"
  by (simp add: ex_impl_def llama_engine_def llama_begin_sequence_def LlamaModelEngine_new_def ex_llama_def ex_llama_cfg_def
      context_params_def LlamaEngineConfig_default_def)

end
