(* ===== verification/Spec2Isabelle.thy ===== *)
theory Spec2Isabelle
  imports Mv_ContinuousRun Mv_StaticInv Mv_Generator Mv_ServerInv Mv_Metrics Mv_LlamaEngine Mv_Main Mv_StaticTransparency Mv_Livelock Mv_PrefixHit Mv_Shutdown Mv_Examples Mv_ServerExamples
begin

text \<open>
  A verification development for microvllm, an inference server: HTTP threads put
  requests on a bounded queue, one scheduler thread takes them from it, batches them over
  a model engine under a budget of KV-cache blocks, and answers each request through a
  promise and a text sink.

  \<^bold>\<open>The parts and their theories.\<close>

  \<^item> \<open>Mv_Prelude\<close>: fixed-width casts (\<open>u32\<close>, \<open>u64\<close>, \<open>u32_sub\<close>, \<open>i32\<close>) and the pieces of the C++
    library that several components use.
  \<^item> \<open>Mv_Types\<close>: \<open>include/microvllm/types.hpp\<close>, \<open>src/core/types.cpp\<close> and the structs of
    \<open>model_engine.hpp\<close>.
  \<^item> \<open>Mv_BlockAllocator\<close>, \<open>Mv_BlockTable\<close>, \<open>Mv_PrefixCache\<close>: the three classes of
    \<open>block_allocator.hpp\<close> and \<open>src/core/block_allocator.cpp\<close>. The pool is specified by the
    multiset of references its clients hold (\<open>refs_of\<close>, the locale \<open>ref_pool\<close>), the cache by
    its bindings (the locale \<open>prefix_index\<close>).
  \<^item> \<open>Mv_Sinks\<close>: \<open>token_sink.hpp\<close>, \<open>collecting_sink.hpp\<close>, \<open>streaming_sink.hpp\<close>. A sink is the log of
    the calls made on it; each class is a fold over that log.
  \<^item> \<open>Mv_SequenceState\<close>: \<open>sequence_state.hpp\<close> and \<open>src/core/sequence_state.cpp\<close>, the state machine of
    one generation. \<open>seq_inv\<close> is its invariant, \<open>response_spec\<close> what a client must receive.
  \<^item> \<open>Mv_Timing\<close>: \<open>timing.hpp\<close>, \<open>latency_histogram.hpp\<close>.
  \<^item> \<open>Mv_RequestQueue\<close>: \<open>request.hpp\<close>, \<open>request_queue.hpp\<close>, \<open>src/core/request_queue.cpp\<close> (the locale
    \<open>fifo\<close>), and the world around the queue: the actions of the HTTP threads come as a
    script, a blocking \<open>pop\<close> runs through it, and the log of accepted requests is what the
    conservation theorems refer to.
  \<^item> \<open>Mv_Engine\<close>: the interface \<open>IModelEngine\<close> as a record of functions and its contract as the
    locale \<open>model_engine\<close>; \<open>Mv_MockEngine\<close>: \<open>src/engine/mock_engine.cpp\<close>, which satisfies it.
  \<^item> \<open>Mv_Generator\<close>: \<open>generate_one\<close> of \<open>src/core/generator.cpp\<close>.
  \<^item> \<open>Mv_Scheduler\<close>: the construction, job and donor operations of \<open>src/core/scheduler.cpp\<close>;
    \<open>Mv_Continuous\<close>: \<open>run_continuous\<close>, one definition per phase of the loop; \<open>Mv_KvAccounting\<close>: who
    holds which block and which donor slot; \<open>Mv_ContinuousInv\<close> and \<open>Mv_ContinuousStep\<close>: the loop
    invariant and its preservation by every phase; \<open>Mv_ContinuousRun\<close>: the initial state, what a
    run cannot change, and what holds at the return.
  \<^item> \<open>Mv_Static\<close>: \<open>next_batch\<close>, \<open>run_batch\<close>, \<open>run_static\<close> and the dispatch in \<open>run\<close>; \<open>Mv_StaticInv\<close>: what a
    batch does with its blocks and its requests, and that batches and the loop end.
  \<^item> \<open>Mv_LlamaEngine\<close>: \<open>llama_engine.hpp\<close> and \<open>src/engine/llama_engine.cpp\<close>, the adapter to llama.cpp,
    over a record of the library functions it calls; it satisfies \<open>model_engine\<close> for every such
    record, and \<open>llama_reach\<close> gives the states it can be in.
  \<^item> \<open>Mv_HttpApi\<close>: \<open>http_api.hpp\<close> and \<open>src/http/http_api.cpp\<close>, decoding and encoding over a record of
    the operations of the JSON library; the table \<open>body_checks\<close> specifies the decoder.
  \<^item> \<open>Mv_Server\<close>: \<open>server.hpp\<close> and \<open>src/http/server.cpp\<close>, the handlers, the metrics page, the stream
    provider and the worker thread of \<open>serve\<close>; \<open>Mv_ServerInv\<close>: ids, statuses, streams and the whole
    server on top of the scheduler's theorems; \<open>Mv_Metrics\<close>: the metrics page read back.
  \<^item> \<open>Mv_Main\<close>: \<open>src/main.cpp\<close> and \<open>version.hpp\<close>, the command line and the configurations made of it.
  \<^item> \<open>Mv_Scripted\<close>: engines that answer a sequence with a fixed text (the locale \<open>scripted_engine\<close>, of
    which the mock engine is an instance); \<open>Mv_Transparency\<close> and \<open>Mv_StaticTransparency\<close>: on such an
    engine both modes of the scheduler answer a request as \<open>generate_one\<close> does (\<open>as_alone\<close>).
  \<^item> \<open>Mv_Livelock\<close>, \<open>Mv_PrefixHit\<close>: two runs of \<open>run_continuous\<close> in which the code does not do what its
    comments say, for every clock: preemption without end, and a prompt token that is fed twice.
  \<^item> \<open>Mv_Shutdown\<close>: the threads of \<open>serve\<close> and the signals, as interleaved steps on the record
    \<open>Shutdown\<close>; the order of the shutdown, that it completes, and the signal that can be lost.
  \<^item> \<open>Mv_Examples\<close>, \<open>Mv_ServerExamples\<close>: concrete runs on the mock engine and concrete stand-ins for
    the JSON library and for llama.cpp, evaluated.

  \<^bold>\<open>State and effects.\<close> The scheduler object is the record \<open>Scheduler\<close>, the locals of
  \<open>run_continuous\<close> extend it (\<open>Loop\<close>). A job is named by its sequence id, which stands for the
  \<open>Job*\<close> of the source. Fulfilled promises are the ledger \<open>sd_fulfilled\<close>. The clock and the
  cancellation flags are arbitrary functions of the number of reads so far (\<open>outer\<close>), so
  every statement holds for all of their behaviours. Exceptions are values: \<open>Inl\<close>, or
  \<open>Some\<close> message where a function reports only failure. Integers are natural numbers or
  integers with the wrap-around of their C++ type written out; \<open>float\<close> and \<open>double\<close> are
  rationals.

  \<^bold>\<open>Fuel.\<close> \<open>generate_one\<close>, the decode loop of \<open>run_batch\<close>, \<open>run_static\<close> and \<open>run_continuous\<close> take fuel
  for loops without a bound of their own. For \<open>generate_one\<close> one unit more than \<open>max_tokens\<close> is
  enough (\<open>generate_one_returns\<close>), for \<open>run_batch\<close> two more (\<open>static_batch_returns\<close>), for \<open>run_static\<close>
  the number of requests that can still arrive (\<open>static_run_ends\<close>). \<open>run_continuous\<close> is a
  server loop: its theorems are about every reachable state and about the state at its
  return, and \<open>continuous_livelock\<close> shows that no fuel is enough for it in general. All other
  loops are total functions.

  \<^bold>\<open>Libraries outside the repository.\<close> llama.cpp, the JSON library and the HTTP library are
  arguments: records \<open>llama\<close> and \<open>json\<close> of the functions that are called, and the traffic
  \<open>http_event list list\<close> that the HTTP library dispatches. The parameter \<open>early\<close> of \<open>Mv_Shutdown\<close>
  says whether that library remembers a \<open>stop\<close> that comes before \<open>listen\<close>. What a theorem needs of them is a
  named predicate (\<open>json_ranges\<close>, \<open>json_reads\<close>, \<open>batch_inits\<close>, \<open>tokenizes\<close>, \<open>renders\<close>) that states what
  their documentation says.

  \<^bold>\<open>Not modelled.\<close> Mutexes and condition variables appear only as the atomicity of the
  operations they protect. The steps of \<open>Mv_Shutdown\<close> and the handlers of \<open>Mv_Server\<close> are separate
  models: to \<open>serve\<close> the listening loop is its traffic, followed by the closing of the queue. \<open>LlamaBackend\<close> forwards to
  process-global calls of llama.cpp without a state of its own. Destructors free memory that
  the model does not represent. The benchmark and deployment scripts measure and package
  the server.
\<close>

section \<open>Continuous batching\<close>

text \<open>
  C1: No request is lost or duplicated. In every state between two turns of
  \<open>run_continuous\<close>, whatever the engine, the clock, the clients and the queue traffic do,
  the requests that the queue has accepted are, as a multiset, those still queued plus
  those pending in the scheduler plus those active plus those whose promise is fulfilled.
\<close>

theorem continuous_conserves_requests:
  assumes "config_ok (eg_caps E e) config" and "world_start w"
    and "loop_reach X E nb (loop_start (Scheduler_new E e w config)) s"
  shows "tickets (qw_accepted (sd_queue s)) =
    tickets (qu_queue (qw_queue (sd_queue s))) + tickets (lp_pending s) +
    tickets (map jb_request (lp_active s)) + tickets (map fst (sd_fulfilled s))"
  using inv_coreD(3) [OF reach_inv [OF assms, unfolded loop_inv_def]] by (simp add: outside_def add.assoc)

theorem continuous_conserves_requests_witness:
  "tickets (qw_accepted (sd_queue (ex_turn 1))) =
    tickets (qu_queue (qw_queue (sd_queue (ex_turn 1)))) + tickets (lp_pending (ex_turn 1)) +
    tickets (map jb_request (lp_active (ex_turn 1))) + tickets (map fst (sd_fulfilled (ex_turn 1)))"
  by (rule continuous_conserves_requests [OF ex_config_ok ex_world_start ex_reach])

text \<open>
  C2: When \<open>run_continuous\<close> returns, the queue has been closed and drained, nothing is
  pending or active, and the promise of every accepted request has been fulfilled exactly
  once.
\<close>

theorem continuous_return_complete:
  assumes "config_ok (eg_caps E e) config" and "world_start w"
    and "run_continuous fuel X E (Scheduler_new E e w config) = Some (Returns s)"
  shows "qu_closed (qw_queue (sd_queue s)) \<and> qu_queue (qw_queue (sd_queue s)) = [] \<and>
    lp_active s = [] \<and> lp_pending s = [] \<and>
    tickets (map fst (sd_fulfilled s)) = tickets (qw_accepted (sd_queue s))"
  using returned [OF assms] by simp

theorem continuous_return_complete_witness:
  "\<exists>s. run_continuous 6 ex_outer mock_engine ex_scheduler = Some (Returns s) \<and>
    tickets (map fst (sd_fulfilled s)) = tickets (qw_accepted (sd_queue s)) \<and> length (sd_fulfilled s) = 2"
proof -
  obtain s where s: "run_continuous 6 ex_outer mock_engine ex_scheduler = Some (Returns s)"
    and d: "ex_delivered s = [(1, ''x'', kMaxTokens), (2, ''x'', kStopString)]" by (rule ex_returns)
  from arg_cong [OF d, of length] have "length (sd_fulfilled s) = 2" by (simp add: ex_delivered_def)
  with s continuous_return_complete [OF ex_config_ok ex_world_start s [unfolded ex_scheduler_def]] show ?thesis by blast
qed



text \<open>
  C4: Slots. The active sequences have pairwise different slot ids in
  \<open>0 ..< max_batch_size\<close>, no active slot is on the free list, the free list has no
  duplicates, no slot is lost, and the scheduler never holds more requests than its batch
  size.
\<close>

theorem continuous_slots:
  assumes "config_ok (eg_caps E e) config" and "world_start w"
    and "loop_reach X E nb (loop_start (Scheduler_new E e w config)) s"
  shows "distinct (map job_seq (lp_active s)) \<and> distinct (lp_free_slots s) \<and>
    set (lp_free_slots s) \<inter> set (map job_seq (lp_active s)) = {} \<and>
    set (lp_free_slots s) \<union> set (map job_seq (lp_active s)) = {0..<int (cf_max_batch_size (sd_config s))} \<and>
    length (lp_pending s) + length (lp_active s) \<le> cf_max_batch_size (sd_config s)"
proof -
  note D = inv_coreD [OF reach_inv [OF assms, unfolded loop_inv_def]]
  note S = slots_facts [OF D(1)]
  have "set (lp_free_slots s) \<union> set (map job_seq (lp_active s)) = {0..<int (cf_max_batch_size (sd_config s))}"
    using S(4) by (auto simp: set_eq_iff)
  with S(1-3) D(2) show ?thesis by simp
qed

theorem continuous_slots_witness:
  "distinct (map job_seq (lp_active (ex_turn 1))) \<and> map job_seq (lp_active (ex_turn 1)) = [0, 1]"
  using continuous_slots [OF ex_config_ok ex_world_start ex_reach, of 1] ex_turn_1(1) by simp

text \<open>
  C5: KV blocks are never handed out twice. In every state between two turns the count of
  a block is at least the number of times the page tables of the active sequences mention
  it, and a block is on the free list exactly when its count is zero; so a block in use
  is not allocatable.
\<close>

theorem continuous_blocks_counted:
  assumes "config_ok (eg_caps E e) config" and "world_start w"
    and "loop_reach X E nb (loop_start (Scheduler_new E e w config)) s"
  shows "count (held_refs (holders_of (lp_active s))) b \<le> refcount (sd_blocks s) b \<and>
    (b \<in> set (ba_free_list (sd_blocks s)) \<longleftrightarrow> b < ba_total (sd_blocks s) \<and> refcount (sd_blocks s) b = 0)"
proof -
  obtain L where "kv_acc (cf_max_batch_size (sd_config s)) (sd_blocks s) (sd_prefix_cache s) (holders_of (lp_active s)) L"
    using inv_coreD(4) [OF reach_inv [OF assms, unfolded loop_inv_def]] by blast
  note refs = kv_accD(1) [OF this]
  from refs_count [OF refs, of b] have "count (held_refs (holders_of (lp_active s))) b \<le> refcount (sd_blocks s) b" by simp
  moreover from refs_of_wf [OF refs] have
    "b \<in> set (ba_free_list (sd_blocks s)) \<longleftrightarrow> b < ba_total (sd_blocks s) \<and> refcount (sd_blocks s) b = 0"
    by (rule pool_wfE) (auto simp: refcount_def)
  ultimately show ?thesis ..
qed

theorem continuous_blocks_counted_witness:
  "count (held_refs (holders_of (lp_active (ex_turn 1)))) 2 \<le> refcount (sd_blocks (ex_turn 1)) 2 \<and>
   2 \<notin> set (ba_free_list (sd_blocks (ex_turn 1)))"
  using continuous_blocks_counted [OF ex_config_ok ex_world_start ex_reach, of 1 2] ex_turn_1_count by simp

text \<open>
  C6: Without prefix donors every block is back in the pool when \<open>run_continuous\<close> returns.
\<close>

theorem continuous_return_pool_whole:
  assumes "config_ok (eg_caps E e) config" and "world_start w"
    and "run_continuous fuel X E (Scheduler_new E e w config) = Some (Returns s)"
    and "\<not> cf_prefix_caching config \<or> cf_prefix_donors config = 0"
  shows "free_blocks (sd_blocks s) = ba_total (sd_blocks s)"
  by (rule returned_pool [OF assms])

theorem continuous_return_pool_whole_witness:
  "\<exists>s. run_continuous 6 ex_outer mock_engine ex_scheduler = Some (Returns s) \<and>
    free_blocks (sd_blocks s) = ba_total (sd_blocks s)"
proof -
  obtain s where s: "run_continuous 6 ex_outer mock_engine ex_scheduler = Some (Returns s)" by (rule ex_returns)
  have "\<not> cf_prefix_caching ex_config \<or> cf_prefix_donors ex_config = 0" by (simp add: ex_config_def)
  from continuous_return_pool_whole [OF ex_config_ok ex_world_start s [unfolded ex_scheduler_def] this] s
  show ?thesis by blast
qed



text \<open>
  C8: Preemption can starve the requests that are left. With seven blocks of one token and
  three requests that need at most five each, so that every one of them fits alone, the queue
  closed and nothing cancelled, \<open>run_continuous\<close> never returns: when two sequences outgrow the
  pool together the younger comes short, and as it is exempt from eviction itself it evicts
  the older, which restarts, is then the younger of the two, and evicts the other in turn.
  This holds for every clock and any amount of fuel.
\<close>

theorem continuous_livelock:
  "config_ok (eg_caps mock_engine (MockModelEngine_new lv_mock)) lv_config \<and> world_start lv_world \<and>
   qu_closed (qw_queue lv_world) \<and> qw_script lv_world = [] \<and>
   blocks_for (sd_blocks lv_scheduler) (1 + max_tokens lv_spec) \<le> free_blocks (sd_blocks lv_scheduler) \<and>
   run_continuous fuel (lv_outer c) mock_engine lv_scheduler = None"
  using lv_config_ok lv_world_start lv_fits lv_never_returns by (simp add: lv_world_def)


section \<open>Static batching\<close>

text \<open>
  C10: A static batch answers each of its requests exactly once and in the order of the
  batch, each answer being the outcome of a sequence that has told its sink; every block
  the batch took is back in the pool, and the queue is untouched.
\<close>

theorem static_batch_complete:
  assumes "run_batch fuel X E batch s = Some (Inr s')" and "list_all request_ok batch" and "refs_of (sd_blocks s) H"
  shows "refs_of (sd_blocks s') H \<and> sd_queue s' = sd_queue s \<and>
    (\<exists>ds. sd_fulfilled s' = sd_fulfilled s @ ds \<and> map (ticket \<circ> fst) ds = map ticket batch \<and> list_all delivered_ok ds)"
  using run_batch_ok [OF assms] by (simp add: same_queue_def)

theorem static_batch_complete_witness:
  "\<exists>s'. run_batch 8 ex_outer mock_engine [ex_request 2 ''b'' 4] ex_serial = Some (Inr s') \<and> refs_of (sd_blocks s') {#} \<and>
    length (sd_fulfilled s') = 1"
proof -
  obtain s' where r: "run_batch 8 ex_outer mock_engine [ex_request 2 ''b'' 4] ex_serial = Some (Inr s')"
    and l: "length (sd_fulfilled s') = 1" by (rule ex_batch)
  have "refs_of (sd_blocks ex_serial) {#}"
    using Scheduler_new_static [OF ex_serial_ok ex_world_start] by (simp add: ex_serial_def static_inv_def)
  moreover have "list_all request_ok [ex_request 2 ''b'' 4]" using ex_requests_ok by (simp add: ex_requests_def)
  ultimately show ?thesis using static_batch_complete [OF r] r l by blast
qed

text \<open>
  A static batch ends on every engine: two units of fuel more than the largest
  \<open>max_tokens\<close> are enough for its decode loop.
\<close>

theorem static_batch_returns:
  assumes "list_all request_ok batch" and "refs_of (sd_blocks s) H"
    and "list_all (\<lambda>r. max_tokens (rq_spec r) + 1 < fuel) batch"
  shows "\<exists>out. run_batch fuel X E batch s = Some out"
  using run_batch_terminates [OF assms] by blast

theorem static_batch_returns_witness:
  "\<exists>out. run_batch 6 ex_outer mock_engine ex_requests ex_scheduler = Some out"
proof -
  have refs: "refs_of (sd_blocks ex_scheduler) {#}"
    using Scheduler_new_static [OF ex_config_ok ex_world_start] by (simp add: ex_scheduler_def static_inv_def)
  have "list_all (\<lambda>r. max_tokens (rq_spec r) + 1 < 6) ex_requests"
    by (simp add: ex_requests_def ex_request_def ex_spec_def)
  from static_batch_returns [OF ex_requests_ok refs this] show ?thesis .
qed

text \<open>
  C11: When \<open>run_static\<close> returns, the queue has been closed and drained, every accepted
  request was answered exactly once, and the whole pool is free.
\<close>

theorem static_run_complete:
  assumes "config_ok (eg_caps E e) config" and "world_start w"
    and "run_static n fuel X E (Scheduler_new E e w config) = Some (Returns s)"
  shows "qu_closed (qw_queue (sd_queue s)) \<and> qu_queue (qw_queue (sd_queue s)) = [] \<and>
    tickets (map fst (sd_fulfilled s)) = tickets (qw_accepted (sd_queue s)) \<and>
    free_blocks (sd_blocks s) = ba_total (sd_blocks s)"
proof -
  note R = run_static_inv [OF Scheduler_new_static [OF assms(1,2)] assms(3)]
  from R have "static_inv s" by blast
  from static_pool_whole [OF this] R show ?thesis by (simp add: static_inv_def outside_def)
qed

theorem static_run_complete_witness:
  "\<exists>s. run_static 3 8 ex_outer mock_engine ex_serial = Some (Returns s) \<and>
    tickets (map fst (sd_fulfilled s)) = tickets (qw_accepted (sd_queue s)) \<and> length (sd_fulfilled s) = 2"
proof -
  obtain s where r: "run_static 3 8 ex_outer mock_engine ex_serial = Some (Returns s)"
    and l: "length (sd_fulfilled s) = 2" by (rule ex_static_run)
  from static_run_complete [OF ex_serial_ok ex_world_start r [unfolded ex_serial_def]] r l show ?thesis by blast
qed

text \<open>
  C12: If the queue is or will be closed, \<open>run_static\<close> ends, on every engine and for every
  behaviour of the clock and the clients: it neither waits forever nor loops.
\<close>

theorem static_run_ends:
  assumes "config_ok (eg_caps E e) config" and "world_start w" and "closes w" and "work w < n" and "4294967296 < fuel"
  shows "\<exists>t. run_static n fuel X E (Scheduler_new E e w config) = Some t \<and> t \<noteq> Waits"
  using run_static_terminates [OF Scheduler_new_static [OF assms(1,2)], of n fuel X E] assms(3-5)
    Scheduler_new_facts(6) [OF assms(1), of w] by simp

theorem static_run_ends_witness:
  "\<exists>t. run_static 3 4294967297 ex_outer mock_engine (Scheduler_new mock_engine ex_engine ex_world ex_config) = Some t \<and> t \<noteq> Waits"
  by (rule static_run_ends [OF ex_config_ok ex_world_start])
     (simp_all add: closes_def work_def ex_world_def ex_requests_def)

section \<open>The server as a whole\<close>



text \<open>
  C14: End to end. When the worker thread of \<open>serve\<close> returns, in either mode and on any
  engine, the ids of the answered requests are pairwise different and are exactly the ids
  of the accepted ones, and every answer was a complete and correct delivery.
\<close>

theorem serve_answers_all:
  assumes "json_ranges J" and "config_ok (eg_caps E e) (scheduler_config config)"
    and "length (concat traffic) < 18446744073709551615"
    and "serve J config traffic n fuel X E e = Some (Returns s)"
  shows "distinct (map (rq_id \<circ> fst) (sd_fulfilled s)) \<and>
    set (map (rq_id \<circ> fst) (sd_fulfilled s)) = set (map rq_id (qw_accepted (sd_queue s))) \<and>
    list_all delivered_ok (sd_fulfilled s)"
  by (rule serve_answered [OF assms])

theorem serve_answers_all_witness:
  "\<exists>s. serve ex_json ex_server ex_traffic 3 8 ex_outer mock_engine ex_engine = Some (Returns s) \<and>
    set (map rq_id (qw_accepted (sd_queue s))) = {1}"
proof -
  obtain s where r: "serve ex_json ex_server ex_traffic 3 8 ex_outer mock_engine ex_engine = Some (Returns s)"
    and i: "map (rq_id \<circ> fst) (sd_fulfilled s) = [1]" by (rule ex_serve)
  have "length (concat ex_traffic) < 18446744073709551615" by (simp add: ex_traffic_def)
  from serve_answers_all [OF ex_json_ranges ex_server_ok this r] have "set (map rq_id (qw_accepted (sd_queue s))) = {1}"
    unfolding i by simp
  with r show ?thesis by blast
qed



text \<open>
  Shutdown. In static mode the worker thread of \<open>serve\<close> ends once the listener has
  stopped, whatever the traffic was and on every engine.
\<close>

theorem serve_static_ends:
  assumes "json_ranges J" and "config_ok (eg_caps E e) (scheduler_config config)" and "sc_mode config = kStatic"
    and "length (concat traffic) < n" and "4294967296 < fuel"
  shows "\<exists>t. serve J config traffic n fuel X E e = Some t \<and> t \<noteq> Waits"
proof -
  let ?w = "serve_world J config traffic"
  let ?s = "Scheduler_new E e ?w (scheduler_config config)"
  have "cf_mode (sd_config ?s) = kStatic" using assms(3) by (simp add: Scheduler_new_mode scheduler_config_def)
  then have "serve J config traffic n fuel X E e = run_static n fuel X E ?s" by (simp add: serve_def run_def)
  moreover have "work ?w < n" using serve_world_work [of J config traffic] assms(4) by simp
  ultimately show ?thesis
    using run_static_terminates [OF Scheduler_new_static [OF assms(2) serve_world_start [OF assms(1)]], where n = n and fuel = fuel]
      serve_world_closes [of J config traffic] Scheduler_new_facts(6) [OF assms(2), of ?w] assms(5) by simp
qed

theorem serve_static_ends_witness:
  "\<exists>t. serve ex_json ex_server ex_traffic 3 4294967297 ex_outer mock_engine ex_engine = Some t \<and> t \<noteq> Waits"
  by (rule serve_static_ends [OF ex_json_ranges ex_server_ok])
     (simp_all add: ex_server_def ex_traffic_def)

text \<open>
  C16: The order of the shutdown. Under every interleaving of the main thread, the watcher, the
  worker, the handlers of the HTTP library and the signals: the queue is closed only when no
  handler runs, the watcher has ended and both signals have their default action again; the
  worker ends only after the queue is closed; \<open>serve\<close> returns only after the worker has ended,
  and returns true only after a signal was seen and \<open>shutting_down\<close> was set.
\<close>

theorem shutdown_in_order:
  assumes "shutdown_run early evs (shutdown_start received) = Some s"
  shows "(sh_closed s \<longrightarrow> sh_handlers s = 0 \<and> sh_watcher s = WExit \<and> \<not> sh_int_handled s \<and> \<not> sh_term_handled s) \<and>
    (sh_worker_done s \<longrightarrow> sh_closed s) \<and> (sh_ok s \<longrightarrow> sh_shutting_down s \<and> sh_signal_received s) \<and>
    (sh_main s = MReturned \<longrightarrow> sh_closed s \<and> sh_worker_done s)"
  using shutdown_ordered [OF assms] by blast

theorem shutdown_in_order_witness:
  "\<exists>s. shutdown_run False (replicate 5 Main @ [HandlerStart, Sigint] @ replicate 4 Watcher @ [HandlerEnd] @
       replicate 6 Main @ [Worker, Main]) (shutdown_start False) = Some s \<and>
     sh_main s = MReturned \<and> sh_ok s \<and> sh_closed s \<and> sh_worker_done s \<and> sh_signal_received s"
proof -
  let ?evs = "replicate 5 Main @ [HandlerStart, Sigint] @ replicate 4 Watcher @ [HandlerEnd] @ replicate 6 Main @ [Worker, Main]"
  obtain s where s: "shutdown_run False ?evs (shutdown_start False) = Some s" "sh_main s = MReturned" "sh_ok s"
    by (simp add: numeral_eq_Suc shutdown_start_def main_step_def watcher_step_def)
  from shutdown_in_order [OF s(1)] s show ?thesis by blast
qed



text \<open>
  C18: A signal can be lost. If the HTTP library ignores a \<open>stop\<close> that reaches it before \<open>listen\<close>
  runs (\<open>early\<close> is false), a signal that arrives between the installation of the handlers and
  \<open>listen\<close> ends the watcher without effect: from then on, whatever happens and however many
  signals follow, the main thread stays in \<open>listen\<close>.
\<close>

theorem early_signal_lost:
  "\<exists>s. shutdown_run False early_signal (shutdown_start received) = Some s \<and> sh_signal_received s \<and>
    \<not> (\<exists>evs s'. shutdown_run False evs s = Some s' \<and> sh_main s' \<noteq> MListening)"
  by (rule early_signal_stuck)

section \<open>Requests generated one at a time\<close>

text \<open>
  C19: \<open>generate_one\<close> returns on every engine and for every cancellation behaviour: one
  more unit of fuel than \<open>max_tokens\<close> is enough for the token loop.
\<close>

theorem generate_one_returns:
  assumes "max_tokens spec < 4294967296" and "max_tokens spec < fuel"
  shows "\<exists>out. generate_one fuel E cxl e seq spec sink = Some out"
  by (rule generate_one_terminates [OF assms])

theorem generate_one_returns_witness:
  "\<exists>out. generate_one 5 mock_engine (\<lambda>_. False) ex_engine 0 (ex_spec ''a'' 4) [] = Some out"
  by (rule generate_one_returns) (simp_all add: ex_spec_def)

text \<open>
  C20: On the mock engine \<open>generate_one\<close> delivers exactly the scripted response: consumed
  byte by byte up to the token budget or until a stop string is complete, then cut before
  the first stop string; the finish reason says which limit ended it, and the engine slot
  is released.
\<close>

theorem generate_one_on_mock:
  assumes "\<not> mc_echo_prompt config" and "max_tokens spec < 4294967296" and "max_tokens spec < fuel"
  shows "\<exists>st e'. generate_one fuel mock_engine (\<lambda>_. False) (MockModelEngine_new config) seq spec sink =
      Some (None, st, e') \<and>
    emitted_text st = response_spec (consume_text [] (take (max_tokens spec) (mc_response config)) (stop spec)) (stop spec) \<and>
    sq_reason st = (if earliest_stop (consume_text [] (take (max_tokens spec) (mc_response config)) (stop spec)) (stop spec) \<noteq> None
      then kStopString else if length (mc_response config) \<le> max_tokens spec then kEos else kMaxTokens) \<and>
    seq \<notin> mock_live e'"
  by (rule generate_one_mock [OF assms])

theorem generate_one_on_mock_witness:
  "\<exists>st e'. generate_one 5 mock_engine (\<lambda>_. False) (MockModelEngine_new ex_mock) 0 (ex_spec ''b'' 4) [] =
      Some (None, st, e') \<and> emitted_text st = ''x'' \<and> sq_reason st = kStopString"
  using generate_one_on_mock [of ex_mock "ex_spec ''b'' 4" 5 0 "[]"] ex_consume
  by (auto simp: ex_mock_def ex_spec_def)

text \<open>
  C21: The positions of the tokens that \<open>generate_one\<close> feeds to any engine are contiguous
  from zero: each item starts where the previous one ended.
\<close>

theorem generate_one_feeds_contiguously:
  assumes "generate_one fuel (logged E) cxl (e, []) seq spec sink = Some (x, st, (e', l))"
    and "length (eg_tokenize E e (prompt spec) True) + max_tokens spec < 2147483648"
  shows "contiguous 0 l"
  by (rule generate_one_positions [OF assms])

theorem generate_one_feeds_contiguously_witness:
  "\<exists>x st e' l. generate_one 5 (logged mock_engine) (\<lambda>_. False) (ex_engine, []) 0 (ex_spec ''a'' 4) [] =
      Some (x, st, (e', l)) \<and> contiguous 0 l"
proof -
  have fits: "length (eg_tokenize mock_engine ex_engine (prompt (ex_spec ''a'' 4)) True) + max_tokens (ex_spec ''a'' 4) < 2147483648"
    by (simp add: ex_spec_def mock_tokenize_def)
  have "max_tokens (ex_spec ''a'' 4) < 4294967296" "max_tokens (ex_spec ''a'' 4) < 5" by (simp_all add: ex_spec_def)
  from generate_one_terminates [OF this, of "logged mock_engine" "\<lambda>_. False" "(ex_engine, [])" 0 "[]"]
  obtain x st e' l where "generate_one 5 (logged mock_engine) (\<lambda>_. False) (ex_engine, []) 0 (ex_spec ''a'' 4) [] = Some (x, st, (e', l))"
    by (metis surj_pair)
  with generate_one_feeds_contiguously [OF this fits] show ?thesis by blast
qed

section \<open>The sequence state machine\<close>

text \<open>
  C22: Whatever tokens the engine samples and whenever the client cancels, a sequence that
  has been driven to its end and finished has sent its sink a complete protocol, and,
  unless it failed, the text sent is the generated text cut before the first occurrence of
  a stop string.
\<close>

theorem sequence_response:
  assumes "max_tokens spec < 4294967296"
    and "sq_finished (accept_run piece steps (SequenceState_new seq spec [] toks))"
  shows "protocol_complete (sq_sink (finish (accept_run piece steps (SequenceState_new seq spec [] toks)))) \<and>
    texts_of (sq_sink (finish (accept_run piece steps (SequenceState_new seq spec [] toks)))) =
      response_spec (sq_text (finish (accept_run piece steps (SequenceState_new seq spec [] toks)))) (stop spec)"
  by (rule accept_run_response [OF assms])

theorem sequence_response_witness:
  "protocol_complete (sq_sink (finish (accept_run (\<lambda>t. [char_of (nat t)])
      [(\<lparr>gs_seq = 0, gs_token = 120, gs_is_eog = False\<rparr>, False), (\<lparr>gs_seq = 0, gs_token = 121, gs_is_eog = False\<rparr>, False)]
      (SequenceState_new 0 (ex_spec ''a'' 4) [] [7]))))"
  using sequence_response [of "ex_spec ''a'' 4" "\<lambda>t. [char_of (nat t)]"
      "[(\<lparr>gs_seq = 0, gs_token = 120, gs_is_eog = False\<rparr>, False), (\<lparr>gs_seq = 0, gs_token = 121, gs_is_eog = False\<rparr>, False)]" 0 "[7]"]
  by (simp add: ex_accept_run_finished) (simp add: ex_spec_def)

text \<open>
  C23: No text of a stop string is ever sent early. At every moment of a running
  sequence, the text already sent is a prefix of the response that any continuation of
  the generated text will have.
\<close>

theorem sequence_never_leaks:
  assumes "max_tokens spec < 4294967296"
    and "\<not> sq_finished (accept_run piece steps (SequenceState_new seq spec [] toks))"
  shows "prefix (texts_of (sq_sink (accept_run piece steps (SequenceState_new seq spec [] toks))))
    (response_spec (sq_text (accept_run piece steps (SequenceState_new seq spec [] toks)) @ rest) (stop spec))"
  by (rule accept_run_prefix [OF assms])

theorem sequence_never_leaks_witness:
  "prefix (texts_of (sq_sink (accept_run (\<lambda>t. [char_of (nat t)])
      [(\<lparr>gs_seq = 0, gs_token = 120, gs_is_eog = False\<rparr>, False)] (SequenceState_new 0 (ex_spec ''a'' 4) [] [7]))))
    (response_spec (sq_text (accept_run (\<lambda>t. [char_of (nat t)])
      [(\<lparr>gs_seq = 0, gs_token = 120, gs_is_eog = False\<rparr>, False)] (SequenceState_new 0 (ex_spec ''a'' 4) [] [7])) @ ''yz'') [''y''])"
  using sequence_never_leaks [of "ex_spec ''a'' 4" "\<lambda>t. [char_of (nat t)]"
      "[(\<lparr>gs_seq = 0, gs_token = 120, gs_is_eog = False\<rparr>, False)]" 0 "[7]" "''yz''"]
  by (simp add: ex_accept_run_running) (simp add: ex_spec_def)

text \<open>
  C24: Chunked prefill is equivalent to one prefill: any split of the prompt into chunk
  budgets submits the tokens of the prompt once each, in order, at contiguous positions.
\<close>

theorem chunked_prefill:
  assumes "prefill_run (SequenceState_new seq spec sink toks) budgets = (items, st)"
    and "length toks \<le> sum_list budgets" and "length toks < 2147483648"
  shows "concat (map it_tokens items) = toks \<and> contiguous 0 items \<and> \<not> prefilling st"
  using prefill_run_spec [OF assms(1)] assms(2,3) prefill_run_prompt [OF assms(1)]
  by (simp add: SequenceState_new_def prefilling_def prefill_remaining_def)

theorem chunked_prefill_witness:
  "concat (map it_tokens (fst (prefill_run (SequenceState_new 0 (ex_spec ''a'' 4) [] [7, 8, 9]) [2, 2]))) = [7, 8, 9]"
  using chunked_prefill [of 0 "ex_spec ''a'' 4" "[]" "[7, 8, 9]" "[2, 2]"]
  by (cases "prefill_run (SequenceState_new 0 (ex_spec ''a'' 4) [] [7, 8, 9]) [2, 2]") simp

section \<open>The KV block pool\<close>

text \<open>
  C25: The pool refines a multiset of references. If the pool's counts represent the
  references \<open>H\<close>, then \<open>allocate\<close> fails exactly when too few blocks are free and
  otherwise adds \<open>n\<close> distinct blocks that nobody holds; \<open>free\<close> removes references, and
  freeing what was just allocated restores the references \<open>H\<close>.
\<close>

theorem allocator_refines_references:
  assumes "refs_of a H"
  shows "(case allocate a n of
      None \<Rightarrow> free_blocks a < n
    | Some (a', bs) \<Rightarrow> refs_of a' (H + mset bs) \<and> length bs = n \<and> distinct bs \<and> set bs \<inter> set_mset H = {} \<and>
        free_blocks a' = free_blocks a - n \<and> refs_of (free a' bs) H) \<and>
    refs_of (free a cs) (H - mset cs)"
proof (cases "allocate a n")
  case None
  with pool.alloc_iff [OF assms, of n] pool.release_refs [OF assms] show ?thesis by simp
next
  case (Some r)
  obtain a' bs where r: "r = (a', bs)" by (cases r)
  note al = Some [unfolded r]
  from pool.alloc_refs [OF assms al] pool.alloc_length [OF assms al] pool.alloc_distinct [OF assms al]
    pool.alloc_fresh [OF assms al] pool.alloc_avail [OF assms al] pool.alloc_release [OF assms al] pool.release_refs [OF assms]
  show ?thesis by (auto simp: al)
qed

theorem allocator_refines_references_witness:
  "(case allocate (BlockAllocator_new 3 2) 2 of
      None \<Rightarrow> False
    | Some (a', bs) \<Rightarrow> refs_of a' (mset bs) \<and> bs = [0, 1] \<and> refs_of (free a' bs) {#})"
  using allocator_refines_references [OF refs_of_new [of 3 2], of 2 "[]"] ex_allocate by (auto split: option.splits)

text \<open>
  C26: \<open>ensure_capacity\<close> succeeds exactly when the shortfall of blocks is free; it then
  leaves the sequence with as many blocks as its tokens need (or as it had), the old ones
  first; when it fails nothing changes.
\<close>

theorem ensure_capacity_correct:
  assumes "refs_of a H" and "table_ok H t" and "ensure_capacity a t n = (ok, a', t')"
  shows "(ok \<longleftrightarrow> blocks_for a n \<le> length (bt_blocks t) + free_blocks a) \<and>
    (\<exists>bs. bt_blocks t' = bt_blocks t @ bs \<and> refs_of a' (H + mset bs) \<and> set bs \<inter> set_mset H = {} \<and>
      (if ok then length (bt_blocks t') = max (length (bt_blocks t)) (blocks_for a n) \<and> bt_n_tokens t' = n
       else a' = a \<and> t' = t))"
  using ensure_capacity_refs [OF assms] ensure_capacity_iff [OF assms(1,2), of n] assms(3) by (metis fst_conv)

theorem ensure_capacity_correct_witness:
  "fst (ensure_capacity (BlockAllocator_new 3 2) BlockTable_new 5) \<and>
   length (bt_blocks (snd (snd (ensure_capacity (BlockAllocator_new 3 2) BlockTable_new 5)))) = 3"
  using ensure_capacity_correct [OF refs_of_new [of 3 2] table_ok_new, of 5] ex_ensure
  by (cases "ensure_capacity (BlockAllocator_new 3 2) BlockTable_new 5") (simp add: BlockTable_new_def)

text \<open>
  \<open>blocks_for\<close> is the ceiling of the division as long as the 32-bit sum does not
  wrap: the blocks cover the tokens, and one block fewer would not.
\<close>

theorem blocks_for_is_ceiling:
  assumes "pool_wf a" and "n + ba_block_size a \<le> 4294967296"
  shows "n \<le> blocks_for a n * ba_block_size a \<and> blocks_for a n * ba_block_size a < n + ba_block_size a"
  using blocks_for_bounds [OF assms] by simp

theorem blocks_for_is_ceiling_witness:
  "5 \<le> blocks_for (BlockAllocator_new 3 2) 5 * 2 \<and> blocks_for (BlockAllocator_new 3 2) 5 * 2 < 7"
  using blocks_for_is_ceiling [OF pool_wf_new [of 3 2], of 5] by (simp add: BlockAllocator_new_def)

text \<open>
  Past that bound the sum wraps and \<open>blocks_for\<close> answers zero: a sequence of nearly
  \<open>2 ^ 32\<close> tokens is said to need no block at all, so every capacity check passes.
\<close>

theorem blocks_for_wraps_to_zero:
  assumes "pool_wf a" and "n < 4294967296" and "4294967296 < n + ba_block_size a"
  shows "blocks_for a n = 0 \<and> ensure_capacity a BlockTable_new n = (True, a, BlockTable_new\<lparr>bt_n_tokens := n\<rparr>)"
  using blocks_for_wrap [OF assms] by (simp add: ensure_capacity_def n_blocks_def BlockTable_new_def)

theorem blocks_for_wraps_to_zero_witness:
  "blocks_for (BlockAllocator_new 3 16) 4294967290 = 0"
  using blocks_for_wraps_to_zero [OF pool_wf_new [of 3 16], of 4294967290] by (simp add: BlockAllocator_new_def)

section \<open>The prefix cache\<close>



text \<open>
  C28: A prefix that was just hit is not the one evicted: with at least two donors, the
  eviction that follows a hit leaves the hit entry in the cache.
\<close>

theorem hit_is_not_evicted:
  assumes "keys_ok c" and "ticks_ok c" and "pc_tick c + 1 < 18446744073709551616"
    and "find_longest c tokens bs = (Some e, c')" and "2 \<le> size (donors c)"
    and "evict_lru_retained c' = (Some v, c'')"
  shows "entry_at c'' (hash_prefix tokens (en_n_tokens e)) = Some e"
  by (rule hit_survives_eviction [OF assms])

theorem hit_is_not_evicted_witness:
  "entry_at (snd (evict_lru_retained (snd (find_longest ex_cache [1, 2] 1)))) (hash_prefix [1, 2] 1) =
    Some \<lparr>en_seq = 4, en_n_tokens = 1, en_blocks = [0], en_retained = True\<rparr>"
  using hit_is_not_evicted [OF ex_cache_ok(1,2,3) ex_cache_hit ex_cache_ok(4) ex_cache_evict] by simp

section \<open>Sinks and queue\<close>



text \<open>
  The request queue is first-in first-out and bounded. For any interleaving of
  pushes and pops, the contents followed by the accepted requests equal the popped
  requests followed by the contents, and the capacity is never exceeded.
\<close>

theorem queue_is_bounded_fifo:
  assumes "length (qu_queue q) \<le> qu_capacity q"
    and "fifo_run try_push queue_take ops q = (q', accepted, popped)"
  shows "qu_queue q @ accepted = popped @ qu_queue q' \<and> length (qu_queue q') \<le> qu_capacity q"
  using rqueue.run_history [OF assms(2)] fifo_run_bounded [OF assms(1), of ops] assms(2) by simp

theorem queue_is_bounded_fifo_witness:
  "qu_queue (fst (fifo_run try_push queue_take [Put (ex_request 1 ''a'' 1), Get] (RequestQueue_new 1))) = []"
  using queue_is_bounded_fifo [of "RequestQueue_new 1" "[Put (ex_request 1 ''a'' 1), Get]"
      "fst (fifo_run try_push queue_take [Put (ex_request 1 ''a'' 1), Get] (RequestQueue_new 1))"
      "[ex_request 1 ''a'' 1]" "[ex_request 1 ''a'' 1]"]
  by (simp add: RequestQueue_new_def try_push_def queue_take_def try_pop_def)

section \<open>Construction, engine, measurements\<close>



text \<open>On the mock engine, detokenizing a tokenized text gives the text back.\<close>

theorem mock_tokenizer_round_trip:
  "concat (map (mock_piece e) (mock_tokenize e' str special)) = str"
  by (rule mock_round_trip)

text \<open>
  C31: The latency histogram. After any sequence of observations, the cumulative count
  that the metrics endpoint prints for a bound is the number of observations at most that
  bound, modulo the 64-bit counter.
\<close>

theorem histogram_counts:
  assumes "i < length kBounds"
  shows "cumulative (fold observe vs LatencyHistogram_new) i = u64 (length (filter (\<lambda>v. v \<le> kBounds ! i) vs))"
  using cumulative_fold_observe [of LatencyHistogram_new i vs] assms cumulative_new [of i]
  by (simp add: LatencyHistogram_new_def)

theorem histogram_counts_witness:
  "cumulative (fold observe [3, 7, 700] LatencyHistogram_new) 2 = u64 (length (filter (\<lambda>v. v \<le> kBounds ! 2) [3, 7, 700]))"
  by (rule histogram_counts) (simp add: kBounds_def)

text \<open>
  The latency of a completed request decomposes: total = queue wait + time to first
  token + time per output token times the remaining tokens.
\<close>

theorem latency_decomposes:
  assumes "tm_admitted t = Some a" and "tm_first_token t = Some f" and "tm_finished t = Some d" and "2 \<le> n"
  shows "total_ms t = queue_wait_ms t + ttft_ms t + tpot_ms t n * of_nat (n - 1)"
  by (rule timing_decomposition [OF assms])

theorem latency_decomposes_witness:
  "total_ms \<lparr>tm_enqueued = 0, tm_admitted = Some 1000000, tm_first_token = Some 3000000, tm_finished = Some 9000000\<rparr> =
    queue_wait_ms \<lparr>tm_enqueued = 0, tm_admitted = Some 1000000, tm_first_token = Some 3000000, tm_finished = Some 9000000\<rparr> +
    ttft_ms \<lparr>tm_enqueued = 0, tm_admitted = Some 1000000, tm_first_token = Some 3000000, tm_finished = Some 9000000\<rparr> +
    tpot_ms \<lparr>tm_enqueued = 0, tm_admitted = Some 1000000, tm_first_token = Some 3000000, tm_finished = Some 9000000\<rparr> 4 * of_nat (4 - 1)"
  by (rule latency_decomposes) simp_all

section \<open>The HTTP interface\<close>




text \<open>
  C34: A client that parses the body of a response reads back the text, the reason and the
  token counts of the result.
\<close>

theorem response_round_trip:
  assumes "json_reads J" and "usage_typed usage" and "make_generate_response J str reason usage = Inr body"
  shows "\<exists>j u. js_parse J body = Inr j \<and> read_string J j ''text'' = Some str \<and>
    read_string J j ''finish_reason'' = Some (to_string reason) \<and> js_find J j ''usage'' = Some u \<and>
    read_u32 J u ''prompt_tokens'' = Some (prompt_tokens usage) \<and>
    read_u32 J u ''completion_tokens'' = Some (completion_tokens usage) \<and>
    read_u32 J u ''total_tokens'' = Some (total_tokens usage)"
  using response_reads [OF assms] usage_json_reads [OF assms(1,2)] by metis

theorem response_round_trip_witness:
  "\<exists>body j u. make_generate_response ex_json ''hi'' kEos \<lparr>prompt_tokens = 3, completion_tokens = 2, cached_prompt_tokens = 0\<rparr> = Inr body \<and>
    js_parse ex_json body = Inr j \<and> read_string ex_json j ''text'' = Some ''hi'' \<and>
    js_find ex_json j ''usage'' = Some u \<and> read_u32 ex_json u ''completion_tokens'' = Some 2"
proof -
  let ?u = "\<lparr>prompt_tokens = 3, completion_tokens = 2, cached_prompt_tokens = 0\<rparr>"
  obtain body where b: "make_generate_response ex_json ''hi'' kEos ?u = Inr body"
    by (simp add: make_generate_response_def ex_json_def)
  from response_round_trip [OF ex_json_reads _ b] b show ?thesis by (auto simp: usage_typed_def)
qed


text \<open>
  C36: The stream of a complete response. When the writes succeed, the bytes sent are the
  non-empty deltas in order, one event each, then one closing event followed by the end
  marker, and the stream is marked done.
\<close>

theorem stream_complete:
  assumes "list_all (printable J) cs" and "protocol_complete cs" and "length cs \<le> n"
  shows "provide_all J (replicate n (True, False))
      \<lparr>st_sink = fold streaming_call cs [], st_cancel = False, st_written = [], st_done = False\<rparr> =
    Some (Inr \<lparr>st_sink = [], st_cancel = False,
      st_written = map (delta_chunk J) (filter (\<lambda>d. d \<noteq> []) (map delta_of (butlast cs))) @
        [stream_tail (projr (event_json J (last cs)))], st_done = True\<rparr>)"
  by (rule provide_complete [OF assms])

theorem stream_complete_witness:
  "\<exists>st. provide_all ex_json (replicate 3 (True, False))
      \<lparr>st_sink = fold streaming_call [OnText ''a'', OnText [], OnFinish kEos Usage_default] [], st_cancel = False,
       st_written = [], st_done = False\<rparr> = Some (Inr st) \<and> length (st_written st) = 2 \<and> st_done st"
proof -
  let ?cs = "[OnText ''a'', OnText [], OnFinish kEos Usage_default]"
  have "list_all (printable ex_json) ?cs"
    by (simp add: printable_def make_stream_delta_def make_stream_done_def ex_json_def)
  from stream_complete [OF this, of 3] show ?thesis by (simp add: protocol_complete_def)
qed

text \<open>
  C37: The metrics page. A scraper that splits the page into lines, drops the comments and
  cuts each line at its space reads exactly the samples of \<open>metric_blocks\<close>, under names that
  are all different.
\<close>

theorem metrics_page_reads_back:
  assumes "length (lh_counts ttft) = length kBounds" and "length (lh_counts e2e) = length kBounds"
  shows "scrape (metrics_text s ttft e2e depth) = concat (map samples_of (metric_blocks s ttft e2e depth)) \<and>
    map fst (scrape (metrics_text s ttft e2e depth)) = map metric_name metric_keys \<and>
    distinct (map fst (scrape (metrics_text s ttft e2e depth)))"
  using metrics_scraped [of s ttft e2e depth] metric_names [OF assms] metric_names_distinct by simp

theorem metrics_page_reads_back_witness:
  "distinct (map fst (scrape (metrics_text Stats_default LatencyHistogram_new LatencyHistogram_new 3)))"
proof -
  have "length (lh_counts LatencyHistogram_new) = length kBounds" by (simp add: LatencyHistogram_new_def)
  from metrics_page_reads_back [OF this this] show ?thesis by blast
qed

section \<open>The llama.cpp adapter\<close>

text \<open>
  C38: What \<open>decode\<close> hands to llama.cpp, in every state an engine can reach: one row per token
  of the items, in order, with its position and sequence, and the logits requested for the
  last token of each item to be sampled; every row that is sampled is such a row of its
  sequence. A batch over \<open>n_batch\<close> is refused and nothing changes.
\<close>

theorem llama_decode_submits:
  assumes "batch_inits L" and "llama_reach L cfg e"
  shows "if batch_total items \<le> im_n_batch e
    then \<exists>b. batch_slots b = concat (map item_slots items) \<and>
      llama_decode L e items =
        (let (rc, ctx) = ll_decode L (im_context e) b; e1 = e\<lparr>im_batch := b, im_context := ctx\<rparr>
         in if rc \<noteq> 0 then (Inl (''llama_decode failed with code '' @ int_str rc), e1)
            else sample_all L (sample_points 0 items) e1) \<and>
      (\<forall>(seq, i)\<in>set (sample_points 0 items). \<exists>tok pos. batch_slots b ! nat i = (tok, pos, 1, seq, 1))
    else \<exists>m. llama_decode L e items = (Inl m, e)"
proof (cases "batch_total items \<le> im_n_batch e")
  case True
  show ?thesis
  proof (rule decode_batch [OF llama_reach_room [OF assms] True, of L])
    fix b
    assume b: "batch_slots b = concat (map item_slots items)"
      and d: "llama_decode L e items = (let (rc, ctx) = ll_decode L (im_context e) b; e1 = e\<lparr>im_batch := b, im_context := ctx\<rparr>
         in if rc \<noteq> 0 then (Inl (''llama_decode failed with code '' @ int_str rc), e1)
            else sample_all L (sample_points 0 items) e1)"
    have "\<forall>(seq, i)\<in>set (sample_points 0 items). \<exists>tok pos. batch_slots b ! nat i = (tok, pos, 1, seq, 1)"
      using sample_points_rows [of _ _ 0 items "[]"] unfolding b by fastforce
    with b d show ?thesis unfolding if_P [OF True] by blast
  qed
qed (simp add: llama_decode_def)

theorem llama_decode_submits_witness:
  "\<exists>b. batch_slots b = [(5, 0, 1, 0, 0), (6, 1, 1, 0, 1)]"
  using llama_decode_submits [OF ex_batch_inits ex_llama_reach,
      of "[\<lparr>it_seq = 0, it_tokens = [5, 6], it_pos0 = 0, it_sample = True\<rparr>]"]
  by (auto simp: ex_impl_n_batch item_slots_def slot_def upt_rec i32_def)

text \<open>
  Buffers. \<open>tokenize\<close> and \<open>piece\<close> return the whole result whatever its length: the call
  with the first buffer either succeeds or tells the size for the second.
\<close>

theorem llama_text_whole:
  assumes "tokenizes L (im_model e) str add toks" and "length str + 2 < 2147483648" and "length toks < 2147483648"
    and "renders L (im_model e) tok s" and "length (ll_stack_buffer L) = 256" and "length s < 2147483648"
  shows "llama_tokenize L e str add = toks \<and> llama_piece L e tok = s"
  using llama_tokenize_whole [OF assms(1-3)] llama_piece_whole [OF assms(4-6)] by simp

theorem llama_text_whole_witness:
  "llama_tokenize ex_llama ex_impl ''ab'' True = tx_tokens ''ab'' True \<and> llama_piece ex_llama ex_impl 98 = [char_of (98 :: nat)]"
  using llama_text_whole [OF ex_tokenizes _ _ ex_renders, where e = ex_impl and str = "''ab''" and add = True and tok = 98]
  by (simp add: tx_tokens_def ex_llama_def)

section \<open>The command line\<close>



text \<open>
  C40: Every configuration whose numbers \<open>std::atoi\<close> can name can be asked for: the arguments
  that \<open>render_args\<close> writes for it are parsed back to it.
\<close>

theorem command_line_round_trip:
  assumes "sayable a"
  shows "parse_args undef prog (render_args a) = Runs a"
  using parse_rendered [OF assms, of undef prog] assms by (auto simp: parse_args_Runs sayable_def split: if_splits)

theorem command_line_round_trip_witness:
  "parse_args (\<lambda>v. 0) ''microvllm'' (render_args (Args_default\<lparr>ar_model := ''m.gguf'', ar_mode := kStatic\<rparr>)) =
    Runs (Args_default\<lparr>ar_model := ''m.gguf'', ar_mode := kStatic\<rparr>)"
  by (rule command_line_round_trip) (simp add: sayable_def Args_default_def)

end
